(* ===== verification/Prelude.thy ===== *)
theory Prelude
  imports Main "HOL-Library.Word" "HOL-Library.Multiset"
begin

unbundle bit_operations_syntax

section \<open>Shared types, errors and library lemmas\<close>

text \<open>
  What the components of the task queue share: the machine types of the Go source, the error
  values its functions return, the big-endian codec of \<open>encoding/binary\<close>, strings as bytes,
  instants of time, and the generic list and map lemmas the component theories rely on.

  Conventions. A Go \<^verbatim>\<open>uint32\<close> is a \<open>32 word\<close>, a \<^verbatim>\<open>byte\<close> an \<open>8 word\<close>. A \<^verbatim>\<open>uuid.UUID\<close> is a
  \<^verbatim>\<open>[16]byte\<close>, represented by the 128-bit word whose big-endian bytes are that array
  (\<open>uuid_bytes\<close> is the slice \<^verbatim>\<open>id[:]\<close>). A \<^verbatim>\<open>time.Time\<close> is the instant as an unbounded number of
  nanoseconds relative to the Unix epoch; a \<^verbatim>\<open>time.Duration\<close> is a number of nanoseconds.
\<close>

subsection \<open>Types\<close>

type_synonym byte = "8 word"
type_synonym bytes = "byte list"
type_synonym uint32 = "32 word"
type_synonym uint64 = "64 word"
type_synonym uuid = "128 word"
type_synonym time = int
type_synonym duration = int

text \<open>
  Every error value the modelled functions return. \<open>ErrOS\<close> stands for an error of the operating
  system (open, stat, read, write, fsync), \<open>ErrLib\<close> for an error returned by the uuid package.
  \<open>NilDeref\<close> and \<open>TypeAssertion\<close> are run-time panics: they unwind to the caller, as an
  error return does.
\<close>

datatype go_error =
    ErrShort int nat nat
  | ErrEmptyBody
  | ErrUnknownOp byte
  | EOF
  | ErrUnexpectedEOF
  | ErrCorruptRecord
  | ErrOS nat
  | ErrLib nat
  | ErrNotFound uuid
  | ErrNotFoundDLQ uuid
  | NilDeref
  | TypeAssertion

type_synonym 'a result = "go_error + 'a"

named_theorems codec_simps \<open>decoding what an encoder wrote\<close>
named_theorems queue_defs \<open>unfolding the operations of the queue\<close>

subsection \<open>Big-endian words (encoding/binary)\<close>

text \<open>\<open>be_put n x\<close> are the \<open>n\<close> low bytes of \<open>x\<close>, most significant first
  (\<^verbatim>\<open>PutUint32\<close> for \<open>n = 4\<close>, \<^verbatim>\<open>PutUint64\<close> for \<open>n = 8\<close>); \<open>be_get\<close> reads them back.\<close>

fun be_put :: "nat \<Rightarrow> 'a::len word \<Rightarrow> bytes" where
  "be_put 0 x = []"
| "be_put (Suc n) x = be_put n (drop_bit 8 x) @ [ucast x]"

definition be_get :: "bytes \<Rightarrow> 'a::len word" where
  "be_get bs = foldl (\<lambda>acc b. push_bit 8 acc OR ucast b) 0 bs"

definition putUint32 :: "uint32 \<Rightarrow> bytes" where
  "putUint32 x = be_put 4 x"

definition putUint64 :: "uint64 \<Rightarrow> bytes" where
  "putUint64 x = be_put 8 x"

definition getUint32 :: "bytes \<Rightarrow> uint32" where
  "getUint32 bs = be_get bs"

definition getUint64 :: "bytes \<Rightarrow> uint64" where
  "getUint64 bs = be_get bs"

definition uuid_bytes :: "uuid \<Rightarrow> bytes" where
  "uuid_bytes u = be_put 16 u"

definition uuid_of_bytes :: "bytes \<Rightarrow> uuid" where
  "uuid_of_bytes bs = be_get bs"

lemma length_be_put [simp]: "length (be_put n x) = n"
  by (induction n arbitrary: x) auto

lemma be_get_snoc: "be_get (bs @ [b]) = push_bit 8 (be_get bs) OR ucast b"
  by (simp add: be_get_def)

lemma be_get_be_put: "be_get (be_put n x) = take_bit (8 * n) (x :: 'a::len word)"
proof (induction n arbitrary: x)
  case 0
  then show ?case by (simp add: be_get_def)
next
  case (Suc n)
  have "push_bit 8 (take_bit (8 * n) (drop_bit 8 x)) OR ucast (ucast x :: byte)
      = take_bit (8 * Suc n) x"
    by (rule bit_word_eqI) (auto simp: bit_simps)
  with Suc show ?case by (simp add: be_get_snoc)
qed

lemma be_get_be_put_full: "LENGTH('a) \<le> 8 * n \<Longrightarrow> be_get (be_put n x) = (x :: 'a::len word)"
  by (simp add: be_get_be_put take_bit_word_eq_self)

lemma be_put_be_get:
  "8 * length bs \<le> LENGTH('a) \<Longrightarrow> be_put (length bs) (be_get bs :: 'a::len word) = bs"
proof (induction bs rule: rev_induct)
  case Nil
  then show ?case by simp
next
  case (snoc b bs)
  let ?w = "be_get bs :: 'a word"
  have high: "bit ?w i \<Longrightarrow> 8 + i < LENGTH('a)" for i
  proof -
    assume *: "bit ?w i"
    from snoc have "be_put (length bs) ?w = bs" by simp
    then have "?w = take_bit (8 * length bs) ?w"
      by (metis be_get_be_put)
    with * have "i < 8 * length bs"
      by (metis bit_take_bit_iff)
    with snoc.prems show ?thesis by simp
  qed
  have "drop_bit 8 (push_bit 8 ?w OR ucast b) = ?w"
    by (rule bit_word_eqI) (auto simp: bit_simps dest: bit_imp_le_length high)
  moreover have "(ucast (push_bit 8 ?w OR ucast b) :: byte) = b"
    by (rule bit_word_eqI) (use snoc.prems in \<open>auto simp: bit_simps dest: bit_imp_le_length\<close>)
  ultimately show ?case
    using snoc by (simp add: be_get_snoc)
qed

lemma getUint32_put [simp, codec_simps]: "getUint32 (putUint32 x) = x"
  by (simp add: getUint32_def putUint32_def be_get_be_put_full)

lemma getUint64_put [simp, codec_simps]: "getUint64 (putUint64 x) = x"
  by (simp add: getUint64_def putUint64_def be_get_be_put_full)

lemma uuid_of_bytes_bytes [simp, codec_simps]: "uuid_of_bytes (uuid_bytes u) = u"
  by (simp add: uuid_of_bytes_def uuid_bytes_def be_get_be_put_full)

lemma uuid_bytes_of_bytes: "length bs = 16 \<Longrightarrow> uuid_bytes (uuid_of_bytes bs) = bs"
  using be_put_be_get [of bs, where ?'a = 128] by (simp add: uuid_bytes_def uuid_of_bytes_def)

lemma length_put [simp]:
  "length (putUint32 x) = 4" "length (putUint64 y) = 8" "length (uuid_bytes u) = 16"
  by (simp_all add: putUint32_def putUint64_def uuid_bytes_def)

lemma uuid_bytes_inject [simp]: "uuid_bytes u = uuid_bytes v \<longleftrightarrow> u = v"
  by (metis uuid_of_bytes_bytes)

subsection \<open>Go strings\<close>

text \<open>A Go string is a sequence of bytes; a \<^typ>\<open>char\<close> of HOL is one byte.\<close>

definition byte_of_char :: "char \<Rightarrow> byte" where
  "byte_of_char c = word_of_nat (of_char c)"

definition char_of_byte :: "byte \<Rightarrow> char" where
  "char_of_byte b = char_of (unat b)"

definition string_bytes :: "string \<Rightarrow> bytes" where
  "string_bytes s = map byte_of_char s"

definition bytes_string :: "bytes \<Rightarrow> string" where
  "bytes_string bs = map char_of_byte bs"

lemma char_of_byte_of_char [simp]: "char_of_byte (byte_of_char c) = c"
proof -
  have "of_char c < (256 :: nat)" by simp
  then have "unat (word_of_nat (of_char c) :: byte) = of_char c"
    by (simp add: unat_of_nat take_bit_eq_mod)
  then show ?thesis by (simp add: char_of_byte_def byte_of_char_def)
qed

lemma bytes_string_bytes [simp, codec_simps]: "bytes_string (string_bytes s) = s"
  by (simp add: bytes_string_def string_bytes_def comp_def)

lemma length_string_bytes [simp]: "length (string_bytes s) = length s"
  by (simp add: string_bytes_def)

subsection \<open>Instants of time\<close>

text \<open>The zero \<^verbatim>\<open>time.Time{}\<close> is January 1 of year 1, 62135596800 seconds before the epoch.
  \<^verbatim>\<open>UnixNano\<close> returns an \<^verbatim>\<open>int64\<close>, so it keeps the instant modulo \<open>2 ^ 64\<close>; the source stores its
  bits as a \<^verbatim>\<open>uint64\<close> and reads them back with \<^verbatim>\<open>time.Unix(0, int64(..))\<close>.\<close>

definition zeroTime :: time where
  "zeroTime = - 62135596800 * 10 ^ 9"

definition UnixNano :: "time \<Rightarrow> uint64" where
  "UnixNano t = word_of_int t"

definition time_Unix :: "uint64 \<Rightarrow> time" where
  "time_Unix w = sint w"

definition in_int64 :: "int \<Rightarrow> bool" where
  "in_int64 t \<longleftrightarrow> - (2 ^ 63) \<le> t \<and> t < 2 ^ 63"

lemma time_Unix_UnixNano [simp, codec_simps]: "in_int64 t \<Longrightarrow> time_Unix (UnixNano t) = t"
  by (simp add: time_Unix_def UnixNano_def in_int64_def signed_of_int signed_take_bit_int_eq_self)

lemma zeroTime_not_in_int64: "\<not> in_int64 zeroTime"
  by (simp add: zeroTime_def in_int64_def)

subsection \<open>Lists and maps\<close>

lemma take_append_le: "length xs = n \<Longrightarrow> take n (xs @ ys) = xs"
  by simp

lemma drop_append_le: "length xs = n \<Longrightarrow> drop n (xs @ ys) = ys"
  by simp

lemma remove1_distinct_set: "distinct xs \<Longrightarrow> set (remove1 x xs) = set xs - {x}"
  by (rule set_remove1_eq)

lemma filter_neq_remove1: "distinct xs \<Longrightarrow> filter (\<lambda>y. y \<noteq> x) xs = remove1 x xs"
  by (simp add: distinct_remove1_removeAll removeAll_filter_not_eq) (metis)

subsection \<open>Step relations\<close>

text \<open>The contract of an invariant of a step relation, and of a simulation: while the invariant holds, every step is a step of
  the simulated relation or leaves what is seen of the state unchanged.\<close>

locale step_invariant =
  fixes step :: "'s \<Rightarrow> 's \<Rightarrow> bool"
    and holds :: "'s \<Rightarrow> bool"
  assumes preserved: "step s s' \<Longrightarrow> holds s \<Longrightarrow> holds s'"
begin

lemma steps: "step\<^sup>*\<^sup>* s s' \<Longrightarrow> holds s \<Longrightarrow> holds s'"
  by (induction rule: rtranclp_induct) (auto intro: preserved)

end

locale step_simulation = step_invariant step holds
  for step :: "'s \<Rightarrow> 's \<Rightarrow> bool" and holds :: "'s \<Rightarrow> bool" +
  fixes seen :: "'s \<Rightarrow> 't"
    and simulated :: "'t \<Rightarrow> 't \<Rightarrow> bool"
  assumes simulates: "step s s' \<Longrightarrow> holds s \<Longrightarrow> simulated (seen s) (seen s') \<or> seen s' = seen s"
begin

lemma seen_steps: "step\<^sup>*\<^sup>* s s' \<Longrightarrow> holds s \<Longrightarrow> simulated\<^sup>*\<^sup>* (seen s) (seen s')"
proof (induction rule: rtranclp_induct)
  case (step s' s'')
  then have "simulated (seen s') (seen s'') \<or> seen s'' = seen s'" using simulates steps by blast
  with step show ?case by (metis rtranclp.rtrancl_into_rtrancl)
qed simp

end

end
