(* ===== verification/Task.thy ===== *)
theory Task
  imports Prelude
begin

section \<open>Tasks (task.go)\<close>

text \<open>
  The task record and its states. Only the five named constants of \<^verbatim>\<open>TaskState\<close> occur in the program.
  A Go \<^verbatim>\<open>int\<close> field (\<^verbatim>\<open>Retries\<close>, \<^verbatim>\<open>Priority\<close>) is an unbounded integer: the program only
  increments \<^verbatim>\<open>Retries\<close> one at a time.
\<close>

datatype TaskState = StateUnknown | StateReady | StateInflight | StateDone | StateDead

fun TaskState_String :: "TaskState \<Rightarrow> string" where
  "TaskState_String StateReady = ''ready''"
| "TaskState_String StateInflight = ''inflight''"
| "TaskState_String StateDone = ''done''"
| "TaskState_String StateDead = ''dead''"
| "TaskState_String StateUnknown = ''unknown''"

record Task =
  ID :: uuid
  IdempotencyKey :: string
  Payload :: bytes
  Status :: TaskState
  Retries :: int
  AvailableAt :: time
  FailedAt :: time
  Priority :: int
  EnqueuedAt :: time
  LeaseUntil :: time
  Owner :: string

text \<open>The zero value of the struct, the base of every composite literal \<^verbatim>\<open>Task{..}\<close>.\<close>

definition zero_Task :: Task where
  "zero_Task = \<lparr>ID = 0, IdempotencyKey = [], Payload = [], Status = StateUnknown, Retries = 0,
     AvailableAt = zeroTime, FailedAt = zeroTime, Priority = 0, EnqueuedAt = zeroTime,
     LeaseUntil = zeroTime, Owner = []\<rparr>"

lemma TaskState_String_inject: "TaskState_String s = TaskState_String s' \<longleftrightarrow> s = s'"
  by (cases s; cases s') simp_all

end
