(* ===== verification/Bin_Heap.thy ===== *)
theory Bin_Heap
  imports Prelude
begin

section \<open>Binary heaps on slices (container/heap)\<close>

text \<open>
  The operations of \<open>container/heap\<close> the queue drives its ready set with, over a slice (a list) and
  a comparison \<open>lt\<close> (the \<^verbatim>\<open>Less\<close> method). \<open>up\<close> and \<open>down\<close> are the loops of the package, with the same
  index arithmetic; \<open>heap_Push\<close>, \<open>heap_Pop\<close> and \<open>heap_Init\<close> call them as the package does.

  The locale \<open>weak_order\<close> is what the package requires of \<^verbatim>\<open>Less\<close>. Under it, \<open>heap_Init\<close> establishes
  the heap property, \<open>heap_Push\<close> and \<open>heap_Pop\<close> keep it, every operation permutes the elements, and
  the root is a least element. The locale \<open>prio_queue\<close> is what a client of the heap relies on.
\<close>

subsection \<open>The operations\<close>

definition swap :: "'a list \<Rightarrow> nat \<Rightarrow> nat \<Rightarrow> 'a list" where
  "swap xs i j = xs[i := xs ! j, j := xs ! i]"

definition parent :: "nat \<Rightarrow> nat" where
  "parent j = (j - 1) div 2"

lemma parent_less: "0 < j \<Longrightarrow> parent j < j"
  by (simp add: parent_def)

function heap_up :: "('a \<Rightarrow> 'a \<Rightarrow> bool) \<Rightarrow> 'a list \<Rightarrow> nat \<Rightarrow> 'a list" where
  "heap_up lt xs j =
     (let i = parent j in
      if i = j \<or> \<not> lt (xs ! j) (xs ! i) then xs else heap_up lt (swap xs i j) i)"
  by pat_completeness auto
termination
  by (relation "measure (\<lambda>(lt, xs, j). j)") (auto simp: parent_def)

function heap_down :: "('a \<Rightarrow> 'a \<Rightarrow> bool) \<Rightarrow> 'a list \<Rightarrow> nat \<Rightarrow> nat \<Rightarrow> 'a list" where
  "heap_down lt xs i n =
     (let j1 = 2 * i + 1 in
      if n \<le> j1 then xs
      else let j2 = j1 + 1; j = (if j2 < n \<and> lt (xs ! j2) (xs ! j1) then j2 else j1) in
           if \<not> lt (xs ! j) (xs ! i) then xs else heap_down lt (swap xs i j) j n)"
  by pat_completeness auto
termination
  by (relation "measure (\<lambda>(lt, xs, i, n). n - i)") (auto simp: Let_def split: if_splits)

declare heap_up.simps [simp del] heap_down.simps [simp del]

fun heap_Init_loop :: "('a \<Rightarrow> 'a \<Rightarrow> bool) \<Rightarrow> nat \<Rightarrow> nat \<Rightarrow> 'a list \<Rightarrow> 'a list" where
  "heap_Init_loop lt n 0 xs = xs"
| "heap_Init_loop lt n (Suc i) xs = heap_Init_loop lt n i (heap_down lt xs i n)"

definition heap_Init :: "('a \<Rightarrow> 'a \<Rightarrow> bool) \<Rightarrow> 'a list \<Rightarrow> 'a list" where
  "heap_Init lt xs = heap_Init_loop lt (length xs) (length xs div 2) xs"

definition heap_Push :: "('a \<Rightarrow> 'a \<Rightarrow> bool) \<Rightarrow> 'a list \<Rightarrow> 'a \<Rightarrow> 'a list" where
  "heap_Push lt xs x = heap_up lt (xs @ [x]) (length (xs @ [x]) - 1)"

text \<open>\<^verbatim>\<open>heap.Pop\<close> on an empty heap indexes out of range (\<open>None\<close>).\<close>

definition heap_Pop :: "('a \<Rightarrow> 'a \<Rightarrow> bool) \<Rightarrow> 'a list \<Rightarrow> ('a \<times> 'a list) option" where
  "heap_Pop lt xs =
     (if xs = [] then None
      else let n = length xs - 1; ys = heap_down lt (swap xs 0 n) 0 n
           in Some (ys ! n, take n ys))"

definition is_heap :: "('a \<Rightarrow> 'a \<Rightarrow> bool) \<Rightarrow> 'a list \<Rightarrow> bool" where
  "is_heap lt xs \<longleftrightarrow> (\<forall>i. 0 < i \<longrightarrow> i < length xs \<longrightarrow> \<not> lt (xs ! i) (xs ! parent i))"

subsection \<open>Permutation and length\<close>

lemma length_swap [simp]: "length (swap xs i j) = length xs"
  by (simp add: swap_def)

lemma mset_swap_idx [simp]:
  "i < length xs \<Longrightarrow> j < length xs \<Longrightarrow> mset (swap xs i j) = mset xs"
  by (cases "i = j") (simp_all add: swap_def mset_swap)

lemma nth_swap:
  "i < length xs \<Longrightarrow> j < length xs \<Longrightarrow> m < length xs \<Longrightarrow>
   swap xs i j ! m = (if m = i then xs ! j else if m = j then xs ! i else xs ! m)"
  by (auto simp: swap_def nth_list_update)

lemma heap_up_perm: "j < length xs \<Longrightarrow> mset (heap_up lt xs j) = mset xs"
proof (induction lt xs j rule: heap_up.induct)
  case (1 lt xs j)
  have "parent j \<le> j" by (simp add: parent_def)
  with 1 show ?case
    by (subst heap_up.simps) (auto simp: Let_def)
qed

lemma heap_down_perm: "n \<le> length xs \<Longrightarrow> i < n \<Longrightarrow> mset (heap_down lt xs i n) = mset xs"
proof (induction lt xs i n rule: heap_down.induct)
  case (1 lt xs i n)
  then show ?case
    by (subst heap_down.simps) (auto simp: Let_def)
qed

lemma heap_down_outside:
  "n \<le> length xs \<Longrightarrow> n \<le> m \<Longrightarrow> i < n \<Longrightarrow> heap_down lt xs i n ! m = xs ! m"
proof (induction lt xs i n rule: heap_down.induct)
  case (1 lt xs i n)
  have out: "swap xs i j ! m = xs ! m" if "j < n" for j
    using 1 that by (simp add: swap_def)
  from 1 show ?case
    by (subst heap_down.simps) (auto simp: Let_def out)
qed

lemma length_heap_ops [simp]:
  "j < length xs \<Longrightarrow> length (heap_up lt xs j) = length xs"
  "n \<le> length xs \<Longrightarrow> i < n \<Longrightarrow> length (heap_down lt xs i n) = length xs"
  by (metis heap_up_perm size_mset, metis heap_down_perm size_mset)

lemma heap_Push_perm: "mset (heap_Push lt xs x) = add_mset x (mset xs)"
  by (simp add: heap_Push_def heap_up_perm)

lemma set_heap_Push [simp]: "set (heap_Push lt xs x) = insert x (set xs)"
  by (metis heap_Push_perm set_mset_add_mset_insert set_mset_mset)

lemma distinct_heap_Push [simp]:
  "distinct (heap_Push lt xs x) \<longleftrightarrow> x \<notin> set xs \<and> distinct xs"
  by (metis distinct.simps(2) heap_Push_perm mset.simps(2) mset_eq_imp_distinct_iff)

lemma heap_Init_loop_perm: "k \<le> length xs \<Longrightarrow> mset (heap_Init_loop lt (length xs) k xs) = mset xs"
proof (induction k arbitrary: xs)
  case (Suc k)
  then show ?case
    using Suc.IH [of "heap_down lt xs k (length xs)"] by (simp add: heap_down_perm)
qed simp

lemma heap_Init_perm: "mset (heap_Init lt xs) = mset xs"
  by (simp add: heap_Init_def heap_Init_loop_perm)

lemma set_heap_Init [simp]: "set (heap_Init lt xs) = set xs"
  by (metis heap_Init_perm set_mset_mset)

lemma distinct_heap_Init [simp]: "distinct (heap_Init lt xs) = distinct xs"
  by (metis heap_Init_perm mset_eq_imp_distinct_iff)

lemma heap_Pop_root:
  assumes "xs \<noteq> []"
  obtains ys where "heap_Pop lt xs = Some (hd xs, ys)" "mset xs = add_mset (hd xs) (mset ys)"
proof -
  let ?n = "length xs - 1"
  let ?zs = "heap_down lt (swap xs 0 ?n) 0 ?n"
  have zs: "mset ?zs = mset xs \<and> ?zs ! ?n = hd xs"
  proof (cases "?n = 0")
    case True
    with assms show ?thesis
      by (simp add: heap_down.simps swap_def hd_conv_nth)
  next
    case False
    with assms show ?thesis
      by (simp add: heap_down_perm heap_down_outside nth_swap hd_conv_nth)
  qed
  then have len: "length ?zs = Suc ?n"
    using assms by (metis One_nat_def Suc_pred length_greater_0_conv size_mset)
  then have "?zs = take ?n ?zs @ [?zs ! ?n]"
    by (metis lessI order_refl take_Suc_conv_app_nth take_all_iff)
  with zs have "mset xs = add_mset (hd xs) (mset (take ?n ?zs))"
    by (metis mset_append mset_single_iff_right add_mset_add_single)
  moreover have "heap_Pop lt xs = Some (hd xs, take ?n ?zs)"
    using assms zs by (simp add: heap_Pop_def Let_def)
  ultimately show ?thesis by (rule that [rotated])
qed

lemma heap_Pop_Some:
  assumes "heap_Pop lt xs = Some (x, ys)"
  shows "xs \<noteq> []" "x = hd xs" "mset xs = add_mset x (mset ys)" "set xs = insert x (set ys)"
proof -
  show ne: "xs \<noteq> []" using assms by (auto simp: heap_Pop_def)
  show "x = hd xs" and m: "mset xs = add_mset x (mset ys)"
    using assms by - (rule heap_Pop_root [OF ne, of lt], simp)+
  show "set xs = insert x (set ys)"
    using arg_cong [OF m, of set_mset] by simp
qed


subsection \<open>The heap property\<close>

text \<open>What the package asks of \<^verbatim>\<open>Less\<close>: a strict weak ordering.\<close>

locale weak_order =
  fixes lt :: "'a \<Rightarrow> 'a \<Rightarrow> bool"
  assumes lt_asym: "lt a b \<Longrightarrow> \<not> lt b a"
    and le_trans: "\<not> lt b a \<Longrightarrow> \<not> lt c b \<Longrightarrow> \<not> lt c a"
begin

lemma lt_irrefl: "\<not> lt a a"
  using lt_asym by blast

text \<open>\<open>up_ok xs j\<close>: the only defect is between \<open>j\<close> and its parent, and the children of \<open>j\<close>
  already respect that parent.\<close>

definition up_ok :: "'a list \<Rightarrow> nat \<Rightarrow> bool" where
  "up_ok xs j \<longleftrightarrow>
     (\<forall>i. 0 < i \<longrightarrow> i < length xs \<longrightarrow> i \<noteq> j \<longrightarrow> \<not> lt (xs ! i) (xs ! parent i)) \<and>
     (\<forall>i. 0 < i \<longrightarrow> i < length xs \<longrightarrow> parent i = j \<longrightarrow> 0 < j \<longrightarrow> \<not> lt (xs ! i) (xs ! parent j))"

lemma up_ok_swap:
  assumes ok: "up_ok xs j" and j: "j < length xs" "0 < j" and lt: "lt (xs ! j) (xs ! parent j)"
  shows "up_ok (swap xs (parent j) j) (parent j)"
proof -
  let ?i = "parent j" and ?ys = "swap xs (parent j) j"
  have i: "?i < j" "?i < length xs" using j parent_less [of j] by auto
  have nth: "?ys ! m = (if m = ?i then xs ! j else if m = j then xs ! ?i else xs ! m)"
    if "m < length xs" for m using nth_swap that i j by blast
  have par: "parent m < length xs" "m \<noteq> parent m" if "m < length xs" "0 < m" for m
    using that parent_less [of m] by auto
  have A: "\<not> lt (xs ! m) (xs ! parent m)" if "0 < m" "m < length xs" "m \<noteq> j" for m
    using ok that by (simp add: up_ok_def)
  have B: "\<not> lt (xs ! m) (xs ! ?i)" if "0 < m" "m < length xs" "parent m = j" for m
    using ok that j by (auto simp: up_ok_def)
  have "\<not> lt (?ys ! m) (?ys ! parent m)" if m: "0 < m" "m < length xs" "m \<noteq> ?i" for m
  proof (cases "m = j")
    case True
    with m i lt show ?thesis by (simp add: nth lt_asym)
  next
    case False
    consider "parent m = j" | "parent m = ?i" "parent m \<noteq> j" | "parent m \<noteq> ?i" "parent m \<noteq> j"
      by blast
    then show ?thesis
    proof cases
      case 1
      with m False i show ?thesis by (simp add: nth B j)
    next
      case 2
      with A [of m] m False have "\<not> lt (xs ! m) (xs ! ?i)" by simp
      with 2 m False i lt show ?thesis
        using le_trans [of "xs ! ?i" "xs ! j" "xs ! m"] by (simp add: nth lt_asym)
    next
      case 3
      with m False A [of m] par [of m] show ?thesis by (simp add: nth)
    qed
  qed
  moreover have "\<not> lt (?ys ! m) (?ys ! parent ?i)"
    if m: "0 < m" "m < length xs" "parent m = ?i" "0 < ?i" for m
  proof -
    have p: "parent ?i \<noteq> ?i" "parent ?i \<noteq> j" "parent ?i < length xs"
      using m i parent_less [of ?i] by auto
    have up: "\<not> lt (xs ! ?i) (xs ! parent ?i)" using A [of ?i] m i by simp
    show ?thesis
    proof (cases "m = j")
      case True
      with p i up j show ?thesis by (simp add: nth)
    next
      case False
      with A [of m] m have "\<not> lt (xs ! m) (xs ! ?i)" by simp
      with up have "\<not> lt (xs ! m) (xs ! parent ?i)" by (rule le_trans)
      with False m p par [of m] show ?thesis by (simp add: nth)
    qed
  qed
  ultimately show ?thesis by (simp add: up_ok_def)
qed

lemma heap_up_heap: "j < length xs \<Longrightarrow> up_ok xs j \<Longrightarrow> is_heap lt (heap_up lt xs j)"
proof (induction j arbitrary: xs rule: less_induct)
  case (less j)
  show ?case
  proof (cases "0 < j \<and> lt (xs ! j) (xs ! parent j)")
    case True
    then have "is_heap lt (heap_up lt (swap xs (parent j) j) (parent j))"
      using less up_ok_swap [of xs j] parent_less [of j] by simp
    with True parent_less [of j] show ?thesis
      by (simp add: heap_up.simps [of lt xs j] Let_def)
  next
    case False
    then have "heap_up lt xs j = xs"
      by (subst heap_up.simps) (auto simp: Let_def parent_def)
    with False less.prems show ?thesis
      by (auto simp: is_heap_def up_ok_def)
  qed
qed

lemma heap_Push_heap: "is_heap lt xs \<Longrightarrow> is_heap lt (heap_Push lt xs x)"
proof -
  assume heap: "is_heap lt xs"
  have "up_ok (xs @ [x]) (length xs)"
    unfolding up_ok_def
  proof (intro conjI allI impI)
    fix i assume "0 < i" "i < length (xs @ [x])" "i \<noteq> length xs"
    with heap parent_less [of i] show "\<not> lt ((xs @ [x]) ! i) ((xs @ [x]) ! parent i)"
      by (simp add: nth_append is_heap_def)
  next
    fix i assume "0 < i" "i < length (xs @ [x])" "parent i = length xs"
    with parent_less [of i] show "\<not> lt ((xs @ [x]) ! i) ((xs @ [x]) ! parent (length xs))"
      by simp
  qed
  then show ?thesis by (simp add: heap_Push_def heap_up_heap)
qed

text \<open>\<open>heap_from k n xs\<close>: below index \<open>n\<close>, every element whose parent is at least \<open>k\<close> respects it.
  \<open>down_ok k n xs i\<close>: the only defects are between \<open>i\<close> and its children.\<close>

definition heap_from :: "nat \<Rightarrow> nat \<Rightarrow> 'a list \<Rightarrow> bool" where
  "heap_from k n xs \<longleftrightarrow>
     (\<forall>m. 0 < m \<longrightarrow> m < n \<longrightarrow> k \<le> parent m \<longrightarrow> \<not> lt (xs ! m) (xs ! parent m))"

definition down_ok :: "nat \<Rightarrow> nat \<Rightarrow> 'a list \<Rightarrow> nat \<Rightarrow> bool" where
  "down_ok k n xs i \<longleftrightarrow>
     (\<forall>m. 0 < m \<longrightarrow> m < n \<longrightarrow> k \<le> parent m \<longrightarrow> parent m \<noteq> i \<longrightarrow> \<not> lt (xs ! m) (xs ! parent m)) \<and>
     (\<forall>m. 0 < m \<longrightarrow> m < n \<longrightarrow> parent m = i \<longrightarrow> 0 < i \<longrightarrow> k \<le> parent i \<longrightarrow>
        \<not> lt (xs ! m) (xs ! parent i))"

lemma parent_eq_iff: "0 < m \<Longrightarrow> parent m = i \<longleftrightarrow> m = 2 * i + 1 \<or> m = 2 * i + 2"
  by (auto simp: parent_def)

lemma heap_from_if_down_ok:
  assumes ok: "down_ok k n xs i"
    and kids: "\<And>m. 0 < m \<Longrightarrow> m < n \<Longrightarrow> parent m = i \<Longrightarrow> \<not> lt (xs ! m) (xs ! i)"
  shows "heap_from k n xs"
  unfolding heap_from_def
proof (intro allI impI)
  fix m assume "0 < m" "m < n" "k \<le> parent m"
  with ok kids show "\<not> lt (xs ! m) (xs ! parent m)"
    by (cases "parent m = i") (auto simp: down_ok_def)
qed

lemma down_ok_swap:
  assumes ok: "down_ok k n xs i" and n: "n \<le> length xs" and k: "k \<le> i"
    and j: "j < n" "parent j = i" "0 < j" and lt: "lt (xs ! j) (xs ! i)"
    and least: "\<And>m. 0 < m \<Longrightarrow> m < n \<Longrightarrow> parent m = i \<Longrightarrow> \<not> lt (xs ! m) (xs ! j)"
  shows "down_ok k n (swap xs i j) j"
proof -
  let ?ys = "swap xs i j"
  have i: "i < j" "i < length xs" "j < length xs" using j n parent_less [of j] by auto
  have nth: "?ys ! m = (if m = i then xs ! j else if m = j then xs ! i else xs ! m)"
    if "m < n" for m using nth_swap [of i xs j m] that i n by simp
  have par: "parent m < n" "parent m < m" if "m < n" "0 < m" for m
    using that parent_less [of m] by auto
  have "\<not> lt (?ys ! m) (?ys ! parent m)"
    if m: "0 < m" "m < n" "k \<le> parent m" "parent m \<noteq> j" for m
  proof -
    consider "m = i" | "parent m = i" "m \<noteq> i" | "parent m \<noteq> i" "m \<noteq> i"
      by blast
    then show ?thesis
    proof cases
      case 1
      with ok j m have "\<not> lt (xs ! j) (xs ! parent i)" by (simp add: down_ok_def)
      with 1 m par [of m] show ?thesis by (simp add: nth)
    next
      case 2
      then show ?thesis
        using m par [of m] lt least [of m] i by (cases "m = j") (simp_all add: nth lt_asym)
    next
      case 3
      with j have "m \<noteq> j" by blast
      with 3 ok m par [of m] show ?thesis by (simp add: nth down_ok_def)
    qed
  qed
  moreover have "\<not> lt (?ys ! m) (?ys ! parent j)" if m: "0 < m" "m < n" "parent m = j" for m
  proof -
    from ok m i k have "\<not> lt (xs ! m) (xs ! j)" by (auto simp: down_ok_def)
    with m par [of m] i j show ?thesis by (auto simp: nth)
  qed
  ultimately show ?thesis by (simp add: down_ok_def)
qed

lemma heap_down_heap:
  "n \<le> length xs \<Longrightarrow> k \<le> i \<Longrightarrow> i < n \<Longrightarrow> down_ok k n xs i \<Longrightarrow>
   heap_from k n (heap_down lt xs i n)"
proof (induction "n - i" arbitrary: i xs rule: less_induct)
  case less
  let ?j1 = "2 * i + 1"
  let ?j = "if ?j1 + 1 < n \<and> lt (xs ! (?j1 + 1)) (xs ! ?j1) then ?j1 + 1 else ?j1"
  have kids: "m = ?j1 \<or> m = ?j1 + 1" if "0 < m" "parent m = i" for m
    using that parent_eq_iff [of m i] by simp
  have pj: "parent ?j = i" by (simp add: parent_def)
  show ?case
  proof (cases "n \<le> ?j1")
    case True
    then have "heap_down lt xs i n = xs"
      by (simp add: heap_down.simps [of lt xs i n])
    moreover have "\<not> m < n" if "0 < m" "parent m = i" for m
      using kids [OF that] True by linarith
    ultimately show ?thesis
      using heap_from_if_down_ok [OF less.prems(4)] by metis
  next
    case False
    then have jn: "?j < n" by simp
    have least: "\<not> lt (xs ! m) (xs ! ?j)" if "0 < m" "m < n" "parent m = i" for m
      using kids [OF that(1,3)] that(2) by (elim disjE) (simp_all add: lt_asym lt_irrefl)
    show ?thesis
    proof (cases "lt (xs ! ?j) (xs ! i)")
      case True
      with less.prems jn pj least have "down_ok k n (swap xs i ?j) ?j"
        by (intro down_ok_swap) auto
      then have "heap_from k n (heap_down lt (swap xs i ?j) ?j n)"
        using less.prems jn by (intro less.hyps) auto
      with True False show ?thesis
        by (auto simp: heap_down.simps [of lt xs i n] Let_def split: if_splits)
    next
      case nlt: False
      with False have "heap_down lt xs i n = xs"
        by (auto simp: heap_down.simps [of lt xs i n] Let_def split: if_splits)
      moreover have "\<not> lt (xs ! m) (xs ! i)" if "0 < m" "m < n" "parent m = i" for m
        using le_trans [OF nlt least [OF that]] .
      ultimately show ?thesis
        using heap_from_if_down_ok [OF less.prems(4)] by metis
    qed
  qed
qed

lemma heap_Init_loop_heap:
  "k \<le> length xs \<Longrightarrow> heap_from k (length xs) xs \<Longrightarrow>
   heap_from 0 (length xs) (heap_Init_loop lt (length xs) k xs)"
proof (induction k arbitrary: xs)
  case (Suc k)
  have "down_ok k (length xs) xs k"
    using Suc.prems parent_less [of k] by (auto simp: heap_from_def down_ok_def)
  then have "heap_from k (length xs) (heap_down lt xs k (length xs))"
    using Suc.prems by (intro heap_down_heap) auto
  with Suc.IH [of "heap_down lt xs k (length xs)"] Suc.prems show ?case by simp
qed simp

lemma heap_Init_heap: "is_heap lt (heap_Init lt xs)"
proof -
  have "length (heap_Init lt xs) = length xs"
    by (metis heap_Init_perm size_mset)
  moreover have "heap_from (length xs div 2) (length xs) xs"
    by (auto simp: heap_from_def parent_def)
  then have "heap_from 0 (length xs) (heap_Init lt xs)"
    by (simp add: heap_Init_def heap_Init_loop_heap)
  ultimately show ?thesis by (simp add: is_heap_def heap_from_def)
qed

lemma heap_Pop_heap:
  assumes heap: "is_heap lt xs" and pop: "heap_Pop lt xs = Some (x, ys)"
  shows "is_heap lt ys"
proof -
  let ?n = "length xs - 1"
  let ?s = "swap xs 0 ?n"
  have xs: "xs \<noteq> []" and ys: "ys = take ?n (heap_down lt ?s 0 ?n)"
    using pop by (auto simp: heap_Pop_def Let_def split: if_splits)
  show ?thesis
  proof (cases "?n = 0")
    case True
    then show ?thesis by (simp add: ys is_heap_def)
  next
    case False
    have nth: "?s ! m = xs ! m" if "0 < m" "m < ?n" for m
      using nth_swap [of 0 xs ?n m] that xs by simp
    have "down_ok 0 ?n ?s 0"
      unfolding down_ok_def
    proof (intro conjI allI impI)
      fix m assume m: "0 < m" "m < ?n" "parent m \<noteq> 0"
      with parent_less [of m] nth have "?s ! m = xs ! m" "?s ! parent m = xs ! parent m"
        by auto
      with heap m show "\<not> lt (?s ! m) (?s ! parent m)" by (simp add: is_heap_def)
    qed simp
    with False have from_root: "heap_from 0 ?n (heap_down lt ?s 0 ?n)"
      by (intro heap_down_heap) auto
    show ?thesis
      unfolding is_heap_def
    proof (intro allI impI)
      fix i assume "0 < i" "i < length ys"
      with parent_less [of i] from_root show "\<not> lt (ys ! i) (ys ! parent i)"
        by (simp add: ys heap_from_def)
    qed
  qed
qed

lemma heap_root_least: "is_heap lt xs \<Longrightarrow> x \<in> set xs \<Longrightarrow> \<not> lt x (hd xs)"
proof -
  assume heap: "is_heap lt xs" and x: "x \<in> set xs"
  have "i < length xs \<Longrightarrow> \<not> lt (xs ! i) (xs ! 0)" for i
  proof (induction i rule: less_induct)
    case (less i)
    show ?case
    proof (cases "i = 0")
      case True
      then show ?thesis by (simp add: lt_irrefl)
    next
      case False
      with less heap parent_less [of i]
      have "\<not> lt (xs ! parent i) (xs ! 0)" "\<not> lt (xs ! i) (xs ! parent i)"
        by (auto simp: is_heap_def)
      then show ?thesis by (rule le_trans)
    qed
  qed
  with x show ?thesis by (metis hd_conv_nth in_set_conv_nth length_greater_0_conv length_pos_if_in_set)
qed

end

subsection \<open>The interface a client relies on\<close>

text \<open>
  A priority queue seen from outside: \<open>elems\<close> is the multiset of its elements, \<open>invar\<close> what its
  operations keep. A client proves its own lemmas from these laws alone.
\<close>

locale prio_queue =
  fixes lt :: "'a \<Rightarrow> 'a \<Rightarrow> bool"
    and push :: "'q \<Rightarrow> 'a \<Rightarrow> 'q"
    and pop :: "'q \<Rightarrow> ('a \<times> 'q) option"
    and invar :: "'q \<Rightarrow> bool"
    and elems :: "'q \<Rightarrow> 'a multiset"
  assumes push_invar: "invar q \<Longrightarrow> invar (push q x)"
    and push_elems: "elems (push q x) = add_mset x (elems q)"
    and pop_None: "pop q = None \<longleftrightarrow> elems q = {#}"
    and pop_invar: "invar q \<Longrightarrow> pop q = Some (x, q') \<Longrightarrow> invar q'"
    and pop_elems: "pop q = Some (x, q') \<Longrightarrow> elems q = add_mset x (elems q')"
    and pop_least: "invar q \<Longrightarrow> pop q = Some (x, q') \<Longrightarrow> y \<in># elems q \<Longrightarrow> \<not> lt y x"
begin

text \<open>Successive pops come out in order.\<close>

lemma pop_pop_ordered:
  assumes "invar q" "pop q = Some (x, q')" "pop q' = Some (y, q'')"
  shows "\<not> lt y x"
proof -
  from assms have "y \<in># elems q"
    by (simp add: pop_elems [of q x q'] pop_elems [of q' y q''])
  with assms(1,2) show ?thesis by (rule pop_least)
qed

text \<open>What was pushed is popped in the end: after one pop it is out or still inside.\<close>

lemma pop_after_push:
  assumes "pop (push q x) = Some (y, q')"
  shows "y = x \<and> elems q' = elems q \<or> x \<in># elems q'"
proof -
  from pop_elems [OF assms] have eq: "add_mset x (elems q) = add_mset y (elems q')"
    by (simp add: push_elems)
  show ?thesis
  proof (cases "y = x")
    case True
    with eq show ?thesis by simp
  next
    case False
    from eq have "x \<in># add_mset y (elems q')" by (metis union_single_eq_member)
    with False show ?thesis by simp
  qed
qed

text \<open>\<open>pops n q\<close>: the first \<open>n\<close> elements popped.\<close>

fun pops :: "nat \<Rightarrow> 'q \<Rightarrow> 'a list" where
  "pops 0 q = []"
| "pops (Suc n) q = (case pop q of None \<Rightarrow> [] | Some (x, q') \<Rightarrow> x # pops n q')"

lemma pops_all:
  "invar q \<Longrightarrow> n = size (elems q) \<Longrightarrow>
   mset (pops n q) = elems q \<and> sorted_wrt (\<lambda>x y. \<not> lt y x) (pops n q)"
proof (induction n arbitrary: q)
  case (Suc n)
  then have "elems q \<noteq> {#}" by auto
  then obtain x q' where p: "pop q = Some (x, q')"
    using pop_None [of q] by (cases "pop q") auto
  have "mset (pops n q') = elems q' \<and> sorted_wrt (\<lambda>x y. \<not> lt y x) (pops n q')"
    using Suc pop_elems [OF p] pop_invar [OF _ p] by simp
  moreover from this have "\<not> lt y x" if "y \<in> set (pops n q')" for y
    using pop_least [OF Suc.prems(1) p, of y] pop_elems [OF p] that
    by (metis insert_iff set_mset_add_mset_insert set_mset_mset)
  ultimately show ?case
    using p pop_elems [OF p] by simp
qed simp

end

text \<open>The binary heap over a weak order is such a priority queue.\<close>

sublocale weak_order \<subseteq> prio_queue lt "heap_Push lt" "heap_Pop lt" "is_heap lt" mset
proof (unfold_locales, goal_cases)
  case (1 q x)
  then show ?case by (rule heap_Push_heap)
next
  case (2 q x)
  show ?case by (rule heap_Push_perm)
next
  case (3 q)
  show ?case by (simp add: heap_Pop_def Let_def)
next
  case (4 q x q')
  then show ?case by (rule heap_Pop_heap)
next
  case (5 q x q')
  then have "q \<noteq> []" by (auto simp: heap_Pop_def)
  then show ?case using 5 heap_Pop_root [of q lt "mset q = add_mset x (mset q')"] by simp
next
  case (6 q x q' y)
  then have "q \<noteq> []" by (auto simp: heap_Pop_def)
  then have "x = hd q" using 6(2) heap_Pop_root [of q lt "x = hd q"] by simp
  moreover have "\<not> lt y (hd q)" using 6(1,3) by (intro heap_root_least) simp_all
  ultimately show ?case by simp
qed

end
