(* ===== verification/Ready_Heap.thy ===== *)
theory Ready_Heap
  imports Task Bin_Heap
begin

section \<open>The ready heap (heap.go)\<close>

text \<open>
  \<^verbatim>\<open>readyHeap\<close> is a slice of \<^verbatim>\<open>*Task\<close>. A pointer is a number, \<open>st\<close> the memory that gives the task it
  points to: tasks are shared with the maps of the queue and mutated in place, so the comparison
  \<open>Less\<close> depends on the memory. \<open>readyHeap_Less\<close> is the comparison of the source on two pointers of the
  slice. It is a strict weak ordering, so the laws of \<open>weak_order\<close> and of the client interface
  \<open>prio_queue\<close> hold for the heap of the queue (interpretation \<open>rh\<close>).
\<close>

type_synonym ptr = nat
type_synonym memory = "ptr \<Rightarrow> Task"

definition readyHeap_Less :: "memory \<Rightarrow> ptr \<Rightarrow> ptr \<Rightarrow> bool" where
  "readyHeap_Less st i j =
     (if AvailableAt (st i) \<noteq> AvailableAt (st j)
      then AvailableAt (st i) < AvailableAt (st j)
      else EnqueuedAt (st i) < EnqueuedAt (st j))"

definition readyHeap_Swap :: "ptr list \<Rightarrow> nat \<Rightarrow> nat \<Rightarrow> ptr list" where
  "readyHeap_Swap h i j = h[i := h ! j, j := h ! i]"

definition readyHeap_Push :: "ptr list \<Rightarrow> ptr \<Rightarrow> ptr list" where
  "readyHeap_Push h x = h @ [x]"

text \<open>\<^verbatim>\<open>Pop\<close> removes the last element of the slice (out of range on an empty slice).\<close>

definition readyHeap_Pop :: "ptr list \<Rightarrow> (ptr \<times> ptr list) option" where
  "readyHeap_Pop h = (if h = [] then None else Some (h ! (length h - 1), take (length h - 1) h))"

interpretation rh: weak_order "readyHeap_Less st" for st
  by unfold_locales (auto simp: readyHeap_Less_def split: if_splits)

text \<open>The package drives the slice through these methods.\<close>

lemma heap_Push_methods:
  "heap_Push lt h x = heap_up lt (readyHeap_Push h x) (length (readyHeap_Push h x) - 1)"
  by (simp add: heap_Push_def readyHeap_Push_def)

lemma heap_Pop_methods:
  "h \<noteq> [] \<Longrightarrow>
   heap_Pop lt h = readyHeap_Pop (heap_down lt (readyHeap_Swap h 0 (length h - 1)) 0 (length h - 1))"
proof -
  assume h: "h \<noteq> []"
  let ?n = "length h - 1"
  have "length (heap_down lt (swap h 0 ?n) 0 ?n) = length h"
  proof (cases "?n = 0")
    case True
    then show ?thesis by (simp add: heap_down.simps)
  next
    case False
    then show ?thesis by simp
  qed
  with h show ?thesis
    by (auto simp: heap_Pop_def readyHeap_Pop_def readyHeap_Swap_def swap_def Let_def
        simp flip: length_greater_0_conv)
qed

subsection \<open>Changing memory outside the heap\<close>

text \<open>The heap property reads only the ordering keys of the tasks in the heap.\<close>

lemma is_heap_cong_memory:
  assumes "\<And>p. p \<in> set h \<Longrightarrow> AvailableAt (st' p) = AvailableAt (st p) \<and> EnqueuedAt (st' p) = EnqueuedAt (st p)"
    and "is_heap (readyHeap_Less st) h"
  shows "is_heap (readyHeap_Less st') h"
proof -
  have "readyHeap_Less st' (h ! i) (h ! j) = readyHeap_Less st (h ! i) (h ! j)"
    if "i < length h" "j < length h" for i j
    using assms(1) [of "h ! i"] assms(1) [of "h ! j"] that by (simp add: readyHeap_Less_def)
  with assms(2) parent_less show ?thesis
    by (metis (no_types, lifting) is_heap_def less_trans)
qed

lemma is_heap_update:
  "p \<notin> set h \<Longrightarrow> is_heap (readyHeap_Less st) h \<Longrightarrow> is_heap (readyHeap_Less (st(p := t))) h"
  by (rule is_heap_cong_memory) auto

text \<open>The root is a task that is available soonest, the oldest among those.\<close>

lemma rh_root_key:
  assumes "is_heap (readyHeap_Less st) h" "p \<in> set h"
  shows "AvailableAt (st (hd h)) \<le> AvailableAt (st p)"
    and "AvailableAt (st (hd h)) = AvailableAt (st p) \<Longrightarrow> EnqueuedAt (st (hd h)) \<le> EnqueuedAt (st p)"
  using rh.heap_root_least [OF assms] by (auto simp: readyHeap_Less_def split: if_splits)

subsection \<open>Properties\<close>

text \<open>\<open>popAll st n h\<close>: \<open>n\<close> times \<^verbatim>\<open>heap.Pop\<close>.\<close>

fun popAll :: "memory \<Rightarrow> nat \<Rightarrow> ptr list \<Rightarrow> ptr list" where
  "popAll st 0 h = []"
| "popAll st (Suc n) h =
     (case heap_Pop (readyHeap_Less st) h of None \<Rightarrow> [] | Some (p, h') \<Rightarrow> p # popAll st n h')"

lemma popAll_pops: "popAll st n h = rh.pops st n h"
  by (induction n arbitrary: h) (auto split: option.splits)


definition sample_memory :: memory where
  "sample_memory p = zero_Task\<lparr>AvailableAt := [5, 3, 9] ! (p mod 3)\<rparr>"


text \<open>\<^verbatim>\<open>heap.Init\<close> turns any slice into a heap over \<^verbatim>\<open>readyHeap.Less\<close> with the same elements, \<^verbatim>\<open>heap.Push\<close> keeps
  the heap and adds one element.\<close>

lemma ready_heap_Init_Push:
  "is_heap (readyHeap_Less st) (heap_Init (readyHeap_Less st) h) \<and>
   mset (heap_Init (readyHeap_Less st) h) = mset h \<and>
   is_heap (readyHeap_Less st) (heap_Push (readyHeap_Less st) (heap_Init (readyHeap_Less st) h) p) \<and>
   mset (heap_Push (readyHeap_Less st) h p) = add_mset p (mset h)"
  by (simp add: rh.heap_Init_heap heap_Init_perm rh.heap_Push_heap heap_Push_perm)

end
