(* ===== verification/Log_Record.thy ===== *)
theory Log_Record
  imports Prelude
begin

section \<open>Log records (record.go)\<close>

text \<open>
  The seven record types of the log, their encoders and decoders, and the record layer that
  prepends the operation tag. Every encoder returns an error in the source, which is always nil; the
  model keeps the error return. The uuid package is not part of the repository: its function
  \<^verbatim>\<open>uuid.FromBytes\<close> is the parameter \<open>fb\<close> of the decoders, and the locale \<open>uuid_lib\<close> states the one law
  the decoders rely on.

  The lemmas show that each decoder inverts its encoder on values that fit the wire format, and that
  every proper prefix of an encoding is refused with an error. The locale \<open>codec\<close> states these two
  laws as an interface; from it follow injectivity and prefix-freeness of every encoder.
\<close>

subsection \<open>Operations\<close>

type_synonym OperationType = byte

definition OperationEnqueue :: OperationType where "OperationEnqueue = 1"
definition OperationDequeue :: OperationType where "OperationDequeue = 2"
definition OperationAck :: OperationType where "OperationAck = 3"
definition OperationRetry :: OperationType where "OperationRetry = 4"
definition OperationDead :: OperationType where "OperationDead = 5"
definition OperationRequeue :: OperationType where "OperationRequeue = 6"
definition OperationPurge :: OperationType where "OperationPurge = 7"

lemmas Operation_defs = OperationEnqueue_def OperationDequeue_def OperationAck_def
  OperationRetry_def OperationDead_def OperationRequeue_def OperationPurge_def

definition OperationType_String :: "OperationType \<Rightarrow> string" where
  "OperationType_String op =
     (if op = OperationEnqueue then ''enqueue''
      else if op = OperationDequeue then ''dequeue''
      else if op = OperationAck then ''ack''
      else if op = OperationRetry then ''retry''
      else if op = OperationDead then ''dead''
      else if op = OperationRequeue then ''requeue''
      else if op = OperationPurge then ''purge''
      else ''unknown'')"

subsection \<open>Payloads\<close>

record EnqueuePayload =
  enq_ID :: uuid
  enq_IdempotencyKey :: string
  enq_Payload :: bytes
  enq_EnqueuedAt :: time
  enq_Priority :: int

record DequeuePayload =
  deq_ID :: uuid
  deq_LeaseUntil :: time
  deq_Owner :: string

record AckPayload =
  ack_ID :: uuid

record RetryPayload =
  retry_ID :: uuid

record DeadPayload =
  dead_ID :: uuid
  dead_Retries :: int
  dead_FailedAt :: time

record RequeuePayload =
  requeue_ID :: uuid

record PurgePayload =
  purge_ID :: uuid

text \<open>The dynamic types of the value \<^verbatim>\<open>decodeRecord\<close> returns as \<^verbatim>\<open>interface{}\<close>.\<close>

datatype payload =
    PEnqueue EnqueuePayload
  | PDequeue DequeuePayload
  | PAck AckPayload
  | PRetry RetryPayload
  | PDead DeadPayload
  | PRequeue RequeuePayload
  | PPurge PurgePayload

subsection \<open>Encoders and decoders\<close>

definition readN :: "bytes \<Rightarrow> nat \<Rightarrow> int \<Rightarrow> (bytes \<times> nat) result" where
  "readN b pos n =
     (if n < 0 \<or> int pos + n > int (length b) then Inl (ErrShort n pos (length b))
      else Inr (take (nat n) (drop pos b), pos + nat n))"

definition encodeEnqueuePayload :: "EnqueuePayload \<Rightarrow> bytes result" where
  "encodeEnqueuePayload p = Inr
     (uuid_bytes (enq_ID p)
      @ putUint32 (word_of_nat (length (enq_IdempotencyKey p)))
      @ string_bytes (enq_IdempotencyKey p)
      @ putUint32 (word_of_nat (length (enq_Payload p)))
      @ enq_Payload p
      @ putUint64 (UnixNano (enq_EnqueuedAt p))
      @ putUint32 (word_of_int (enq_Priority p)))"

definition decodeEnqueuePayload :: "(bytes \<Rightarrow> uuid result) \<Rightarrow> bytes \<Rightarrow> EnqueuePayload result" where
  "decodeEnqueuePayload fb b =
     (case readN b 0 16 of Inl e \<Rightarrow> Inl e | Inr (idBytes, pos) \<Rightarrow>
     (case fb idBytes of Inl e \<Rightarrow> Inl e | Inr i \<Rightarrow>
     (case readN b pos 4 of Inl e \<Rightarrow> Inl e | Inr (keyLenBytes, pos) \<Rightarrow>
     (case readN b pos (uint (getUint32 keyLenBytes)) of Inl e \<Rightarrow> Inl e | Inr (keyBytes, pos) \<Rightarrow>
     (case readN b pos 4 of Inl e \<Rightarrow> Inl e | Inr (payloadLenBytes, pos) \<Rightarrow>
     (case readN b pos (uint (getUint32 payloadLenBytes)) of Inl e \<Rightarrow> Inl e | Inr (pl, pos) \<Rightarrow>
     (case readN b pos 8 of Inl e \<Rightarrow> Inl e | Inr (enqBytes, pos) \<Rightarrow>
     (case readN b pos 4 of Inl e \<Rightarrow> Inl e | Inr (prioBytes, _) \<Rightarrow>
        Inr \<lparr>enq_ID = i, enq_IdempotencyKey = bytes_string keyBytes, enq_Payload = pl,
             enq_EnqueuedAt = time_Unix (getUint64 enqBytes),
             enq_Priority = uint (getUint32 prioBytes)\<rparr>))))))))"

definition encodeDequeuePayload :: "DequeuePayload \<Rightarrow> bytes result" where
  "encodeDequeuePayload p = Inr
     (uuid_bytes (deq_ID p)
      @ putUint64 (UnixNano (deq_LeaseUntil p))
      @ putUint32 (word_of_nat (length (deq_Owner p)))
      @ string_bytes (deq_Owner p))"

definition decodeDequeuePayload :: "(bytes \<Rightarrow> uuid result) \<Rightarrow> bytes \<Rightarrow> DequeuePayload result" where
  "decodeDequeuePayload fb b =
     (case readN b 0 16 of Inl e \<Rightarrow> Inl e | Inr (idBytes, pos) \<Rightarrow>
     (case fb idBytes of Inl e \<Rightarrow> Inl e | Inr i \<Rightarrow>
     (case readN b pos 8 of Inl e \<Rightarrow> Inl e | Inr (leaseBytes, pos) \<Rightarrow>
     (case readN b pos 4 of Inl e \<Rightarrow> Inl e | Inr (ownerLenBytes, pos) \<Rightarrow>
     (case readN b pos (uint (getUint32 ownerLenBytes)) of Inl e \<Rightarrow> Inl e | Inr (ownerBytes, _) \<Rightarrow>
        Inr \<lparr>deq_ID = i, deq_LeaseUntil = time_Unix (getUint64 leaseBytes),
             deq_Owner = bytes_string ownerBytes\<rparr>)))))"

definition encodeAckPayload :: "AckPayload \<Rightarrow> bytes result" where
  "encodeAckPayload p = Inr (uuid_bytes (ack_ID p))"

definition decodeAckPayload :: "(bytes \<Rightarrow> uuid result) \<Rightarrow> bytes \<Rightarrow> AckPayload result" where
  "decodeAckPayload fb b =
     (case readN b 0 16 of Inl e \<Rightarrow> Inl e | Inr (idBytes, _) \<Rightarrow>
     (case fb idBytes of Inl e \<Rightarrow> Inl e | Inr i \<Rightarrow> Inr \<lparr>ack_ID = i\<rparr>))"

definition encodeRetryPayload :: "RetryPayload \<Rightarrow> bytes result" where
  "encodeRetryPayload p = Inr (uuid_bytes (retry_ID p))"

definition decodeRetryPayload :: "(bytes \<Rightarrow> uuid result) \<Rightarrow> bytes \<Rightarrow> RetryPayload result" where
  "decodeRetryPayload fb b =
     (case readN b 0 16 of Inl e \<Rightarrow> Inl e | Inr (idBytes, _) \<Rightarrow>
     (case fb idBytes of Inl e \<Rightarrow> Inl e | Inr i \<Rightarrow> Inr \<lparr>retry_ID = i\<rparr>))"

definition encodeDeadPayload :: "DeadPayload \<Rightarrow> bytes result" where
  "encodeDeadPayload p = Inr
     (uuid_bytes (dead_ID p)
      @ putUint32 (word_of_int (dead_Retries p))
      @ putUint64 (UnixNano (dead_FailedAt p)))"

definition decodeDeadPayload :: "(bytes \<Rightarrow> uuid result) \<Rightarrow> bytes \<Rightarrow> DeadPayload result" where
  "decodeDeadPayload fb b =
     (case readN b 0 16 of Inl e \<Rightarrow> Inl e | Inr (idBytes, pos) \<Rightarrow>
     (case fb idBytes of Inl e \<Rightarrow> Inl e | Inr i \<Rightarrow>
     (case readN b pos 4 of Inl e \<Rightarrow> Inl e | Inr (retBytes, pos) \<Rightarrow>
     (case readN b pos 8 of Inl e \<Rightarrow> Inl e | Inr (failBytes, _) \<Rightarrow>
        Inr \<lparr>dead_ID = i, dead_Retries = uint (getUint32 retBytes),
             dead_FailedAt = time_Unix (getUint64 failBytes)\<rparr>))))"

definition encodeRequeuePayload :: "RequeuePayload \<Rightarrow> bytes result" where
  "encodeRequeuePayload p = Inr (uuid_bytes (requeue_ID p))"

definition decodeRequeuePayload :: "(bytes \<Rightarrow> uuid result) \<Rightarrow> bytes \<Rightarrow> RequeuePayload result" where
  "decodeRequeuePayload fb b =
     (case readN b 0 16 of Inl e \<Rightarrow> Inl e | Inr (idBytes, _) \<Rightarrow>
     (case fb idBytes of Inl e \<Rightarrow> Inl e | Inr i \<Rightarrow> Inr \<lparr>requeue_ID = i\<rparr>))"

definition encodePurgePayload :: "PurgePayload \<Rightarrow> bytes result" where
  "encodePurgePayload p = Inr (uuid_bytes (purge_ID p))"

definition decodePurgePayload :: "(bytes \<Rightarrow> uuid result) \<Rightarrow> bytes \<Rightarrow> PurgePayload result" where
  "decodePurgePayload fb b =
     (case readN b 0 16 of Inl e \<Rightarrow> Inl e | Inr (idBytes, _) \<Rightarrow>
     (case fb idBytes of Inl e \<Rightarrow> Inl e | Inr i \<Rightarrow> Inr \<lparr>purge_ID = i\<rparr>))"

definition encodeRecord :: "OperationType \<Rightarrow> bytes \<Rightarrow> bytes" where
  "encodeRecord op flds = [op] @ flds"

definition decodeRecord :: "(bytes \<Rightarrow> uuid result) \<Rightarrow> bytes \<Rightarrow> (OperationType \<times> payload) result" where
  "decodeRecord fb body =
     (case body of [] \<Rightarrow> Inl ErrEmptyBody
      | op # flds \<Rightarrow>
         if op = OperationEnqueue then map_sum id (\<lambda>p. (op, PEnqueue p)) (decodeEnqueuePayload fb flds)
         else if op = OperationDequeue then map_sum id (\<lambda>p. (op, PDequeue p)) (decodeDequeuePayload fb flds)
         else if op = OperationAck then map_sum id (\<lambda>p. (op, PAck p)) (decodeAckPayload fb flds)
         else if op = OperationRetry then map_sum id (\<lambda>p. (op, PRetry p)) (decodeRetryPayload fb flds)
         else if op = OperationDead then map_sum id (\<lambda>p. (op, PDead p)) (decodeDeadPayload fb flds)
         else if op = OperationRequeue then map_sum id (\<lambda>p. (op, PRequeue p)) (decodeRequeuePayload fb flds)
         else if op = OperationPurge then map_sum id (\<lambda>p. (op, PPurge p)) (decodePurgePayload fb flds)
         else Inl (ErrUnknownOp op))"

lemmas encode_defs = encodeEnqueuePayload_def encodeDequeuePayload_def encodeAckPayload_def
  encodeRetryPayload_def encodeDeadPayload_def encodeRequeuePayload_def encodePurgePayload_def

lemmas decode_defs = decodeEnqueuePayload_def decodeDequeuePayload_def decodeAckPayload_def
  decodeRetryPayload_def decodeDeadPayload_def decodeRequeuePayload_def decodePurgePayload_def

subsection \<open>Values that fit the wire format\<close>

definition EnqueuePayload_ok :: "EnqueuePayload \<Rightarrow> bool" where
  "EnqueuePayload_ok p \<longleftrightarrow> length (enq_IdempotencyKey p) < 2 ^ 32 \<and> length (enq_Payload p) < 2 ^ 32 \<and>
     in_int64 (enq_EnqueuedAt p) \<and> 0 \<le> enq_Priority p \<and> enq_Priority p < 2 ^ 32"

definition DequeuePayload_ok :: "DequeuePayload \<Rightarrow> bool" where
  "DequeuePayload_ok p \<longleftrightarrow> length (deq_Owner p) < 2 ^ 32 \<and> in_int64 (deq_LeaseUntil p)"

definition DeadPayload_ok :: "DeadPayload \<Rightarrow> bool" where
  "DeadPayload_ok p \<longleftrightarrow> 0 \<le> dead_Retries p \<and> dead_Retries p < 2 ^ 32 \<and> in_int64 (dead_FailedAt p)"

subsection \<open>Reading\<close>

lemma readN_chunk:
  assumes "drop pos b = chunk @ rest" and "n = int (length chunk)" and "pos \<le> length b"
  shows "readN b pos n = Inr (chunk, pos + length chunk)"
proof -
  from assms(1) have "length (drop pos b) = length chunk + length rest" by simp
  then have "pos + length chunk \<le> length b" using assms(3) by simp
  with assms(1,2) show ?thesis by (simp add: readN_def)
qed

lemma readN_last:
  "drop pos b = chunk \<Longrightarrow> n = int (length chunk) \<Longrightarrow> pos \<le> length b \<Longrightarrow>
   readN b pos n = Inr (chunk, pos + length chunk)"
  by (rule readN_chunk [where rest = "[]"]) simp_all

lemmas readN_simps = readN_chunk readN_last

lemma readN_take:
  assumes "readN (take n b) pos k = Inr (c, pos')"
  shows "readN b pos k = Inr (c, pos') \<and> pos' \<le> n"
proof -
  from assms have k: "0 \<le> k" "int pos + k \<le> int (length (take n b))"
    and c: "c = take (nat k) (drop pos (take n b))" "pos' = pos + nat k"
    by (auto simp: readN_def split: if_splits)
  from k have "pos + nat k \<le> n" by simp
  then have "take (nat k) (drop pos (take n b)) = take (nat k) (drop pos b)"
    by (simp add: drop_take)
  with k c show ?thesis by (auto simp: readN_def)
qed

text \<open>A decoder that succeeds on a prefix makes the same reads on the whole, all inside the prefix.\<close>

lemma decodeEnqueue_take:
  "decodeEnqueuePayload fb (take n b) = Inr q \<Longrightarrow>
   \<exists>x1 p1 x2 p2 x3 p3 x4 p4 x5 p5 x6 p6 x7 p7.
     readN b 0 16 = Inr (x1, p1) \<and> readN b p1 4 = Inr (x2, p2) \<and>
     readN b p2 (uint (getUint32 x2)) = Inr (x3, p3) \<and> readN b p3 4 = Inr (x4, p4) \<and>
     readN b p4 (uint (getUint32 x4)) = Inr (x5, p5) \<and> readN b p5 8 = Inr (x6, p6) \<and>
     readN b p6 4 = Inr (x7, p7) \<and> p7 \<le> n"
  unfolding decodeEnqueuePayload_def
  by (simp split: sum.splits prod.splits) (blast dest: readN_take)

lemma decodeDequeue_take:
  "decodeDequeuePayload fb (take n b) = Inr q \<Longrightarrow>
   \<exists>x1 p1 x2 p2 x3 p3 x4 p4.
     readN b 0 16 = Inr (x1, p1) \<and> readN b p1 8 = Inr (x2, p2) \<and> readN b p2 4 = Inr (x3, p3) \<and>
     readN b p3 (uint (getUint32 x3)) = Inr (x4, p4) \<and> p4 \<le> n"
  unfolding decodeDequeuePayload_def
  by (simp split: sum.splits prod.splits) (blast dest: readN_take)

lemma decodeDead_take:
  "decodeDeadPayload fb (take n b) = Inr q \<Longrightarrow>
   \<exists>x1 p1 x2 p2 x3 p3.
     readN b 0 16 = Inr (x1, p1) \<and> readN b p1 4 = Inr (x2, p2) \<and> readN b p2 8 = Inr (x3, p3) \<and>
     p3 \<le> n"
  unfolding decodeDeadPayload_def
  by (simp split: sum.splits prod.splits) (blast dest: readN_take)

lemma not_Inr_iff: "(\<exists>e. r = Inl e) \<longleftrightarrow> (\<forall>x. r \<noteq> Inr x)"
  by (cases r) auto

lemma uint_len32 [simp]: "k < 2 ^ 32 \<Longrightarrow> uint (word_of_nat k :: uint32) = int k"
  by (simp add: unsigned_of_nat take_bit_eq_mod)

lemma uint_int32 [simp]: "0 \<le> k \<Longrightarrow> k < 2 ^ 32 \<Longrightarrow> uint (word_of_int k :: uint32) = k"
  by (simp add: unsigned_of_int take_bit_eq_mod)


text \<open>The record of a payload, as every writer of the source builds it: encode the fields, prepend
  the tag.\<close>

fun op_of :: "payload \<Rightarrow> OperationType" where
  "op_of (PEnqueue _) = OperationEnqueue"
| "op_of (PDequeue _) = OperationDequeue"
| "op_of (PAck _) = OperationAck"
| "op_of (PRetry _) = OperationRetry"
| "op_of (PDead _) = OperationDead"
| "op_of (PRequeue _) = OperationRequeue"
| "op_of (PPurge _) = OperationPurge"

fun fields_of :: "payload \<Rightarrow> bytes result" where
  "fields_of (PEnqueue p) = encodeEnqueuePayload p"
| "fields_of (PDequeue p) = encodeDequeuePayload p"
| "fields_of (PAck p) = encodeAckPayload p"
| "fields_of (PRetry p) = encodeRetryPayload p"
| "fields_of (PDead p) = encodeDeadPayload p"
| "fields_of (PRequeue p) = encodeRequeuePayload p"
| "fields_of (PPurge p) = encodePurgePayload p"

fun payload_ok :: "payload \<Rightarrow> bool" where
  "payload_ok (PEnqueue p) = EnqueuePayload_ok p"
| "payload_ok (PDequeue p) = DequeuePayload_ok p"
| "payload_ok (PDead p) = DeadPayload_ok p"
| "payload_ok _ = True"

definition record_of :: "payload \<Rightarrow> bytes result" where
  "record_of pl = map_sum id (encodeRecord (op_of pl)) (fields_of pl)"

lemma record_of_Inr: "record_of pl = Inr r \<longleftrightarrow> (\<exists>fs. fields_of pl = Inr fs \<and> r = op_of pl # fs)"
  by (cases "fields_of pl") (auto simp: record_of_def encodeRecord_def)

lemma fields_of_total: "\<exists>fs. fields_of pl = Inr fs"
  by (cases pl) (simp_all add: encode_defs)

definition decodePayload :: "(bytes \<Rightarrow> uuid result) \<Rightarrow> bytes \<Rightarrow> payload result" where
  "decodePayload fb b = map_sum id snd (decodeRecord fb b)"

lemma op_of_distinct [simp]:
  "OperationEnqueue \<noteq> OperationDequeue" "OperationEnqueue \<noteq> OperationAck"
  "OperationEnqueue \<noteq> OperationRetry" "OperationEnqueue \<noteq> OperationDead"
  "OperationEnqueue \<noteq> OperationRequeue" "OperationEnqueue \<noteq> OperationPurge"
  "OperationDequeue \<noteq> OperationAck" "OperationDequeue \<noteq> OperationRetry"
  "OperationDequeue \<noteq> OperationDead" "OperationDequeue \<noteq> OperationRequeue"
  "OperationDequeue \<noteq> OperationPurge" "OperationAck \<noteq> OperationRetry"
  "OperationAck \<noteq> OperationDead" "OperationAck \<noteq> OperationRequeue"
  "OperationAck \<noteq> OperationPurge" "OperationRetry \<noteq> OperationDead"
  "OperationRetry \<noteq> OperationRequeue" "OperationRetry \<noteq> OperationPurge"
  "OperationDead \<noteq> OperationRequeue" "OperationDead \<noteq> OperationPurge"
  "OperationRequeue \<noteq> OperationPurge"
  by (simp_all add: Operation_defs)

lemmas op_of_distinct' [simp] = op_of_distinct [symmetric]

subsection \<open>The interface of a codec\<close>

text \<open>
  \<open>ok\<close> are the values that fit the wire format. A decoder inverts its encoder there, and refuses every
  torn encoding.
\<close>

locale codec =
  fixes enc :: "'a \<Rightarrow> bytes result"
    and dec :: "bytes \<Rightarrow> 'a result"
    and ok :: "'a \<Rightarrow> bool"
  assumes enc_total: "\<exists>bs. enc x = Inr bs"
    and dec_enc: "ok x \<Longrightarrow> enc x = Inr bs \<Longrightarrow> dec bs = Inr x"
    and dec_torn: "ok x \<Longrightarrow> enc x = Inr bs \<Longrightarrow> n < length bs \<Longrightarrow> \<exists>e. dec (take n bs) = Inl e"
begin

lemma enc_inject: "ok x \<Longrightarrow> ok y \<Longrightarrow> enc x = enc y \<Longrightarrow> x = y"
  by (metis dec_enc enc_total sum.inject(2))

text \<open>No encoding is a proper prefix of another.\<close>

lemma enc_prefix_free:
  assumes "ok x" "ok y" "enc x = Inr bs" "enc y = Inr (bs @ cs)"
  shows "cs = [] \<and> x = y"
proof -
  have "\<not> length bs < length (bs @ cs)"
    using dec_torn [OF assms(2,4), of "length bs"] dec_enc [OF assms(1,3)] by auto
  then have "cs = []" by simp
  with assms show ?thesis by (metis append_Nil2 enc_inject)
qed

end

text \<open>What the decoders rely on in the uuid package: \<^verbatim>\<open>FromBytes\<close> copies a 16-byte slice.\<close>

locale uuid_lib =
  fixes fb :: "bytes \<Rightarrow> uuid result"
  assumes FromBytes_16: "length bs = 16 \<Longrightarrow> fb bs = Inr (uuid_of_bytes bs)"
begin

lemma FromBytes_bytes [simp]: "fb (uuid_bytes u) = Inr u"
  by (simp add: FromBytes_16)

lemma decodeEnqueue_encode [codec_simps]:
  "EnqueuePayload_ok p \<Longrightarrow> encodeEnqueuePayload p = Inr bs \<Longrightarrow> decodeEnqueuePayload fb bs = Inr p"
  by (auto simp: encode_defs decode_defs EnqueuePayload_ok_def readN_simps)

lemma decodeDequeue_encode [codec_simps]:
  "DequeuePayload_ok p \<Longrightarrow> encodeDequeuePayload p = Inr bs \<Longrightarrow> decodeDequeuePayload fb bs = Inr p"
  by (auto simp: encode_defs decode_defs DequeuePayload_ok_def readN_simps)

lemma decodeAck_encode [codec_simps]:
  "encodeAckPayload p = Inr bs \<Longrightarrow> decodeAckPayload fb bs = Inr p"
  by (auto simp: encode_defs decode_defs readN_simps)

lemma decodeRetry_encode [codec_simps]:
  "encodeRetryPayload p = Inr bs \<Longrightarrow> decodeRetryPayload fb bs = Inr p"
  by (auto simp: encode_defs decode_defs readN_simps)

lemma decodeDead_encode [codec_simps]:
  "DeadPayload_ok p \<Longrightarrow> encodeDeadPayload p = Inr bs \<Longrightarrow> decodeDeadPayload fb bs = Inr p"
  by (auto simp: encode_defs decode_defs DeadPayload_ok_def readN_simps)

lemma decodeRequeue_encode [codec_simps]:
  "encodeRequeuePayload p = Inr bs \<Longrightarrow> decodeRequeuePayload fb bs = Inr p"
  by (auto simp: encode_defs decode_defs readN_simps)

lemma decodePurge_encode [codec_simps]:
  "encodePurgePayload p = Inr bs \<Longrightarrow> decodePurgePayload fb bs = Inr p"
  by (auto simp: encode_defs decode_defs readN_simps)

text \<open>A torn encoding: if the decoder succeeded on a prefix, all its reads would end inside the
  prefix, but on the whole encoding they end at its end.\<close>

lemma decodeEnqueue_torn:
  assumes ok: "EnqueuePayload_ok p" and enc: "encodeEnqueuePayload p = Inr bs" and n: "n < length bs"
  shows "\<exists>e. decodeEnqueuePayload fb (take n bs) = Inl e"
  unfolding not_Inr_iff
proof (intro allI notI)
  fix q assume "decodeEnqueuePayload fb (take n bs) = Inr q"
  from decodeEnqueue_take [OF this] obtain x1 p1 x2 p2 x3 p3 x4 p4 x5 p5 x6 p6 x7 p7
    where r: "readN bs 0 16 = Inr (x1, p1)" "readN bs p1 4 = Inr (x2, p2)"
      "readN bs p2 (uint (getUint32 x2)) = Inr (x3, p3)" "readN bs p3 4 = Inr (x4, p4)"
      "readN bs p4 (uint (getUint32 x4)) = Inr (x5, p5)" "readN bs p5 8 = Inr (x6, p6)"
      "readN bs p6 4 = Inr (x7, p7)" "p7 \<le> n"
    by blast
  note defs = readN_simps enc [unfolded encodeEnqueuePayload_def, simplified, symmetric]
  have 1: "p1 = 16" using r(1) by (simp add: defs)
  have 2: "p2 = 20" "x2 = putUint32 (word_of_nat (length (enq_IdempotencyKey p)))"
    using r(2) by (simp_all add: defs 1)
  have 3: "p3 = 20 + length (enq_IdempotencyKey p)"
    using r(3) ok by (simp add: defs 2 EnqueuePayload_ok_def)
  have 4: "p4 = 24 + length (enq_IdempotencyKey p)"
      "x4 = putUint32 (word_of_nat (length (enq_Payload p)))"
    using r(4) by (simp_all add: defs 3)
  have 5: "p5 = 24 + length (enq_IdempotencyKey p) + length (enq_Payload p)"
    using r(5) ok by (auto simp: defs 4 EnqueuePayload_ok_def)
  have 6: "p6 = 32 + length (enq_IdempotencyKey p) + length (enq_Payload p)"
    using r(6) by (simp add: defs 5)
  have "p7 = length bs" using r(7) by (auto simp: defs 6)
  with r(8) n show False by simp
qed

lemma decodeDequeue_torn:
  "DequeuePayload_ok p \<Longrightarrow> encodeDequeuePayload p = Inr bs \<Longrightarrow> n < length bs \<Longrightarrow>
   \<exists>e. decodeDequeuePayload fb (take n bs) = Inl e"
  unfolding not_Inr_iff
  by (auto simp: encode_defs DequeuePayload_ok_def readN_simps dest!: decodeDequeue_take)

lemma decodeAck_torn:
  "encodeAckPayload p = Inr bs \<Longrightarrow> n < length bs \<Longrightarrow>
   \<exists>e. decodeAckPayload fb (take n bs) = Inl e"
  by (rule ccontr)
    (auto simp: encode_defs decode_defs readN_simps split: sum.splits dest!: readN_take)

lemma decodeRetry_torn:
  "encodeRetryPayload p = Inr bs \<Longrightarrow> n < length bs \<Longrightarrow>
   \<exists>e. decodeRetryPayload fb (take n bs) = Inl e"
  by (rule ccontr)
    (auto simp: encode_defs decode_defs readN_simps split: sum.splits dest!: readN_take)

lemma decodeDead_torn:
  "DeadPayload_ok p \<Longrightarrow> encodeDeadPayload p = Inr bs \<Longrightarrow> n < length bs \<Longrightarrow>
   \<exists>e. decodeDeadPayload fb (take n bs) = Inl e"
  unfolding not_Inr_iff
  by (auto simp: encode_defs DeadPayload_ok_def readN_simps dest!: decodeDead_take)

lemma decodeRequeue_torn:
  "encodeRequeuePayload p = Inr bs \<Longrightarrow> n < length bs \<Longrightarrow>
   \<exists>e. decodeRequeuePayload fb (take n bs) = Inl e"
  by (rule ccontr)
    (auto simp: encode_defs decode_defs readN_simps split: sum.splits dest!: readN_take)

lemma decodePurge_torn:
  "encodePurgePayload p = Inr bs \<Longrightarrow> n < length bs \<Longrightarrow>
   \<exists>e. decodePurgePayload fb (take n bs) = Inl e"
  by (rule ccontr)
    (auto simp: encode_defs decode_defs readN_simps split: sum.splits dest!: readN_take)

lemma decodeRecord_fields:
  "payload_ok pl \<Longrightarrow> fields_of pl = Inr fs \<Longrightarrow> decodeRecord fb (op_of pl # fs) = Inr (op_of pl, pl)"
  by (cases pl) (auto simp: decodeRecord_def dest: decodeEnqueue_encode decodeDequeue_encode
      decodeAck_encode decodeRetry_encode decodeDead_encode decodeRequeue_encode decodePurge_encode)

lemma decodeRecord_fields_torn:
  "payload_ok pl \<Longrightarrow> fields_of pl = Inr fs \<Longrightarrow> m < length fs \<Longrightarrow>
   \<exists>e. decodeRecord fb (op_of pl # take m fs) = Inl e"
  by (cases pl) (auto simp: decodeRecord_def dest: decodeEnqueue_torn decodeDequeue_torn
      decodeAck_torn decodeRetry_torn decodeDead_torn decodeRequeue_torn decodePurge_torn)

lemma decodeRecord_record_of [codec_simps]:
  "payload_ok pl \<Longrightarrow> record_of pl = Inr r \<Longrightarrow> decodeRecord fb r = Inr (op_of pl, pl)"
  by (auto simp: record_of_Inr decodeRecord_fields)

lemma decodeRecord_torn:
  assumes "payload_ok pl" "record_of pl = Inr r" "n < length r"
  shows "\<exists>e. decodeRecord fb (take n r) = Inl e"
proof (cases n)
  case 0
  then show ?thesis by (simp add: decodeRecord_def)
next
  case (Suc m)
  with assms show ?thesis by (auto simp: record_of_Inr decodeRecord_fields_torn)
qed

end

text \<open>Under the law of the uuid package, each encoder with its decoder is a codec, and so is the whole
  record layer.\<close>

sublocale uuid_lib \<subseteq> enqueue: codec encodeEnqueuePayload "decodeEnqueuePayload fb" EnqueuePayload_ok
  by unfold_locales (simp add: encode_defs, fact decodeEnqueue_encode, fact decodeEnqueue_torn)

sublocale uuid_lib \<subseteq> dequeue: codec encodeDequeuePayload "decodeDequeuePayload fb" DequeuePayload_ok
  by unfold_locales (simp add: encode_defs, fact decodeDequeue_encode, fact decodeDequeue_torn)

sublocale uuid_lib \<subseteq> dead: codec encodeDeadPayload "decodeDeadPayload fb" DeadPayload_ok
  by unfold_locales (simp add: encode_defs, fact decodeDead_encode, fact decodeDead_torn)

sublocale uuid_lib \<subseteq> record_layer: codec record_of "decodePayload fb" payload_ok
proof (unfold_locales, goal_cases)
  case (1 pl)
  show ?case using fields_of_total [of pl] by (auto simp: record_of_Inr)
next
  case (2 pl bs)
  then show ?case by (simp add: decodePayload_def decodeRecord_record_of)
next
  case (3 pl bs n)
  then show ?case using decodeRecord_torn [of pl bs n] by (auto simp: decodePayload_def)
qed

text \<open>The law can be met: a function that copies 16 bytes and refuses other lengths.\<close>

definition FromBytes_copy :: "bytes \<Rightarrow> uuid result" where
  "FromBytes_copy bs = (if length bs = 16 then Inr (uuid_of_bytes bs) else Inl (ErrLib (length bs)))"

interpretation uuid_copy: uuid_lib FromBytes_copy
  by unfold_locales (simp add: FromBytes_copy_def)

subsection \<open>Properties\<close>

text \<open>C18. Every record that fits the wire format survives the round trip: what \<^verbatim>\<open>decodeRecord\<close> reads from the
  bytes the encoders produce is the operation and the payload that were encoded, for each of the seven
  operations.\<close>

theorem record_roundtrip:
  assumes "uuid_lib fb" "payload_ok pl" "record_of pl = Inr r"
  shows "decodeRecord fb r = Inr (op_of pl, pl)"
  using assms by (intro uuid_lib.decodeRecord_record_of)

theorem record_roundtrip_witness:
  "decodeRecord FromBytes_copy (OperationDead # uuid_bytes 9 @ putUint32 4 @ putUint64 77) =
     Inr (OperationDead, PDead \<lparr>dead_ID = 9, dead_Retries = 4, dead_FailedAt = 77\<rparr>)"
  using record_roundtrip [of FromBytes_copy "PDead \<lparr>dead_ID = 9, dead_Retries = 4, dead_FailedAt = 77\<rparr>"
      "OperationDead # uuid_bytes 9 @ putUint32 4 @ putUint64 77"] uuid_copy.uuid_lib_axioms
  by (simp add: DeadPayload_ok_def in_int64_def record_of_def encodeRecord_def encodeDeadPayload_def UnixNano_def)

text \<open>C19. A record cut short at any byte is refused with an error, never misread as another record.\<close>

theorem record_torn_refused:
  assumes "uuid_lib fb" "payload_ok pl" "record_of pl = Inr r" "n < length r"
  shows "\<exists>e. decodeRecord fb (take n r) = Inl e"
  using assms by (intro uuid_lib.decodeRecord_torn)

theorem record_torn_refused_witness:
  "\<exists>e. decodeRecord FromBytes_copy (take 20 (OperationDead # uuid_bytes 9 @ putUint32 4 @ putUint64 77)) = Inl e"
  using record_torn_refused [of FromBytes_copy "PDead \<lparr>dead_ID = 9, dead_Retries = 4, dead_FailedAt = 77\<rparr>"
      "OperationDead # uuid_bytes 9 @ putUint32 4 @ putUint64 77" 20] uuid_copy.uuid_lib_axioms
  by (simp add: DeadPayload_ok_def in_int64_def record_of_def encodeRecord_def encodeDeadPayload_def UnixNano_def)

end
