(* ===== verification/Crc32.thy ===== *)
theory Crc32
  imports Prelude
begin

unbundle bit_operations_syntax

section \<open>The checksum of a log frame (hash/crc32)\<close>

text \<open>
  \<^verbatim>\<open>crc32.ChecksumIEEE\<close> as the write-ahead log uses it: the reflected CRC-32 with polynomial
  \<open>0xEDB88320\<close>, initial value and final complement of all ones. The definitions are the bitwise
  form of the algorithm. The lemmas show that the register update is injective, hence that the
  checksum notices every change of a record that is confined to one byte.
\<close>

definition crc_poly :: uint32 where
  "crc_poly = 0xEDB88320"

definition crc_shift :: "uint32 \<Rightarrow> uint32" where
  "crc_shift c = (if bit c 0 then drop_bit 1 c XOR crc_poly else drop_bit 1 c)"

definition crc_byte :: "uint32 \<Rightarrow> byte \<Rightarrow> uint32" where
  "crc_byte c b = (crc_shift ^^ 8) (c XOR ucast b)"

definition ChecksumIEEE :: "bytes \<Rightarrow> uint32" where
  "ChecksumIEEE bs = foldl crc_byte 0xFFFFFFFF bs XOR 0xFFFFFFFF"

subsection \<open>The update is injective\<close>

lemma crc_poly_top: "bit crc_poly 31"
  by (simp add: crc_poly_def)

lemma bit_crc_shift_top: "bit (crc_shift c) 31 \<longleftrightarrow> bit c 0"
proof -
  have "\<not> bit (drop_bit 1 c) 31"
    by (auto simp: bit_simps dest: bit_imp_le_length)
  then show ?thesis
    by (simp add: crc_shift_def bit_xor_iff crc_poly_top)
qed

lemma crc_shift_inject: "crc_shift c = crc_shift d \<longleftrightarrow> c = d"
proof
  assume eq: "crc_shift c = crc_shift d"
  then have low: "bit c 0 = bit d 0"
    by (metis bit_crc_shift_top)
  have "(drop_bit 1 c XOR crc_poly) XOR crc_poly = drop_bit 1 c" for c :: uint32
    by (simp add: xor.assoc)
  with eq low have high: "drop_bit 1 c = drop_bit 1 d"
    by (metis crc_shift_def)
  show "c = d"
  proof (rule bit_word_eqI)
    fix n
    from high have "bit c (Suc m) = bit d (Suc m)" for m
      by (metis bit_drop_bit_eq comp_apply plus_1_eq_Suc)
    with low show "bit c n = bit d n"
      by (cases n) simp_all
  qed
qed simp

lemma crc_shifts_inject: "(crc_shift ^^ n) c = (crc_shift ^^ n) d \<longleftrightarrow> c = d"
  by (induction n) (simp_all add: crc_shift_inject)

lemma xor_right_inject: "a XOR c = b XOR c \<longleftrightarrow> a = (b :: 'a::len word)"
  by (metis xor.assoc xor.right_neutral xor_self_eq)

lemma xor_left_inject: "c XOR a = c XOR b \<longleftrightarrow> a = (b :: 'a::len word)"
  by (metis xor.commute xor_right_inject)

lemma crc_byte_inject_reg: "crc_byte c b = crc_byte d b \<longleftrightarrow> c = d"
  by (simp add: crc_byte_def crc_shifts_inject xor_right_inject)

lemma ucast_byte_inject: "(ucast a :: uint32) = ucast b \<longleftrightarrow> a = (b :: byte)"
proof
  assume eq: "(ucast a :: uint32) = ucast b"
  have "bit (ucast a :: uint32) n = bit a n" for a :: byte and n
    by (auto simp: bit_simps dest: bit_imp_le_length)
  with eq show "a = b"
    by (metis bit_word_eqI)
qed simp

lemma crc_byte_inject_byte: "crc_byte c a = crc_byte c b \<longleftrightarrow> a = b"
  by (simp add: crc_byte_def crc_shifts_inject xor_left_inject ucast_byte_inject)

lemma crc_byte_unfold:
  "crc_byte c b = crc_shift (crc_shift (crc_shift (crc_shift (crc_shift (crc_shift (crc_shift
     (crc_shift (c XOR ucast b))))))))"
  by (simp add: crc_byte_def eval_nat_numeral)

lemma crc_shift_eval:
  "crc_shift (numeral k) = (if bit (numeral k :: uint32) 0
     then drop_bit 1 (numeral k) XOR crc_poly else drop_bit 1 (numeral k))"
  "crc_shift 0 = 0" "crc_shift 1 = crc_poly"
  by (simp_all add: crc_shift_def)

lemmas crc_eval = ChecksumIEEE_def crc_byte_unfold crc_shift_eval crc_poly_def

lemma crc_fold_inject: "foldl crc_byte c bs = foldl crc_byte d bs \<longleftrightarrow> c = d"
  by (induction bs arbitrary: c d) (simp_all add: crc_byte_inject_reg)

lemma ChecksumIEEE_one_byte:
  assumes "a \<noteq> b"
  shows "ChecksumIEEE (xs @ a # ys) \<noteq> ChecksumIEEE (xs @ b # ys)"
proof -
  let ?c = "foldl crc_byte 0xFFFFFFFF xs"
  from assms have "crc_byte ?c a \<noteq> crc_byte ?c b"
    by (simp add: crc_byte_inject_byte)
  then show ?thesis
    by (simp add: ChecksumIEEE_def crc_fold_inject xor_right_inject)
qed

text \<open>The check value of the standard: the checksum of the ASCII digits 1 to 9.\<close>

lemma ChecksumIEEE_check: "ChecksumIEEE (string_bytes ''123456789'') = 0xCBF43926"
  by (simp add: crc_eval string_bytes_def byte_of_char_def)

end
