(* ===== verification/Wal.thy ===== *)
theory Wal
  imports Crc32
begin

section \<open>The write-ahead log (wal.go)\<close>

text \<open>
  Frames, the writer's batches and replay. The file is the sequence of bytes written so far;
  \<open>wal_synced\<close> is the length of the prefix that the last successful fsync made durable. What the operating
  system does is an input: the outcome of each \<^verbatim>\<open>Write\<close> (all bytes, or an error after some bytes),
  of \<^verbatim>\<open>Sync\<close>, of opening the file, and whether reading ends in a real read error.

  \<open>run_batch\<close> is one turn of the writer goroutine \<^verbatim>\<open>run\<close>: write the frames of the batch, fsync once,
  report one outcome to every caller. \<open>Append\<close> is the turn that serves a single request.
\<close>

subsection \<open>Reading\<close>

text \<open>A buffered reader: the bytes it still delivers, and the error it meets at their end
  (\<open>None\<close> for the end of the file).\<close>

record reader =
  rd_data :: bytes
  rd_err :: "go_error option"

definition ReadFull :: "reader \<Rightarrow> nat \<Rightarrow> (bytes \<times> reader) result" where
  "ReadFull r n =
     (if n \<le> length (rd_data r) then Inr (take n (rd_data r), r\<lparr>rd_data := drop n (rd_data r)\<rparr>)
      else case rd_err r of
             Some e \<Rightarrow> Inl e
           | None \<Rightarrow> if rd_data r = [] then Inl EOF else Inl ErrUnexpectedEOF)"

definition encodeFrame :: "bytes \<Rightarrow> bytes result" where
  "encodeFrame rec = Inr
     (putUint32 (word_of_nat (length rec)) @ putUint32 (ChecksumIEEE rec) @ rec)"

definition decodeFrame :: "reader \<Rightarrow> (bytes \<times> reader) result" where
  "decodeFrame r =
     (case ReadFull r 8 of Inl e \<Rightarrow> Inl e | Inr (header, r) \<Rightarrow>
      let recordLength = unat (getUint32 (take 4 header));
          storedCRC = getUint32 (drop 4 header)
      in case ReadFull r recordLength of Inl e \<Rightarrow> Inl e | Inr (rec, r) \<Rightarrow>
         if ChecksumIEEE rec \<noteq> storedCRC then Inl ErrCorruptRecord else Inr (rec, r))"

lemma ReadFull_length: "ReadFull r n = Inr (b, r') \<Longrightarrow> length (rd_data r) = n + length (rd_data r')"
  by (auto simp: ReadFull_def split: if_splits option.splits)

lemma decodeFrame_shorter:
  "decodeFrame r = Inr (rec, r') \<Longrightarrow> length (rd_data r') < length (rd_data r)"
  by (auto simp: decodeFrame_def Let_def split: sum.splits if_splits dest!: ReadFull_length)

definition log_end :: "go_error \<Rightarrow> bool" where
  "log_end e \<longleftrightarrow> e = EOF \<or> e = ErrUnexpectedEOF \<or> e = ErrCorruptRecord"

function Replay_loop :: "(bytes \<Rightarrow> 's \<Rightarrow> 's result) \<Rightarrow> reader \<Rightarrow> 's \<Rightarrow> 's result" where
  "Replay_loop apply r s =
     (case decodeFrame r of
        Inl e \<Rightarrow> if log_end e then Inr s else Inl e
      | Inr (frame, r') \<Rightarrow>
          (case apply frame s of Inl e \<Rightarrow> Inl e | Inr s' \<Rightarrow> Replay_loop apply r' s'))"
  by pat_completeness auto
termination
  by (relation "measure (\<lambda>(apply, r, s). length (rd_data r))") (auto dest: decodeFrame_shorter)

declare Replay_loop.simps [simp del]

text \<open>\<open>open_err\<close> is the error of \<^verbatim>\<open>os.Open\<close>, if any.\<close>

definition Replay ::
  "go_error option \<Rightarrow> (bytes \<Rightarrow> 's \<Rightarrow> 's result) \<Rightarrow> reader \<Rightarrow> 's \<Rightarrow> 's result" where
  "Replay open_err apply r s =
     (case open_err of Some e \<Rightarrow> Inl e | None \<Rightarrow> Replay_loop apply r s)"

subsection \<open>Writing\<close>

record WAL =
  wal_file :: bytes
  wal_synced :: nat
  wal_offset :: int

text \<open>The outcome of \<^verbatim>\<open>Write\<close>: all bytes, or an error after the first \<open>n\<close> bytes.\<close>

datatype write_outcome = WriteOK | WriteErr nat go_error

text \<open>\<open>OpenWAL\<close>: the file is created or opened for appending, its size is the offset. A fresh open finds
  only durable bytes.\<close>

definition OpenWAL :: "go_error option \<Rightarrow> go_error option \<Rightarrow> bytes \<Rightarrow> WAL result" where
  "OpenWAL open_err stat_err disk =
     (case open_err of Some e \<Rightarrow> Inl e | None \<Rightarrow>
     (case stat_err of Some e \<Rightarrow> Inl e | None \<Rightarrow>
        Inr \<lparr>wal_file = disk, wal_synced = length disk, wal_offset = int (length disk)\<rparr>))"

fun write_frame :: "bytes \<Rightarrow> write_outcome \<Rightarrow> WAL \<Rightarrow> go_error option \<times> WAL" where
  "write_frame frame WriteOK w =
     (None, w\<lparr>wal_file := wal_file w @ frame, wal_offset := wal_offset w + int (length frame)\<rparr>)"
| "write_frame frame (WriteErr n e) w =
     (Some e, w\<lparr>wal_file := wal_file w @ take n frame\<rparr>)"

text \<open>The loop over the batch: each request with the outcome of its \<^verbatim>\<open>Write\<close>; it stops at the first
  error.\<close>

fun write_batch :: "(bytes \<times> write_outcome) list \<Rightarrow> WAL \<Rightarrow> go_error option \<times> WAL" where
  "write_batch [] w = (None, w)"
| "write_batch ((rec, wo) # reqs) w =
     (case encodeFrame rec of
        Inl e \<Rightarrow> (Some e, w)
      | Inr frame \<Rightarrow>
          (case write_frame frame wo w of
             (Some e, w') \<Rightarrow> (Some e, w')
           | (None, w') \<Rightarrow> write_batch reqs w'))"

definition wal_Sync :: "go_error option \<Rightarrow> WAL \<Rightarrow> go_error option \<times> WAL" where
  "wal_Sync so w =
     (case so of Some e \<Rightarrow> (Some e, w) | None \<Rightarrow> (None, w\<lparr>wal_synced := length (wal_file w)\<rparr>))"

definition run_batch ::
  "(bytes \<times> write_outcome) list \<Rightarrow> go_error option \<Rightarrow> WAL \<Rightarrow> go_error option \<times> WAL" where
  "run_batch reqs so w =
     (case write_batch reqs w of
        (Some e, w') \<Rightarrow> (Some e, w')
      | (None, w') \<Rightarrow> wal_Sync so w')"

text \<open>What the operating system does during one append.\<close>

record io =
  io_write :: write_outcome
  io_sync :: "go_error option"

definition io_ok :: io where
  "io_ok = \<lparr>io_write = WriteOK, io_sync = None\<rparr>"

definition Append :: "bytes \<Rightarrow> io \<Rightarrow> WAL \<Rightarrow> go_error option \<times> WAL" where
  "Append rec i w = run_batch [(rec, io_write i)] (io_sync i) w"

subsection \<open>Logs as sequences of frames\<close>

definition frame_of :: "bytes \<Rightarrow> bytes" where
  "frame_of rec = putUint32 (word_of_nat (length rec)) @ putUint32 (ChecksumIEEE rec) @ rec"

definition log_of :: "bytes list \<Rightarrow> bytes" where
  "log_of recs = concat (map frame_of recs)"

definition fits :: "bytes \<Rightarrow> bool" where
  "fits rec \<longleftrightarrow> length rec < 2 ^ 32"

text \<open>Applying a list of records in order, stopping at the first error.\<close>

fun apply_all :: "('r \<Rightarrow> 's \<Rightarrow> 's result) \<Rightarrow> 'r list \<Rightarrow> 's \<Rightarrow> 's result" where
  "apply_all f [] s = Inr s"
| "apply_all f (r # rs) s = (case f r s of Inl e \<Rightarrow> Inl e | Inr s' \<Rightarrow> apply_all f rs s')"

lemma encodeFrame_frame_of: "encodeFrame rec = Inr (frame_of rec)"
  by (simp add: encodeFrame_def frame_of_def)

lemma length_frame_of [simp]: "length (frame_of rec) = 8 + length rec"
  by (simp add: frame_of_def)

lemma log_of_simps [simp]:
  "log_of [] = []" "log_of (r # rs) = frame_of r @ log_of rs" "log_of (rs @ rs') = log_of rs @ log_of rs'"
  by (simp_all add: log_of_def)

lemma apply_all_append:
  "apply_all f (rs @ rs') s = (case apply_all f rs s of Inl e \<Rightarrow> Inl e | Inr s' \<Rightarrow> apply_all f rs' s')"
  by (induction rs arbitrary: s) (auto split: sum.splits)

lemma unat_len32: "fits rec \<Longrightarrow> unat (word_of_nat (length rec) :: uint32) = length rec"
  by (simp add: fits_def unat_of_nat take_bit_eq_mod)

subsection \<open>Frames\<close>

lemma decodeFrame_frame:
  "fits rec \<Longrightarrow>
   decodeFrame \<lparr>rd_data = frame_of rec @ rest, rd_err = e\<rparr> = Inr (rec, \<lparr>rd_data = rest, rd_err = e\<rparr>)"
  by (simp add: decodeFrame_def ReadFull_def Let_def frame_of_def unat_len32)

lemma decodeFrame_empty: "decodeFrame \<lparr>rd_data = [], rd_err = None\<rparr> = Inl EOF"
  by (simp add: decodeFrame_def ReadFull_def)

lemma decodeFrame_torn:
  assumes "fits rec" "n < length (frame_of rec)"
  shows "decodeFrame \<lparr>rd_data = take n (frame_of rec), rd_err = None\<rparr> = Inl EOF \<or>
    decodeFrame \<lparr>rd_data = take n (frame_of rec), rd_err = None\<rparr> = Inl ErrUnexpectedEOF"
proof (cases "n < 8")
  case True
  then show ?thesis by (auto simp: decodeFrame_def ReadFull_def)
next
  case False
  then have "take n (frame_of rec) = putUint32 (word_of_nat (length rec)) @ putUint32 (ChecksumIEEE rec)
      @ take (n - 8) rec"
    by (simp add: frame_of_def)
  with False assms show ?thesis
    by (auto simp: decodeFrame_def ReadFull_def Let_def unat_len32)
qed

lemma decodeFrame_corrupt:
  assumes "fits (xs @ a # ys)" "a \<noteq> b"
  shows "decodeFrame \<lparr>rd_data = take 8 (frame_of (xs @ a # ys)) @ (xs @ b # ys) @ rest, rd_err = e\<rparr>
    = Inl ErrCorruptRecord"
proof -
  have "ChecksumIEEE (xs @ b # ys) \<noteq> ChecksumIEEE (xs @ a # ys)"
    using assms(2) by (metis ChecksumIEEE_one_byte)
  with unat_len32 [OF assms(1)] show ?thesis
    by (simp add: decodeFrame_def ReadFull_def Let_def frame_of_def)
qed

subsection \<open>Replay\<close>

lemma Replay_loop_end:
  "decodeFrame r = Inl e \<Longrightarrow> log_end e \<Longrightarrow> Replay_loop f r s = Inr s"
  by (simp add: Replay_loop.simps)

lemma Replay_loop_frame:
  "fits rec \<Longrightarrow>
   Replay_loop f \<lparr>rd_data = frame_of rec @ rest, rd_err = e\<rparr> s =
     (case f rec s of Inl e \<Rightarrow> Inl e | Inr s' \<Rightarrow> Replay_loop f \<lparr>rd_data = rest, rd_err = e\<rparr> s')"
  by (simp add: Replay_loop.simps [of f "\<lparr>rd_data = frame_of rec @ rest, rd_err = e\<rparr>"] decodeFrame_frame)

lemma Replay_loop_log_append:
  "\<forall>r \<in> set recs. fits r \<Longrightarrow>
   Replay_loop f \<lparr>rd_data = log_of recs @ rest, rd_err = e\<rparr> s =
     (case apply_all f recs s of Inl e \<Rightarrow> Inl e | Inr s' \<Rightarrow> Replay_loop f \<lparr>rd_data = rest, rd_err = e\<rparr> s')"
  by (induction recs arbitrary: s) (auto simp: Replay_loop_frame split: sum.splits)

lemma Replay_loop_torn:
  "fits rec \<Longrightarrow> n < length (frame_of rec) \<Longrightarrow>
   Replay_loop f \<lparr>rd_data = take n (frame_of rec), rd_err = None\<rparr> s = Inr s"
  using decodeFrame_torn [of rec n] by (auto intro: Replay_loop_end simp: log_end_def)

lemma Replay_loop_log:
  "\<forall>r \<in> set recs. fits r \<Longrightarrow>
   Replay_loop f \<lparr>rd_data = log_of recs, rd_err = None\<rparr> s = apply_all f recs s"
  using Replay_loop_log_append [of recs f "[]" None s]
  by (auto simp: Replay_loop_end [OF decodeFrame_empty] log_end_def split: sum.splits)

text \<open>The log cut at any byte: the frames that are complete are applied, the torn one is dropped.\<close>

fun complete :: "nat \<Rightarrow> bytes list \<Rightarrow> nat" where
  "complete k [] = 0"
| "complete k (r # rs) =
     (if length (frame_of r) \<le> k then Suc (complete (k - length (frame_of r)) rs) else 0)"

lemma Replay_loop_cut:
  "\<forall>r \<in> set recs. fits r \<Longrightarrow>
   Replay_loop f \<lparr>rd_data = take k (log_of recs), rd_err = None\<rparr> s = apply_all f (take (complete k recs) recs) s"
proof (induction recs arbitrary: k s)
  case Nil
  then show ?case by (simp add: Replay_loop_end [OF decodeFrame_empty] log_end_def)
next
  case (Cons r rs)
  show ?case
  proof (cases "length (frame_of r) \<le> k")
    case True
    with Cons show ?thesis by (auto simp: Replay_loop_frame split: sum.splits)
  next
    case False
    with Cons.prems show ?thesis by (simp add: Replay_loop_torn)
  qed
qed

lemma complete_le: "complete k recs \<le> length recs"
  by (induction k recs rule: complete.induct) auto

lemma complete_ge: "length (log_of (take m recs)) \<le> k \<Longrightarrow> m \<le> length recs \<Longrightarrow> m \<le> complete k recs"
proof (induction recs arbitrary: k m)
  case (Cons r rs)
  then show ?case by (cases m) (auto simp: Cons.IH)
qed simp


subsection \<open>Batches\<close>

definition all_written :: "(bytes \<times> write_outcome) list \<Rightarrow> bool" where
  "all_written reqs \<longleftrightarrow> (\<forall>(rec, wo) \<in> set reqs. wo = WriteOK)"

lemma all_written_simps [simp]:
  "all_written []" "all_written ((rec, wo) # reqs) \<longleftrightarrow> wo = WriteOK \<and> all_written reqs"
  by (auto simp: all_written_def)

lemma write_batch_ok:
  "all_written reqs \<Longrightarrow>
   write_batch reqs w =
     (None, w\<lparr>wal_file := wal_file w @ log_of (map fst reqs),
              wal_offset := wal_offset w + int (length (log_of (map fst reqs)))\<rparr>)"
  by (induction reqs arbitrary: w) (auto simp: all_written_def encodeFrame_frame_of)

lemma write_batch_None: "fst (write_batch reqs w) = None \<longleftrightarrow> all_written reqs"
proof (induction reqs arbitrary: w)
  case (Cons req reqs)
  obtain rec wo where "req = (rec, wo)" by (cases req)
  with Cons.IH show ?case by (cases wo) (simp_all add: encodeFrame_frame_of)
qed simp

lemma run_batch_ok:
  "all_written reqs \<Longrightarrow>
   run_batch reqs None w =
     (None, w\<lparr>wal_file := wal_file w @ log_of (map fst reqs),
              wal_offset := wal_offset w + int (length (log_of (map fst reqs))),
              wal_synced := length (wal_file w) + length (log_of (map fst reqs))\<rparr>)"
  by (simp add: run_batch_def write_batch_ok wal_Sync_def)

lemma run_batch_None: "fst (run_batch reqs so w) = None \<longleftrightarrow> all_written reqs \<and> so = None"
  using write_batch_None [of reqs w]
  by (auto simp: run_batch_def wal_Sync_def split: prod.splits option.splits)

text \<open>A batch only ever appends, and it never retracts what is durable.\<close>

lemma write_batch_extends:
  "\<exists>tail. wal_file (snd (write_batch reqs w)) = wal_file w @ tail \<and>
     wal_synced (snd (write_batch reqs w)) = wal_synced w"
proof (induction reqs w rule: write_batch.induct)
  case (2 rec wo reqs w)
  show ?case
  proof (cases wo)
    case WriteOK
    with 2 show ?thesis by (fastforce simp: encodeFrame_frame_of)
  next
    case (WriteErr n e)
    then show ?thesis by (simp add: encodeFrame_frame_of)
  qed
qed simp

lemma run_batch_error:
  assumes "run_batch reqs so w = (Some e, w')"
  shows "wal_synced w' = wal_synced w" and "\<exists>tail. wal_file w' = wal_file w @ tail"
  using assms write_batch_extends [of reqs w]
  by (auto simp: run_batch_def wal_Sync_def split: prod.splits option.splits)

lemma Append_ok:
  "Append rec io_ok w =
     (None, w\<lparr>wal_file := wal_file w @ frame_of rec,
              wal_offset := wal_offset w + int (length (frame_of rec)),
              wal_synced := length (wal_file w) + length (frame_of rec)\<rparr>)"
  by (simp add: Append_def io_ok_def run_batch_ok all_written_def)

lemma Append_None: "fst (Append rec i w) = None \<longleftrightarrow> i = io_ok"
  by (cases i) (simp add: Append_def run_batch_None all_written_def io_ok_def)

lemma Append_clean_failure:
  "io_write i = WriteErr 0 e \<Longrightarrow> Append rec i w = (Some e, w)"
  by (simp add: Append_def run_batch_def encodeFrame_frame_of)

subsection \<open>The interface of a durable log\<close>

text \<open>
  What the queue relies on. \<open>holds w rs\<close>: the log \<open>w\<close> holds exactly the records \<open>rs\<close>. A successful append adds
  one record at the end; replay applies the records in order. From these laws alone: to replay the
  extended log is to replay the old one and apply the new record.
\<close>

locale durable_log =
  fixes holds :: "'w \<Rightarrow> 'r list \<Rightarrow> bool"
    and append :: "'r \<Rightarrow> 'o \<Rightarrow> 'w \<Rightarrow> go_error option \<times> 'w"
    and ok :: "'r \<Rightarrow> bool"
    and replay :: "('r \<Rightarrow> 's \<Rightarrow> 's result) \<Rightarrow> 'w \<Rightarrow> 's \<Rightarrow> 's result"
  assumes append_holds:
      "holds w rs \<Longrightarrow> ok r \<Longrightarrow> append r i w = (None, w') \<Longrightarrow> holds w' (rs @ [r])"
    and replay_holds: "holds w rs \<Longrightarrow> replay f w s = apply_all f rs s"
begin

lemma replay_append:
  assumes "holds w rs" "ok r" "append r i w = (None, w')" "replay f w s = Inr s1"
  shows "replay f w' s = f r s1"
proof -
  have "apply_all f rs s = Inr s1" using assms(1,4) by (simp add: replay_holds)
  then have "apply_all f (rs @ [r]) s = f r s1" by (simp add: apply_all_append split: sum.splits)
  with append_holds [OF assms(1-3)] show ?thesis by (simp add: replay_holds)
qed

text \<open>An invariant of the record handler is an invariant of replay.\<close>

lemma replay_invariant:
  assumes "holds w rs" "replay f w s = Inr s'" "P s" "\<And>r s s'. P s \<Longrightarrow> f r s = Inr s' \<Longrightarrow> P s'"
  shows "P s'"
proof -
  have "apply_all f rs s = Inr s' \<Longrightarrow> P s \<Longrightarrow> P s'" for s
    by (induction rs arbitrary: s) (auto split: sum.splits intro: assms(4))
  with assms(1-3) show ?thesis by (simp add: replay_holds)
qed

end

definition log_holds :: "WAL \<Rightarrow> bytes list \<Rightarrow> bool" where
  "log_holds w recs \<longleftrightarrow> wal_file w = log_of recs \<and> wal_synced w = length (wal_file w) \<and>
     (\<forall>r \<in> set recs. fits r)"

definition replay_file :: "(bytes \<Rightarrow> 's \<Rightarrow> 's result) \<Rightarrow> WAL \<Rightarrow> 's \<Rightarrow> 's result" where
  "replay_file f w s = Replay None f \<lparr>rd_data = wal_file w, rd_err = None\<rparr> s"

interpretation walog: durable_log log_holds Append fits replay_file
proof (unfold_locales, goal_cases)
  case (1 w rs r i w')
  then have "i = io_ok" using Append_None [of r i w] by simp
  with 1 show ?case by (auto simp: Append_ok log_holds_def)
next
  case (2 w rs f s)
  then show ?case by (simp add: log_holds_def replay_file_def Replay_def Replay_loop_log)
qed

subsection \<open>Properties\<close>

text \<open>A handler to evaluate the properties with: it counts the bytes of the records.\<close>

definition count_bytes :: "bytes \<Rightarrow> nat \<Rightarrow> nat result" where
  "count_bytes r n = Inr (n + length r)"

text \<open>C20. Replaying a log is applying its records in order: the reader, the frame decoder and the loop of
  \<^verbatim>\<open>Replay\<close> together compute the plain fold over the records that were appended, stopping at the first
  error of the handler.\<close>

theorem replay_is_fold:
  assumes "\<forall>r \<in> set recs. fits r"
  shows "Replay None f \<lparr>rd_data = log_of recs, rd_err = None\<rparr> s = apply_all f recs s"
  using assms by (simp add: Replay_def Replay_loop_log)

theorem replay_is_fold_witness:
  "Replay None count_bytes \<lparr>rd_data = log_of [[1, 2], [], [3]], rd_err = None\<rparr> 0 = Inr 3"
  using replay_is_fold [of "[[1, 2], [], [3]]" count_bytes 0] by (simp add: fits_def count_bytes_def)

text \<open>C21. A log cut at any byte replays as a prefix of its records, without an error, and no record whose
  frame lies wholly before the cut is lost.\<close>

theorem replay_cut:
  assumes "\<forall>r \<in> set recs. fits r"
  shows "\<exists>n \<le> length recs. Replay None f \<lparr>rd_data = take k (log_of recs), rd_err = None\<rparr> s = apply_all f (take n recs) s \<and>
    (\<forall>m \<le> length recs. length (log_of (take m recs)) \<le> k \<longrightarrow> m \<le> n)"
  using assms complete_le [of k recs] complete_ge [of _ recs k]
  by (intro exI [of _ "complete k recs"]) (simp add: Replay_def Replay_loop_cut)

theorem replay_cut_witness:
  "\<exists>n \<le> length [[1, 2], [3 :: byte]].
     Replay None count_bytes \<lparr>rd_data = take 12 (log_of [[1, 2], [3]]), rd_err = None\<rparr> 0 =
       apply_all count_bytes (take n [[1, 2], [3]]) 0 \<and>
     (\<forall>m \<le> length [[1, 2], [3 :: byte]]. length (log_of (take m [[1, 2], [3]])) \<le> 12 \<longrightarrow> m \<le> n)"
  by (rule replay_cut) (simp add: fits_def)

text \<open>C22. A frame in whose record any one byte was changed is reported as corrupt, and replay ends there
  instead of applying the altered record.\<close>

theorem corrupt_byte_detected:
  assumes "fits (xs @ a # ys)" "a \<noteq> b"
  shows "Replay None f \<lparr>rd_data = take 8 (frame_of (xs @ a # ys)) @ (xs @ b # ys) @ rest, rd_err = None\<rparr> s = Inr s"
  by (simp add: Replay_def Replay_loop_end [OF decodeFrame_corrupt [OF assms]] log_end_def del: append_assoc)

theorem corrupt_byte_detected_witness:
  "Replay None count_bytes \<lparr>rd_data = take 8 (frame_of [1, 2, 3]) @ [1, 9, 3], rd_err = None\<rparr> 0 = Inr 0"
  using corrupt_byte_detected [of "[1]" 2 "[3]" 9 count_bytes "[]" 0] by (simp add: fits_def)

text \<open>One turn of the writer serves a batch as a whole: it reports success exactly when every write and
  the one fsync succeeded, and then the file ends with the frames of all requests in order, all of it
  durable; when it reports an error, what was durable before is unchanged and the file only grew.\<close>

lemma batch_outcome:
  "case run_batch reqs so w of
     (None, w') \<Rightarrow> all_written reqs \<and> so = None \<and> wal_file w' = wal_file w @ log_of (map fst reqs) \<and>
        wal_synced w' = length (wal_file w') \<and>
        wal_offset w' = wal_offset w + int (length (log_of (map fst reqs)))
   | (Some e, w') \<Rightarrow> \<not> (all_written reqs \<and> so = None) \<and> wal_synced w' = wal_synced w \<and>
        take (length (wal_file w)) (wal_file w') = wal_file w"
proof -
  obtain r w' where e: "run_batch reqs so w = (r, w')" by force
  show ?thesis
  proof (cases r)
    case None
    with e run_batch_None [of reqs so w] have "all_written reqs" "so = None" by simp_all
    with e None show ?thesis by (auto simp: run_batch_ok)
  next
    case (Some err)
    with e run_batch_None [of reqs so w] run_batch_error [of reqs so w err w'] show ?thesis by auto
  qed
qed

end
