(* ===== verification/Backoff.thy ===== *)
theory Backoff
  imports Prelude
begin

section \<open>Retry backoff (generateBackoff in queue.go)\<close>

text \<open>
  The backoff is computed in float64. \<^verbatim>\<open>rand.Float64()\<close> returns \<open>k / 2 ^ 53\<close> for an integer \<open>k\<close> with
  \<open>0 \<le> k < 2 ^ 53\<close>, the random draw and the input \<open>k\<close> of the model. The ceiling \<open>base * 2 ^ attempt\<close> and its
  cap are integers below \<open>2 ^ 53\<close> (or the product overflows the cap), so they are exact; the one
  rounding is in the product of the draw with the ceiling, which \<open>round53\<close> performs on the integer
  numerator: to 53 significant bits, to nearest, ties to even. The conversion to \<^verbatim>\<open>time.Duration\<close>
  truncates.
\<close>

definition baseDelay :: nat where
  "baseDelay = 10 ^ 9"

definition maxDelay :: nat where
  "maxDelay = 30 * 10 ^ 9"

fun bit_length :: "nat \<Rightarrow> nat" where
  "bit_length n = (if n = 0 then 0 else Suc (bit_length (n div 2)))"

declare bit_length.simps [simp del]

definition round53 :: "nat \<Rightarrow> nat" where
  "round53 n =
     (let b = bit_length n in
      if b \<le> 53 then n
      else let s = b - 53; q = n div 2 ^ s; r = n mod 2 ^ s; half = 2 ^ (s - 1)
           in (if r < half \<or> r = half \<and> even q then q else q + 1) * 2 ^ s)"

definition backoff_ceiling :: "nat \<Rightarrow> nat" where
  "backoff_ceiling attempt =
     (let e = baseDelay * 2 ^ attempt in if e > maxDelay then maxDelay else e)"

definition generateBackoff :: "int \<Rightarrow> nat \<Rightarrow> duration" where
  "generateBackoff retryAttempt k =
     (if 0 \<le> retryAttempt
      then int (round53 (k * backoff_ceiling (nat retryAttempt)) div 2 ^ 53)
      else int (round53 (k * baseDelay) div 2 ^ (53 + nat (- retryAttempt))))"

subsection \<open>Rounding\<close>

lemma bit_length_bounds: "0 < n \<Longrightarrow> 2 ^ (bit_length n - 1) \<le> n \<and> n < 2 ^ bit_length n \<and> 0 < bit_length n"
proof (induction n rule: bit_length.induct)
  case (1 n)
  show ?case
  proof (cases "n div 2 = 0")
    case True
    with 1 have "n = 1" by linarith
    then show ?thesis by (simp add: bit_length.simps)
  next
    case False
    then have pos: "0 < n div 2" by simp
    let ?b = "bit_length (n div 2)"
    have IH: "2 ^ (?b - 1) \<le> n div 2" "n div 2 < 2 ^ ?b" "0 < ?b"
      using 1 pos by auto
    have "bit_length n = Suc ?b" using 1 by (simp add: bit_length.simps [of n])
    moreover have half: "2 ^ ?b = 2 * (2::nat) ^ (?b - 1)"
      using IH(3) by (metis One_nat_def Suc_pred power_Suc)
    moreover have "2 ^ ?b \<le> n" "n < 2 * 2 ^ ?b"
      using IH half by linarith+
    ultimately show ?thesis by simp
  qed
qed

lemma round53_small: "n < 2 ^ 53 \<Longrightarrow> round53 n = n"
proof (cases "n = 0")
  case True
  then show ?thesis by (simp add: round53_def bit_length.simps)
next
  case False
  assume "n < 2 ^ 53"
  then have "(2::nat) ^ (bit_length n - 1) < 2 ^ 53"
    using False bit_length_bounds [of n] by linarith
  then have "bit_length n - 1 < 53"
    using power_less_imp_less_exp one_less_numeral_iff semiring_norm(76) by blast
  then have "bit_length n \<le> 53" by linarith
  then show ?thesis by (simp add: round53_def)
qed

lemma round53_near:
  assumes "53 < bit_length n"
  shows "round53 n \<le> n + 2 ^ (bit_length n - 54)"
proof -
  let ?s = "bit_length n - 53"
  let ?q = "n div 2 ^ ?s" and ?r = "n mod 2 ^ ?s" and ?h = "2 ^ (?s - 1) :: nat"
  have s: "2 ^ ?s = 2 * ?h" using assms by (metis power_Suc Suc_pred zero_less_diff One_nat_def)
  have n: "?q * 2 ^ ?s + ?r = n" by (rule div_mult_mod_eq)
  have "round53 n \<le> n + ?h"
  proof (cases "?r < ?h \<or> ?r = ?h \<and> even ?q")
    case True
    then have "round53 n = ?q * 2 ^ ?s" using assms by (simp add: round53_def Let_def)
    then show ?thesis using n by linarith
  next
    case False
    then have "round53 n = ?q * 2 ^ ?s + 2 ^ ?s" using assms by (simp add: round53_def Let_def)
    moreover have "?h \<le> ?r" using False by linarith
    ultimately show ?thesis using s n by linarith
  qed
  moreover have "?s - 1 = bit_length n - 54" by simp
  ultimately show ?thesis by simp
qed

lemma round53_product:
  assumes "k < 2 ^ 53" "0 < e"
  shows "round53 (k * e) < e * 2 ^ 53"
proof (cases "bit_length (k * e) \<le> 53")
  case True
  then have "round53 (k * e) = k * e" by (simp add: round53_def)
  with assms show ?thesis by (simp add: mult.commute)
next
  case False
  let ?n = "k * e"
  let ?s1 = "bit_length ?n - 54"
  have n0: "0 < ?n" using False by (cases "?n = 0") (simp_all add: bit_length.simps)
  have lt: "?n + e \<le> e * 2 ^ 53"
    using assms mult_le_mono1 [of "k + 1" "2 ^ 53" e] by (simp add: algebra_simps)
  have "2 ^ (bit_length ?n - 1) \<le> ?n" using bit_length_bounds [OF n0] by blast
  moreover have "bit_length ?n - 1 = ?s1 + 53" using False by simp
  ultimately have "2 ^ ?s1 * 2 ^ 53 \<le> ?n" by (metis power_add)
  then have "2 ^ ?s1 * 2 ^ 53 < e * 2 ^ 53" using lt assms(2) by linarith
  then have "2 ^ ?s1 < e" by simp
  with round53_near [of ?n] False lt show ?thesis by linarith
qed

lemma backoff_ceiling_pos: "0 < backoff_ceiling a"
  by (simp add: backoff_ceiling_def Let_def baseDelay_def maxDelay_def)

lemma backoff_ceiling_le: "backoff_ceiling a \<le> maxDelay"
  by (simp add: backoff_ceiling_def Let_def)

lemma generateBackoff_bounds:
  assumes "0 \<le> a" "k < 2 ^ 53"
  shows "0 \<le> generateBackoff a k" and "generateBackoff a k < int (backoff_ceiling (nat a))"
proof -
  show "0 \<le> generateBackoff a k" by (simp add: generateBackoff_def)
  have "round53 (k * backoff_ceiling (nat a)) < backoff_ceiling (nat a) * 2 ^ 53"
    using assms backoff_ceiling_pos by (intro round53_product)
  then have "round53 (k * backoff_ceiling (nat a)) div 2 ^ 53 < backoff_ceiling (nat a)"
    by (simp add: less_mult_imp_div_less)
  with assms show "generateBackoff a k < int (backoff_ceiling (nat a))"
    by (simp add: generateBackoff_def)
qed

text \<open>C24. The backoff before retry number \<open>a\<close> is not negative, is below one second doubled \<open>a\<close> times, and is below
  the cap of 30 seconds, whatever the random draw.\<close>

theorem backoff_within_bounds:
  assumes "0 \<le> a" "k < 2 ^ 53"
  shows "0 \<le> generateBackoff a k \<and> generateBackoff a k < 10 ^ 9 * 2 ^ nat a \<and> generateBackoff a k < 30 * 10 ^ 9"
proof -
  have "backoff_ceiling (nat a) \<le> 10 ^ 9 * 2 ^ nat a"
    by (simp add: backoff_ceiling_def Let_def baseDelay_def)
  then have "int (backoff_ceiling (nat a)) \<le> int (10 ^ 9 * 2 ^ nat a)" by (simp only: of_nat_le_iff)
  then have "int (backoff_ceiling (nat a)) \<le> 10 ^ 9 * 2 ^ nat a" by simp
  moreover have "int (backoff_ceiling (nat a)) \<le> 30 * 10 ^ 9"
    using backoff_ceiling_le [of "nat a"] by (simp add: maxDelay_def)
  ultimately show ?thesis using generateBackoff_bounds [OF assms] by linarith
qed

theorem backoff_within_bounds_witness:
  "0 \<le> generateBackoff 3 (2 ^ 53 - 1) \<and> generateBackoff 3 (2 ^ 53 - 1) < 8 * 10 ^ 9"
  using backoff_within_bounds [of 3 "2 ^ 53 - 1"] by simp

end
