(* ===== verification/Queue.thy ===== *)
theory Queue
  imports Ready_Heap Log_Record Wal Backoff
begin

section \<open>The queue (queue.go)\<close>

text \<open>
  The state of the queue and every operation of \<^verbatim>\<open>queue.go\<close> that runs under its mutex, as a function on the
  state. Tasks live in a memory \<open>q_tasks\<close> and are referred to by pointers, because the same
  \<^verbatim>\<open>*Task\<close> sits in the ready heap and in several maps and is mutated in place. \<open>indexOfIdemKeys\<close> holds
  \<^verbatim>\<open>&t.ID\<close>, represented by the pointer to the task whose \<^verbatim>\<open>ID\<close> field it addresses.

  What the run-time decides is an argument: the id \<^verbatim>\<open>uuid.New()\<close> returns, the readings of the clock, the
  random draws of the backoff, the outcome of the disk operations, and the order in which a map is
  iterated. An operation returns its result together with the new state, since a failed append may
  already have written bytes to the log.
\<close>

record Queue =
  q_tasks :: memory
  q_next :: ptr
  ready :: "ptr list"
  index :: "uuid \<rightharpoonup> ptr"
  indexOfInflight :: "uuid \<rightharpoonup> ptr"
  indexOfIdemKeys :: "string \<rightharpoonup> ptr"
  wal :: WAL
  visibilityTimeout :: duration
  sweepInterval :: duration
  maxRetries :: int
  dlq :: "uuid \<rightharpoonup> ptr"

definition set_task :: "ptr \<Rightarrow> Task \<Rightarrow> Queue \<Rightarrow> Queue" where
  "set_task p t q = q\<lparr>q_tasks := (q_tasks q)(p := t)\<rparr>"

definition heapPush :: "ptr \<Rightarrow> Queue \<Rightarrow> Queue" where
  "heapPush p q = q\<lparr>ready := heap_Push (readyHeap_Less (q_tasks q)) (ready q) p\<rparr>"

definition empty_queue :: "WAL \<Rightarrow> duration \<Rightarrow> duration \<Rightarrow> int \<Rightarrow> Queue" where
  "empty_queue w vis sweep maxr =
     \<lparr>q_tasks = (\<lambda>_. zero_Task), q_next = 0, ready = [], index = Map.empty,
      indexOfInflight = Map.empty, indexOfIdemKeys = Map.empty, wal = w, visibilityTimeout = vis,
      sweepInterval = sweep, maxRetries = maxr, dlq = Map.empty\<rparr>"

subsection \<open>Replaying a record\<close>

text \<open>The loop that drops the task with a given id from \<^verbatim>\<open>ready\<close>: the first one only.\<close>

fun remove_id :: "memory \<Rightarrow> uuid \<Rightarrow> ptr list \<Rightarrow> ptr list" where
  "remove_id st i [] = []"
| "remove_id st i (p # ps) = (if ID (st p) = i then ps else p # remove_id st i ps)"

fun applyEnqueue :: "EnqueuePayload \<Rightarrow> Queue \<Rightarrow> Queue result" where
  "applyEnqueue p q =
     (let t = zero_Task\<lparr>ID := enq_ID p, IdempotencyKey := enq_IdempotencyKey p,
                Payload := enq_Payload p, Status := StateReady, EnqueuedAt := enq_EnqueuedAt p,
                Priority := enq_Priority p\<rparr>;
          a = q_next q
      in if IdempotencyKey t \<noteq> [] \<and> indexOfIdemKeys q (IdempotencyKey t) \<noteq> None then Inr q
         else Inr (q\<lparr>q_tasks := (q_tasks q)(a := t), q_next := Suc a,
                     ready := ready q @ [a],
                     index := (index q)(ID t \<mapsto> a),
                     indexOfIdemKeys := (indexOfIdemKeys q)(IdempotencyKey t \<mapsto> a)\<rparr>))"

fun applyDequeue :: "DequeuePayload \<Rightarrow> Queue \<Rightarrow> Queue result" where
  "applyDequeue p q =
     (case index q (deq_ID p) of
        None \<Rightarrow> Inl NilDeref
      | Some a \<Rightarrow>
          Inr ((set_task a ((q_tasks q a)\<lparr>Status := StateInflight\<rparr>) q)
                \<lparr>indexOfInflight := (indexOfInflight q)(deq_ID p \<mapsto> a)\<rparr>))"

fun applyAck :: "AckPayload \<Rightarrow> Queue \<Rightarrow> Queue result" where
  "applyAck p q =
     Inr (q\<lparr>index := (index q)(ack_ID p := None),
            ready := remove_id (q_tasks q) (ack_ID p) (ready q)\<rparr>)"

fun applyRetry :: "time \<Rightarrow> RetryPayload \<Rightarrow> Queue \<Rightarrow> Queue result" where
  "applyRetry now p q =
     (case index q (retry_ID p) of
        None \<Rightarrow> Inl NilDeref
      | Some a \<Rightarrow>
          let t = q_tasks q a;
              t' = t\<lparr>Retries := Retries t + 1, Status := StateReady, AvailableAt := now\<rparr>
          in Inr ((set_task a t' q)
                   \<lparr>indexOfInflight := (indexOfInflight q)(ID t := None)\<rparr>))"

fun applyDead :: "DeadPayload \<Rightarrow> Queue \<Rightarrow> Queue result" where
  "applyDead p q =
     (case index q (dead_ID p) of
        None \<Rightarrow> Inl NilDeref
      | Some a \<Rightarrow>
          let t = q_tasks q a;
              t' = t\<lparr>Status := StateDead, Retries := dead_Retries p, FailedAt := dead_FailedAt p\<rparr>
          in Inr ((set_task a t' q)
                   \<lparr>ready := remove_id (q_tasks q) (ID t) (ready q),
                    dlq := (dlq q)(ID t \<mapsto> a),
                    indexOfInflight := (indexOfInflight q)(ID t := None),
                    index := (index q)(ID t := None)\<rparr>))"

fun applyRequeue :: "RequeuePayload \<Rightarrow> Queue \<Rightarrow> Queue result" where
  "applyRequeue p q =
     (case dlq q (requeue_ID p) of
        None \<Rightarrow> Inl NilDeref
      | Some a \<Rightarrow>
          let t' = (q_tasks q a)\<lparr>Status := StateReady, Retries := 0, AvailableAt := zeroTime,
                     FailedAt := zeroTime\<rparr>
          in Inr ((set_task a t' q)
                   \<lparr>dlq := (dlq q)(requeue_ID p := None),
                    index := (index q)(requeue_ID p \<mapsto> a),
                    ready := ready q @ [a]\<rparr>))"

fun applyPurge :: "PurgePayload \<Rightarrow> Queue \<Rightarrow> Queue result" where
  "applyPurge p q = Inr (q\<lparr>dlq := (dlq q)(purge_ID p := None)\<rparr>)"

text \<open>The switch on the tag with its type assertions; \<open>now\<close> is what \<^verbatim>\<open>time.Now()\<close> returns.\<close>

definition applyRecord :: "(bytes \<Rightarrow> uuid result) \<Rightarrow> time \<Rightarrow> bytes \<Rightarrow> Queue \<Rightarrow> Queue result" where
  "applyRecord fb now rec q =
     (case decodeRecord fb rec of
        Inl e \<Rightarrow> Inl e
      | Inr (op, pl) \<Rightarrow>
          if op = OperationEnqueue then (case pl of PEnqueue p \<Rightarrow> applyEnqueue p q | _ \<Rightarrow> Inl TypeAssertion)
          else if op = OperationDequeue then (case pl of PDequeue p \<Rightarrow> applyDequeue p q | _ \<Rightarrow> Inl TypeAssertion)
          else if op = OperationAck then (case pl of PAck p \<Rightarrow> applyAck p q | _ \<Rightarrow> Inl TypeAssertion)
          else if op = OperationRetry then (case pl of PRetry p \<Rightarrow> applyRetry now p q | _ \<Rightarrow> Inl TypeAssertion)
          else if op = OperationDead then (case pl of PDead p \<Rightarrow> applyDead p q | _ \<Rightarrow> Inl TypeAssertion)
          else if op = OperationRequeue then (case pl of PRequeue p \<Rightarrow> applyRequeue p q | _ \<Rightarrow> Inl TypeAssertion)
          else if op = OperationPurge then (case pl of PPurge p \<Rightarrow> applyPurge p q | _ \<Rightarrow> Inl TypeAssertion)
          else Inr q)"

text \<open>During replay the \<open>n\<close>-th record sees the clock reading \<open>clk n\<close>.\<close>

definition applyRecord_at ::
  "(bytes \<Rightarrow> uuid result) \<Rightarrow> (nat \<Rightarrow> time) \<Rightarrow> bytes \<Rightarrow> nat \<times> Queue \<Rightarrow> (nat \<times> Queue) result" where
  "applyRecord_at fb clk rec s =
     (case applyRecord fb (clk (fst s)) rec (snd s) of Inl e \<Rightarrow> Inl e | Inr q \<Rightarrow> Inr (Suc (fst s), q))"

text \<open>What opening the queue meets: errors of the two opens and of stat, a read error at the end of
  the data, and the bytes on disk.\<close>

record disk =
  d_open_err :: "go_error option"
  d_stat_err :: "go_error option"
  d_ropen_err :: "go_error option"
  d_read_err :: "go_error option"
  d_bytes :: bytes

definition disk_ok :: "bytes \<Rightarrow> disk" where
  "disk_ok b = \<lparr>d_open_err = None, d_stat_err = None, d_ropen_err = None, d_read_err = None, d_bytes = b\<rparr>"

definition NewQueue ::
  "(bytes \<Rightarrow> uuid result) \<Rightarrow> (nat \<Rightarrow> time) \<Rightarrow> disk \<Rightarrow> duration \<Rightarrow> duration \<Rightarrow> int \<Rightarrow> Queue result" where
  "NewQueue fb clk d vis sweep maxr =
     (case OpenWAL (d_open_err d) (d_stat_err d) (d_bytes d) of Inl e \<Rightarrow> Inl e | Inr w \<Rightarrow>
     (case Replay (d_ropen_err d) (applyRecord_at fb clk)
             \<lparr>rd_data = d_bytes d, rd_err = d_read_err d\<rparr> (0, empty_queue w vis sweep maxr) of
        Inl e \<Rightarrow> Inl e
      | Inr (_, q) \<Rightarrow> Inr (q\<lparr>ready := heap_Init (readyHeap_Less (q_tasks q)) (ready q)\<rparr>)))"

subsection \<open>Enqueue\<close>

text \<open>\<^verbatim>\<open>Enqueue\<close> has two critical sections around the append: the mutex is released while the record
  is written.\<close>

definition dedup :: "string \<Rightarrow> Queue \<Rightarrow> uuid option" where
  "dedup idemKey q =
     (if idemKey \<noteq> [] then map_option (\<lambda>p. ID (q_tasks q p)) (indexOfIdemKeys q idemKey) else None)"

definition new_task :: "uuid \<Rightarrow> time \<Rightarrow> bytes \<Rightarrow> string \<Rightarrow> Task" where
  "new_task i now pl idemKey =
     zero_Task\<lparr>ID := i, IdempotencyKey := idemKey, Payload := pl, Status := StateReady,
       EnqueuedAt := now\<rparr>"

definition enqueue_record :: "Task \<Rightarrow> bytes result" where
  "enqueue_record t =
     (case encodeEnqueuePayload \<lparr>enq_ID = ID t, enq_IdempotencyKey = IdempotencyKey t,
             enq_Payload = Payload t, enq_EnqueuedAt = EnqueuedAt t, enq_Priority = Priority t\<rparr> of
        Inl e \<Rightarrow> Inl e
      | Inr flds \<Rightarrow> Inr (encodeRecord OperationEnqueue flds))"

definition enqueue_publish :: "Task \<Rightarrow> Queue \<Rightarrow> uuid \<times> Queue" where
  "enqueue_publish t q =
     (case dedup (IdempotencyKey t) q of
        Some existing \<Rightarrow> (existing, q)
      | None \<Rightarrow>
          let a = q_next q;
              q1 = heapPush a (q\<lparr>q_tasks := (q_tasks q)(a := t), q_next := Suc a\<rparr>)
          in (ID t, q1\<lparr>index := (index q1)(ID t \<mapsto> a),
                       indexOfIdemKeys := (indexOfIdemKeys q1)(IdempotencyKey t \<mapsto> a)\<rparr>))"

definition Enqueue :: "uuid \<Rightarrow> time \<Rightarrow> io \<Rightarrow> bytes \<Rightarrow> string \<Rightarrow> Queue \<Rightarrow> uuid result \<times> Queue" where
  "Enqueue new now i pl idemKey q =
     (case dedup idemKey q of
        Some existing \<Rightarrow> (Inr existing, q)
      | None \<Rightarrow>
          let t = new_task new now pl idemKey
          in case enqueue_record t of
               Inl e \<Rightarrow> (Inl e, q)
             | Inr rec \<Rightarrow>
                 (case Append rec i (wal q) of
                    (Some e, w) \<Rightarrow> (Inl e, q\<lparr>wal := w\<rparr>)
                  | (None, w) \<Rightarrow>
                      (case enqueue_publish t (q\<lparr>wal := w\<rparr>) of (r, q') \<Rightarrow> (Inr r, q'))))"

subsection \<open>Dequeue, Ack, Retry\<close>

definition lease :: "time \<Rightarrow> ptr \<Rightarrow> Queue \<Rightarrow> Queue" where
  "lease now p q =
     (set_task p ((q_tasks q p)\<lparr>Status := StateInflight, LeaseUntil := now + visibilityTimeout q\<rparr>) q)
       \<lparr>indexOfInflight := (indexOfInflight q)(ID (q_tasks q p) \<mapsto> p)\<rparr>"

definition Dequeue :: "time \<Rightarrow> Queue \<Rightarrow> ptr option \<times> Queue" where
  "Dequeue now q =
     (if ready q = [] \<or> now < AvailableAt (q_tasks q (hd (ready q))) then (None, q)
      else case heap_Pop (readyHeap_Less (q_tasks q)) (ready q) of
             None \<Rightarrow> (None, q)
           | Some (p, rest) \<Rightarrow> (Some p, lease now p (q\<lparr>ready := rest\<rparr>)))"

text \<open>The write-ahead pattern of every logged operation: encode the fields, append the record, and only
  when it is durable change the memory (\<open>eff\<close>).\<close>

definition logged ::
  "bytes result \<Rightarrow> OperationType \<Rightarrow> io \<Rightarrow> (Queue \<Rightarrow> Queue) \<Rightarrow> Queue \<Rightarrow> go_error option \<times> Queue" where
  "logged enc op i eff q =
     (case enc of
        Inl e \<Rightarrow> (Some e, q)
      | Inr flds \<Rightarrow>
          (case Append (encodeRecord op flds) i (wal q) of
             (Some e, w) \<Rightarrow> (Some e, q\<lparr>wal := w\<rparr>)
           | (None, w) \<Rightarrow> (None, eff (q\<lparr>wal := w\<rparr>))))"

definition ack_done :: "uuid \<Rightarrow> ptr \<Rightarrow> Queue \<Rightarrow> Queue" where
  "ack_done id0 p q =
     (set_task p ((q_tasks q p)\<lparr>Status := StateDone\<rparr>) q)
       \<lparr>indexOfInflight := (indexOfInflight q)(id0 := None), index := (index q)(id0 := None)\<rparr>"

definition Ack :: "io \<Rightarrow> uuid \<Rightarrow> Queue \<Rightarrow> go_error option \<times> Queue" where
  "Ack i id0 q =
     (case index q id0 of
        None \<Rightarrow> (Some (ErrNotFound id0), q)
      | Some p \<Rightarrow> logged (encodeAckPayload \<lparr>ack_ID = id0\<rparr>) OperationAck i (ack_done id0 p) q)"

text \<open>The two outcomes of \<^verbatim>\<open>retryLocked\<close>: the task dies, or goes back to the ready heap. Both end with the
  common tail that counts the retry and ends the lease.\<close>

definition retry_tail :: "uuid \<Rightarrow> ptr \<Rightarrow> Queue \<Rightarrow> Queue" where
  "retry_tail id0 p q =
     (set_task p ((q_tasks q p)\<lparr>Retries := Retries (q_tasks q p) + 1\<rparr>) q)
       \<lparr>indexOfInflight := (indexOfInflight q)(id0 := None)\<rparr>"

definition die :: "time \<Rightarrow> uuid \<Rightarrow> ptr \<Rightarrow> Queue \<Rightarrow> Queue" where
  "die failedAt id0 p q =
     retry_tail id0 p
       ((set_task p ((q_tasks q p)\<lparr>Status := StateDead, FailedAt := failedAt\<rparr>) q)
          \<lparr>dlq := (dlq q)(id0 \<mapsto> p), index := (index q)(id0 := None)\<rparr>)"

definition back_to_ready :: "time \<Rightarrow> nat \<Rightarrow> uuid \<Rightarrow> ptr \<Rightarrow> Queue \<Rightarrow> Queue" where
  "back_to_ready now rnd id0 p q =
     retry_tail id0 p
       (heapPush p
         (set_task p ((q_tasks q p)\<lparr>Status := StateReady,
            AvailableAt := now + generateBackoff (Retries (q_tasks q p)) rnd\<rparr>) q))"

text \<open>\<open>now\<close> is the clock reading \<^verbatim>\<open>retryLocked\<close> takes (the failure time, or the base of the backoff), \<open>rnd\<close> the
  random draw of the backoff.\<close>

definition retryLocked :: "time \<Rightarrow> nat \<Rightarrow> io \<Rightarrow> uuid \<Rightarrow> Queue \<Rightarrow> go_error option \<times> Queue" where
  "retryLocked now rnd i id0 q =
     (case index q id0 of
        None \<Rightarrow> (Some (ErrNotFound id0), q)
      | Some p \<Rightarrow>
          let t = q_tasks q p in
          if Retries t + 1 > maxRetries q then
            logged (encodeDeadPayload \<lparr>dead_ID = id0, dead_Retries = Retries t + 1, dead_FailedAt = now\<rparr>)
              OperationDead i (die now id0 p) q
          else
            logged (encodeRetryPayload \<lparr>retry_ID = id0\<rparr>)
              OperationRetry i (back_to_ready now rnd id0 p) q)"

definition Retry :: "time \<Rightarrow> nat \<Rightarrow> io \<Rightarrow> uuid \<Rightarrow> Queue \<Rightarrow> go_error option \<times> Queue" where
  "Retry now rnd i id0 q = retryLocked now rnd i id0 q"

subsection \<open>The lease sweeper\<close>

text \<open>One iteration of the loop over \<^verbatim>\<open>indexOfInflight\<close>: the key the run-time produces next, the clock reading
  of the lease check, and what a retry would see. A key that was deleted meanwhile is not produced.\<close>

record sweep_input =
  sw_id :: uuid
  sw_check :: time
  sw_now :: time
  sw_rnd :: nat
  sw_io :: io

fun Sweeper :: "sweep_input list \<Rightarrow> Queue \<Rightarrow> go_error option \<times> Queue" where
  "Sweeper [] q = (None, q)"
| "Sweeper (s # ss) q =
     (case indexOfInflight q (sw_id s) of
        None \<Rightarrow> Sweeper ss q
      | Some p \<Rightarrow>
          if LeaseUntil (q_tasks q p) < sw_check s then
            (case retryLocked (sw_now s) (sw_rnd s) (sw_io s) (sw_id s) q of
               (Some e, q') \<Rightarrow> (Some e, q')
             | (None, q') \<Rightarrow> Sweeper ss q')
          else Sweeper ss q)"

subsection \<open>The dead-letter queue\<close>

text \<open>\<open>order\<close> is the order in which the run-time iterates the map. \<^verbatim>\<open>sort.Slice\<close> leaves ties in an
  unspecified order; a stable sort of an arbitrary iteration order gives every possible result.\<close>

definition ListDeadTasks :: "uuid list \<Rightarrow> Queue \<Rightarrow> Task list" where
  "ListDeadTasks order q =
     sort_key (\<lambda>t. - FailedAt t)
       (map (\<lambda>i. q_tasks q (the (dlq q i))) (filter (\<lambda>i. dlq q i \<noteq> None) order))"

definition DeadTask :: "uuid \<Rightarrow> Queue \<Rightarrow> Task result" where
  "DeadTask id0 q =
     (case dlq q id0 of None \<Rightarrow> Inl (ErrNotFoundDLQ id0) | Some p \<Rightarrow> Inr (q_tasks q p))"

definition DLQLen :: "Queue \<Rightarrow> nat" where
  "DLQLen q = card (dom (dlq q))"

definition revive :: "uuid \<Rightarrow> ptr \<Rightarrow> Queue \<Rightarrow> Queue" where
  "revive id0 p q =
     heapPush p
       ((set_task p ((q_tasks q p)\<lparr>Status := StateReady, Retries := 0, AvailableAt := zeroTime,
            FailedAt := zeroTime\<rparr>) q)
          \<lparr>dlq := (dlq q)(id0 := None), index := (index q)(id0 \<mapsto> p)\<rparr>)"

definition RequeueDead :: "io \<Rightarrow> uuid \<Rightarrow> Queue \<Rightarrow> go_error option \<times> Queue" where
  "RequeueDead i id0 q =
     (case dlq q id0 of
        None \<Rightarrow> (Some (ErrNotFoundDLQ id0), q)
      | Some p \<Rightarrow>
          logged (encodeRequeuePayload \<lparr>requeue_ID = id0\<rparr>) OperationRequeue i (revive id0 p) q)"

definition purge_done :: "uuid \<Rightarrow> Queue \<Rightarrow> Queue" where
  "purge_done id0 q = q\<lparr>dlq := (dlq q)(id0 := None)\<rparr>"

definition PurgeDeadTask :: "io \<Rightarrow> uuid \<Rightarrow> Queue \<Rightarrow> go_error option \<times> Queue" where
  "PurgeDeadTask i id0 q =
     (case dlq q id0 of
        None \<Rightarrow> (Some (ErrNotFoundDLQ id0), q)
      | Some p \<Rightarrow>
          logged (encodePurgePayload \<lparr>purge_ID = id0\<rparr>) OperationPurge i (purge_done id0) q)"

subsection \<open>Runs\<close>

text \<open>A call of the interface together with everything the run-time decides for it.\<close>

datatype call =
    CEnqueue uuid time io bytes string
  | CDequeue time
  | CAck io uuid
  | CRetry time nat io uuid
  | CSweep "sweep_input list"
  | CRequeue io uuid
  | CPurge io uuid

fun exec :: "call \<Rightarrow> Queue \<Rightarrow> Queue" where
  "exec (CEnqueue new now i pl k) q = snd (Enqueue new now i pl k q)"
| "exec (CDequeue now) q = snd (Dequeue now q)"
| "exec (CAck i id0) q = snd (Ack i id0 q)"
| "exec (CRetry now rnd i id0) q = snd (Retry now rnd i id0 q)"
| "exec (CSweep ss) q = snd (Sweeper ss q)"
| "exec (CRequeue i id0) q = snd (RequeueDead i id0 q)"
| "exec (CPurge i id0) q = snd (PurgeDeadTask i id0 q)"

text \<open>The id a call mints is new: no task ever allocated carries it (what \<^verbatim>\<open>uuid.New\<close> promises).\<close>

definition fresh :: "uuid \<Rightarrow> Queue \<Rightarrow> bool" where
  "fresh i q \<longleftrightarrow> (\<forall>p < q_next q. ID (q_tasks q p) \<noteq> i)"

fun mints_fresh :: "call \<Rightarrow> Queue \<Rightarrow> bool" where
  "mints_fresh (CEnqueue new now i pl k) q = fresh new q"
| "mints_fresh _ q = True"

end
