(* ===== verification/Queue_Inv.thy ===== *)
theory Queue_Inv
  imports Queue
begin

section \<open>Invariants of the queue\<close>

text \<open>
  \<open>queue_ok\<close> holds in every state the interface can reach, whatever the clients do: the maps point to
  allocated tasks with the right id and key, ids are unique, a task is never live and dead at once,
  every live task is in the ready heap or leased, and a non-empty idempotency key belongs to one task.

  \<open>queue_wf\<close> is the stronger invariant of clients that acknowledge or retry only what they hold on lease: the
  ready heap holds exactly the live tasks without a lease, each once, in heap order, and the
  \<^verbatim>\<open>Status\<close> field agrees with the collections.
\<close>

lemmas effect_defs = set_task_def heapPush_def lease_def ack_done_def retry_tail_def die_def
  back_to_ready_def revive_def purge_done_def

subsection \<open>The logged operations fail closed\<close>

text \<open>The log after a failed operation: untouched, or what a failed append left of it.\<close>

definition log_after_error :: "io \<Rightarrow> WAL \<Rightarrow> WAL \<Rightarrow> bool" where
  "log_after_error i w w' \<longleftrightarrow> w' = w \<or> (\<exists>rec e. Append rec i w = (Some e, w'))"

lemma log_after_error_refl [simp]: "log_after_error i w w"
  by (simp add: log_after_error_def)

lemma logged_cases:
  assumes "logged enc op i eff q = (r, q')"
  obtains (failed) e w where "r = Some e" "q' = q\<lparr>wal := w\<rparr>" "log_after_error i (wal q) w"
  | (success) flds w where "enc = Inr flds" "Append (encodeRecord op flds) i (wal q) = (None, w)"
      "r = None" "q' = eff (q\<lparr>wal := w\<rparr>)"
proof (cases enc)
  case (Inl e)
  with assms have "r = Some e" "q' = q\<lparr>wal := wal q\<rparr>" by (simp_all add: logged_def)
  then show ?thesis by (rule failed) simp
next
  case (Inr flds)
  obtain e w where a: "Append (encodeRecord op flds) i (wal q) = (e, w)" by force
  show ?thesis
  proof (cases e)
    case None
    with a Inr assms show ?thesis by (intro success [of flds w]) (auto simp: logged_def)
  next
    case (Some e')
    with a Inr assms show ?thesis by (intro failed [of e' w]) (auto simp: logged_def log_after_error_def)
  qed
qed

lemma Ack_cases:
  assumes "Ack i id0 q = (r, q')"
  obtains (error) e w where "r = Some e" "q' = q\<lparr>wal := w\<rparr>" "log_after_error i (wal q) w"
  | (success) p w where "index q id0 = Some p" "r = None" "q' = ack_done id0 p (q\<lparr>wal := w\<rparr>)"
      "Append (encodeRecord OperationAck (uuid_bytes id0)) i (wal q) = (None, w)"
proof (cases "index q id0")
  case None
  with assms have "r = Some (ErrNotFound id0)" "q' = q\<lparr>wal := wal q\<rparr>" by (simp_all add: Ack_def)
  then show ?thesis by (rule error) simp
next
  case (Some p)
  with assms have "logged (encodeAckPayload \<lparr>ack_ID = id0\<rparr>) OperationAck i (ack_done id0 p) q = (r, q')"
    by (simp add: Ack_def)
  then show ?thesis
    by (cases rule: logged_cases) (auto intro: error success [OF Some] simp: encodeAckPayload_def)
qed

lemma retryLocked_cases:
  assumes "retryLocked now rnd i id0 q = (r, q')"
  obtains (error) e w where "r = Some e" "q' = q\<lparr>wal := w\<rparr>" "log_after_error i (wal q) w"
  | (dead) p w where "index q id0 = Some p" "Retries (q_tasks q p) + 1 > maxRetries q" "r = None"
      "q' = die now id0 p (q\<lparr>wal := w\<rparr>)"
      "Append (encodeRecord OperationDead (uuid_bytes id0
         @ putUint32 (word_of_int (Retries (q_tasks q p) + 1)) @ putUint64 (UnixNano now))) i (wal q) = (None, w)"
  | (again) p w where "index q id0 = Some p" "Retries (q_tasks q p) + 1 \<le> maxRetries q" "r = None"
      "q' = back_to_ready now rnd id0 p (q\<lparr>wal := w\<rparr>)"
      "Append (encodeRecord OperationRetry (uuid_bytes id0)) i (wal q) = (None, w)"
proof (cases "index q id0")
  case None
  with assms have "r = Some (ErrNotFound id0)" "q' = q\<lparr>wal := wal q\<rparr>" by (simp_all add: retryLocked_def)
  then show ?thesis by (rule error) simp
next
  case (Some p)
  show ?thesis
  proof (cases "Retries (q_tasks q p) + 1 > maxRetries q")
    case True
    with Some assms have "logged (encodeDeadPayload \<lparr>dead_ID = id0,
          dead_Retries = Retries (q_tasks q p) + 1, dead_FailedAt = now\<rparr>) OperationDead i (die now id0 p) q = (r, q')"
      by (simp add: retryLocked_def Let_def)
    then show ?thesis
      by (cases rule: logged_cases) (auto intro: error dead [OF Some True] simp: encodeDeadPayload_def)
  next
    case False
    with Some assms have "logged (encodeRetryPayload \<lparr>retry_ID = id0\<rparr>) OperationRetry i
        (back_to_ready now rnd id0 p) q = (r, q')"
      by (simp add: retryLocked_def Let_def)
    then show ?thesis using False
      by (cases rule: logged_cases) (auto intro: error again [OF Some] simp: encodeRetryPayload_def)
  qed
qed

lemma RequeueDead_cases:
  assumes "RequeueDead i id0 q = (r, q')"
  obtains (error) e w where "r = Some e" "q' = q\<lparr>wal := w\<rparr>" "log_after_error i (wal q) w"
  | (success) p w where "dlq q id0 = Some p" "r = None" "q' = revive id0 p (q\<lparr>wal := w\<rparr>)"
      "Append (encodeRecord OperationRequeue (uuid_bytes id0)) i (wal q) = (None, w)"
proof (cases "dlq q id0")
  case None
  with assms have "r = Some (ErrNotFoundDLQ id0)" "q' = q\<lparr>wal := wal q\<rparr>"
    by (simp_all add: RequeueDead_def)
  then show ?thesis by (rule error) simp
next
  case (Some p)
  with assms have "logged (encodeRequeuePayload \<lparr>requeue_ID = id0\<rparr>) OperationRequeue i (revive id0 p) q = (r, q')"
    by (simp add: RequeueDead_def)
  then show ?thesis
    by (cases rule: logged_cases) (auto intro: error success [OF Some] simp: encodeRequeuePayload_def)
qed

lemma PurgeDeadTask_cases:
  assumes "PurgeDeadTask i id0 q = (r, q')"
  obtains (error) e w where "r = Some e" "q' = q\<lparr>wal := w\<rparr>" "log_after_error i (wal q) w"
  | (success) p w where "dlq q id0 = Some p" "r = None" "q' = purge_done id0 (q\<lparr>wal := w\<rparr>)"
      "Append (encodeRecord OperationPurge (uuid_bytes id0)) i (wal q) = (None, w)"
proof (cases "dlq q id0")
  case None
  with assms have "r = Some (ErrNotFoundDLQ id0)" "q' = q\<lparr>wal := wal q\<rparr>"
    by (simp_all add: PurgeDeadTask_def)
  then show ?thesis by (rule error) simp
next
  case (Some p)
  with assms have "logged (encodePurgePayload \<lparr>purge_ID = id0\<rparr>) OperationPurge i (purge_done id0) q = (r, q')"
    by (simp add: PurgeDeadTask_def)
  then show ?thesis
    by (cases rule: logged_cases) (auto intro: error success [OF Some] simp: encodePurgePayload_def)
qed

text \<open>\<open>enqueue_add\<close>: what \<^verbatim>\<open>Enqueue\<close> does once its record is durable and its key is still unseen.\<close>

definition enqueue_add :: "Task \<Rightarrow> Queue \<Rightarrow> Queue" where
  "enqueue_add t q =
     (let a = q_next q;
          q1 = heapPush a (q\<lparr>q_tasks := (q_tasks q)(a := t), q_next := Suc a\<rparr>)
      in q1\<lparr>index := (index q1)(ID t \<mapsto> a),
            indexOfIdemKeys := (indexOfIdemKeys q1)(IdempotencyKey t \<mapsto> a)\<rparr>)"

lemma dedup_wal [simp]: "dedup k (q\<lparr>wal := w\<rparr>) = dedup k q"
  by (simp add: dedup_def)

lemma new_task_simps [simp]:
  "ID (new_task new now pl k) = new" "IdempotencyKey (new_task new now pl k) = k"
  "Payload (new_task new now pl k) = pl" "Status (new_task new now pl k) = StateReady"
  "EnqueuedAt (new_task new now pl k) = now" "Retries (new_task new now pl k) = 0"
  "Priority (new_task new now pl k) = 0" "AvailableAt (new_task new now pl k) = zeroTime"
  by (simp_all add: new_task_def zero_Task_def)

definition enqueue_payload :: "Task \<Rightarrow> EnqueuePayload" where
  "enqueue_payload t = \<lparr>enq_ID = ID t, enq_IdempotencyKey = IdempotencyKey t, enq_Payload = Payload t,
     enq_EnqueuedAt = EnqueuedAt t, enq_Priority = Priority t\<rparr>"

lemma Enqueue_cases:
  assumes "Enqueue new now i pl k q = (r, q')"
  obtains (dup) p where "k \<noteq> []" "indexOfIdemKeys q k = Some p" "r = Inr (ID (q_tasks q p))" "q' = q"
  | (error) e w where "r = Inl e" "q' = q\<lparr>wal := w\<rparr>" "log_after_error i (wal q) w"
  | (success) flds w where "dedup k q = None" "r = Inr new"
      "q' = enqueue_add (new_task new now pl k) (q\<lparr>wal := w\<rparr>)"
      "encodeEnqueuePayload (enqueue_payload (new_task new now pl k)) = Inr flds"
      "Append (encodeRecord OperationEnqueue flds) i (wal q) = (None, w)"
proof (cases "dedup k q")
  case (Some u)
  then obtain p where p: "k \<noteq> []" "indexOfIdemKeys q k = Some p" "u = ID (q_tasks q p)"
    by (auto simp: dedup_def split: if_splits)
  with Some assms have "r = Inr (ID (q_tasks q p))" "q' = q" by (auto simp: Enqueue_def)
  with p(1,2) show ?thesis by (rule dup)
next
  case None
  let ?t = "new_task new now pl k"
  obtain flds where f: "encodeEnqueuePayload (enqueue_payload ?t) = Inr flds"
    by (simp add: encodeEnqueuePayload_def)
  then have rec: "enqueue_record ?t = Inr (encodeRecord OperationEnqueue flds)"
    by (simp add: enqueue_record_def enqueue_payload_def)
  obtain e w where a: "Append (encodeRecord OperationEnqueue flds) i (wal q) = (e, w)" by force
  show ?thesis
  proof (cases e)
    case (Some e')
    with None rec a assms show ?thesis by (intro error [of e' w]) (auto simp: Enqueue_def Let_def log_after_error_def)
  next
    case no_err: None
    with None rec a assms have "r = Inr new" "q' = enqueue_add ?t (q\<lparr>wal := w\<rparr>)"
      by (auto simp: Enqueue_def Let_def enqueue_publish_def enqueue_add_def)
    with None f a no_err show ?thesis by (intro success) simp_all
  qed
qed


text \<open>A failed operation leaves the memory alone, keeps what is durable, and the file at most grows.\<close>

definition fails_closed :: "Queue \<Rightarrow> Queue \<Rightarrow> bool" where
  "fails_closed q q' \<longleftrightarrow> q' = q\<lparr>wal := wal q'\<rparr> \<and> wal_synced (wal q') = wal_synced (wal q) \<and>
     take (length (wal_file (wal q))) (wal_file (wal q')) = wal_file (wal q)"

lemma fails_closedI:
  assumes "q' = q\<lparr>wal := w\<rparr>" "log_after_error i (wal q) w"
  shows "fails_closed q q'"
proof -
  have "wal_synced w = wal_synced (wal q) \<and> (\<exists>tail. wal_file w = wal_file (wal q) @ tail)"
    using assms(2) run_batch_error [of _ "io_sync i" "wal q"] by (auto simp: log_after_error_def Append_def)
  with assms(1) show ?thesis by (auto simp: fails_closed_def)
qed

subsection \<open>The invariant of every client\<close>

text \<open>\<open>points m q\<close>: every pointer in the map \<open>m\<close> is allocated and its task carries the id it is filed
  under. \<open>same_ids\<close>: the same tasks are allocated, with the same ids and keys.\<close>

definition points :: "(uuid \<rightharpoonup> ptr) \<Rightarrow> Queue \<Rightarrow> bool" where
  "points m q \<longleftrightarrow> (\<forall>i p. m i = Some p \<longrightarrow> p < q_next q \<and> ID (q_tasks q p) = i)"

definition keys_ok :: "Queue \<Rightarrow> bool" where
  "keys_ok q \<longleftrightarrow>
     (\<forall>k p. indexOfIdemKeys q k = Some p \<longrightarrow> p < q_next q \<and> IdempotencyKey (q_tasks q p) = k) \<and>
     (\<forall>p < q_next q. IdempotencyKey (q_tasks q p) \<noteq> [] \<longrightarrow>
        indexOfIdemKeys q (IdempotencyKey (q_tasks q p)) = Some p)"

definition unique_ids :: "Queue \<Rightarrow> bool" where
  "unique_ids q \<longleftrightarrow>
     (\<forall>p < q_next q. \<forall>p' < q_next q. ID (q_tasks q p) = ID (q_tasks q p') \<longrightarrow> p = p')"

definition ready_ok :: "Queue \<Rightarrow> bool" where
  "ready_ok q \<longleftrightarrow> (\<forall>p \<in> set (ready q). p < q_next q)"

definition no_loss :: "Queue \<Rightarrow> bool" where
  "no_loss q \<longleftrightarrow> (\<forall>i p. index q i = Some p \<longrightarrow> p \<in> set (ready q) \<or> indexOfInflight q i = Some p)"

definition live_xor_dead :: "Queue \<Rightarrow> bool" where
  "live_xor_dead q \<longleftrightarrow> (\<forall>i. index q i = None \<or> dlq q i = None)"

definition queue_ok :: "Queue \<Rightarrow> bool" where
  "queue_ok q \<longleftrightarrow>
     points (index q) q \<and> points (dlq q) q \<and> points (indexOfInflight q) q \<and> keys_ok q \<and>
     unique_ids q \<and> ready_ok q \<and> no_loss q \<and> live_xor_dead q"

definition same_ids :: "Queue \<Rightarrow> Queue \<Rightarrow> bool" where
  "same_ids q q' \<longleftrightarrow> q_next q' = q_next q \<and> indexOfIdemKeys q' = indexOfIdemKeys q \<and>
     (\<forall>p. ID (q_tasks q' p) = ID (q_tasks q p) \<and>
          IdempotencyKey (q_tasks q' p) = IdempotencyKey (q_tasks q p))"

lemma same_ids_effects [simp]:
  "same_ids q (q\<lparr>wal := w\<rparr>)" "same_ids q (lease now p (q\<lparr>ready := rest\<rparr>))"
  "same_ids q (ack_done id0 p q)" "same_ids q (die now id0 p q)"
  "same_ids q (back_to_ready now rnd id0 p q)" "same_ids q (revive id0 p q)"
  "same_ids q (purge_done id0 q)"
  by (simp_all add: same_ids_def effect_defs)

lemma points_same: "same_ids q q' \<Longrightarrow> points m q' = points m q"
  by (simp add: same_ids_def points_def)

lemma keys_ok_same: "same_ids q q' \<Longrightarrow> keys_ok q' = keys_ok q"
  by (simp add: same_ids_def keys_ok_def)

lemma unique_ids_same: "same_ids q q' \<Longrightarrow> unique_ids q' = unique_ids q"
  by (simp add: same_ids_def unique_ids_def)

lemma points_update [simp]:
  "points m q \<Longrightarrow> points (m(i := None)) q"
  "points m q \<Longrightarrow> p < q_next q \<Longrightarrow> ID (q_tasks q p) = i \<Longrightarrow> points (m(i \<mapsto> p)) q"
  by (simp_all add: points_def)

text \<open>The rule by which an effect keeps the invariant: it changes no id, files pointers under their
  ids, and keeps every live task reachable.\<close>

lemma queue_okI:
  assumes "queue_ok q" "same_ids q q'"
    and "points (index q') q" "points (dlq q') q" "points (indexOfInflight q') q"
    and "\<And>p. p \<in> set (ready q') \<Longrightarrow> p < q_next q"
    and "no_loss q'" "live_xor_dead q'"
  shows "queue_ok q'"
proof -
  have "q_next q' = q_next q" using assms(2) by (simp add: same_ids_def)
  with assms show ?thesis
    by (simp add: queue_ok_def points_same keys_ok_same unique_ids_same ready_ok_def)
qed

lemma queue_okD:
  assumes "queue_ok q"
  shows "index q i = Some p \<Longrightarrow> p < q_next q" "index q i = Some p \<Longrightarrow> ID (q_tasks q p) = i"
    and "dlq q i = Some p \<Longrightarrow> p < q_next q" "dlq q i = Some p \<Longrightarrow> ID (q_tasks q p) = i"
    and "indexOfInflight q i = Some p \<Longrightarrow> p < q_next q"
    and "indexOfInflight q i = Some p \<Longrightarrow> ID (q_tasks q p) = i"
    and "p \<in> set (ready q) \<Longrightarrow> p < q_next q"
    and "index q i = Some p \<Longrightarrow> dlq q i = None" "dlq q i = Some p \<Longrightarrow> index q i = None"
    and "p < q_next q \<Longrightarrow> p' < q_next q \<Longrightarrow> ID (q_tasks q p) = ID (q_tasks q p') \<Longrightarrow> p = p'"
    and "index q i = Some p \<Longrightarrow> p \<in> set (ready q) \<or> indexOfInflight q i = Some p"
  using assms unfolding queue_ok_def points_def ready_ok_def live_xor_dead_def unique_ids_def no_loss_def
  by (blast, blast, blast, blast, blast, blast, blast, metis option.distinct(1),
      metis option.distinct(1), blast, blast)

lemma queue_okD_points:
  assumes "queue_ok q"
  shows "points (index q) q" "points (dlq q) q" "points (indexOfInflight q) q" "keys_ok q"
    "unique_ids q" "ready_ok q" "no_loss q" "live_xor_dead q"
  using assms by (simp_all add: queue_ok_def)

lemma queue_ok_wal [simp]: "queue_ok (q\<lparr>wal := w\<rparr>) = queue_ok q"
  by (simp add: queue_ok_def points_def keys_ok_def unique_ids_def ready_ok_def no_loss_def
      live_xor_dead_def)

lemma queue_ok_empty: "queue_ok (empty_queue w v s m)"
  by (simp add: queue_ok_def points_def keys_ok_def unique_ids_def ready_ok_def no_loss_def
      live_xor_dead_def empty_queue_def)

lemma queue_ok_ack:
  assumes "queue_ok q" "index q id0 = Some p"
  shows "queue_ok (ack_done id0 p q)"
  using assms(1)
proof (rule queue_okI)
  show "no_loss (ack_done id0 p q)" "live_xor_dead (ack_done id0 p q)"
    using queue_okD [OF assms(1)] queue_okD_points(8) [OF assms(1)]
    by (auto simp: no_loss_def live_xor_dead_def effect_defs)
qed (use queue_okD(7) [OF assms(1)] queue_okD_points [OF assms(1)] in \<open>simp_all add: effect_defs same_ids_def\<close>)

lemma queue_ok_die:
  assumes "queue_ok q" "index q id0 = Some p"
  shows "queue_ok (die now id0 p q)"
  using assms(1)
proof (rule queue_okI)
  show "no_loss (die now id0 p q)" "live_xor_dead (die now id0 p q)"
    using queue_okD [OF assms(1)] queue_okD_points(8) [OF assms(1)]
    by (auto simp: no_loss_def live_xor_dead_def effect_defs)
qed (use queue_okD(1,2,7) [OF assms(1)] queue_okD_points [OF assms(1)] assms(2)
    in \<open>simp_all add: effect_defs same_ids_def\<close>)

lemma queue_ok_back:
  assumes "queue_ok q" "index q id0 = Some p"
  shows "queue_ok (back_to_ready now rnd id0 p q)"
  using assms(1)
proof (rule queue_okI)
  show "no_loss (back_to_ready now rnd id0 p q)" "live_xor_dead (back_to_ready now rnd id0 p q)"
    using queue_okD(11) [OF assms(1)] queue_okD_points(8) [OF assms(1)] assms(2)
    by (auto simp: no_loss_def live_xor_dead_def effect_defs)
  show "x < q_next q" if "x \<in> set (ready (back_to_ready now rnd id0 p q))" for x
    using that queue_okD(1,7) [OF assms(1)] assms(2) by (auto simp: effect_defs)
qed (use queue_okD_points [OF assms(1)] in \<open>simp_all add: effect_defs same_ids_def\<close>)

lemma queue_ok_revive:
  assumes "queue_ok q" "dlq q id0 = Some p"
  shows "queue_ok (revive id0 p q)"
  using assms(1)
proof (rule queue_okI)
  show "no_loss (revive id0 p q)" "live_xor_dead (revive id0 p q)"
    using queue_okD(11) [OF assms(1)] queue_okD_points(8) [OF assms(1)]
    by (auto simp: no_loss_def live_xor_dead_def effect_defs)
  show "x < q_next q" if "x \<in> set (ready (revive id0 p q))" for x
    using that queue_okD(3,7) [OF assms(1)] assms(2) by (auto simp: effect_defs)
qed (use queue_okD(3,4) [OF assms(1)] queue_okD_points [OF assms(1)] assms(2)
    in \<open>simp_all add: effect_defs same_ids_def\<close>)

lemma queue_ok_purge: "queue_ok q \<Longrightarrow> queue_ok (purge_done id0 q)"
  by (rule queue_okI [of q])
    (auto simp: queue_okD_points effect_defs no_loss_def live_xor_dead_def queue_okD same_ids_def)

lemma enqueue_add_simps:
  "q_tasks (enqueue_add t q) = (q_tasks q)(q_next q := t)" "q_next (enqueue_add t q) = Suc (q_next q)"
  "index (enqueue_add t q) = (index q)(ID t \<mapsto> q_next q)"
  "indexOfIdemKeys (enqueue_add t q) = (indexOfIdemKeys q)(IdempotencyKey t \<mapsto> q_next q)"
  "indexOfInflight (enqueue_add t q) = indexOfInflight q" "dlq (enqueue_add t q) = dlq q"
  "set (ready (enqueue_add t q)) = insert (q_next q) (set (ready q))"
  "wal (enqueue_add t q) = wal q" "maxRetries (enqueue_add t q) = maxRetries q"
  "visibilityTimeout (enqueue_add t q) = visibilityTimeout q"
  by (simp_all add: enqueue_add_def Let_def heapPush_def)

lemma fresh_unfiled:
  assumes "queue_ok q" "fresh i q"
  shows "index q i = None" "dlq q i = None" "indexOfInflight q i = None"
  using queue_okD(1-6) [OF assms(1)] assms(2) unfolding fresh_def by (metis not_None_eq)+

lemma points_add: "points m q \<Longrightarrow> points m (enqueue_add t q)"
  by (auto simp: points_def enqueue_add_simps less_Suc_eq)

lemma points_add_new: "points m q \<Longrightarrow> points (m(ID t \<mapsto> q_next q)) (enqueue_add t q)"
  by (auto simp: points_def enqueue_add_simps less_Suc_eq)

lemma keys_ok_add:
  assumes "keys_ok q" "dedup (IdempotencyKey t) q = None"
  shows "keys_ok (enqueue_add t q)"
  unfolding keys_ok_def enqueue_add_simps
proof (intro conjI allI impI)
  fix k p assume "((indexOfIdemKeys q)(IdempotencyKey t \<mapsto> q_next q)) k = Some p"
  then show "p < Suc (q_next q)" "IdempotencyKey (((q_tasks q)(q_next q := t)) p) = k"
    using assms(1) by (auto simp: keys_ok_def less_Suc_eq split: if_splits)
next
  fix p assume p: "p < Suc (q_next q)" "IdempotencyKey (((q_tasks q)(q_next q := t)) p) \<noteq> []"
  show "((indexOfIdemKeys q)(IdempotencyKey t \<mapsto> q_next q)) (IdempotencyKey (((q_tasks q)(q_next q := t)) p)) = Some p"
  proof (cases "p = q_next q")
    case False
    with p assms(1) have "indexOfIdemKeys q (IdempotencyKey (q_tasks q p)) = Some p"
      by (simp add: keys_ok_def less_Suc_eq)
    with p False assms(2) show ?thesis by (auto simp: dedup_def split: if_splits)
  qed simp
qed

lemma unique_ids_add: "unique_ids q \<Longrightarrow> fresh (ID t) q \<Longrightarrow> unique_ids (enqueue_add t q)"
  by (auto simp: unique_ids_def fresh_def enqueue_add_simps less_Suc_eq)

lemma queue_ok_add:
  assumes "queue_ok q" "fresh (ID t) q" "dedup (IdempotencyKey t) q = None"
  shows "queue_ok (enqueue_add t q)"
proof -
  note D = queue_okD_points [OF assms(1)]
  have "ready_ok (enqueue_add t q)" "no_loss (enqueue_add t q)" "live_xor_dead (enqueue_add t q)"
    using D(6-8) fresh_unfiled(2) [OF assms(1,2)]
    by (auto simp: ready_ok_def no_loss_def live_xor_dead_def enqueue_add_simps)
  with D assms(2,3) show ?thesis
    by (simp add: queue_ok_def enqueue_add_simps(3,5,6) points_add points_add_new keys_ok_add
        unique_ids_add)
qed

lemma queue_ok_lease:
  assumes "queue_ok q" "heap_Pop lt (ready q) = Some (p, rest)"
  shows "queue_ok (lease now p (q\<lparr>ready := rest\<rparr>))"
  using assms(1)
proof (rule queue_okI)
  have "set (ready q) = insert p (set rest)" using assms(2) by (rule heap_Pop_Some)
  then have p: "p < q_next q" and rest: "\<And>x. x \<in> set rest \<Longrightarrow> x < q_next q"
    using queue_okD(7) [OF assms(1)] by auto
  show "points (indexOfInflight (lease now p (q\<lparr>ready := rest\<rparr>))) q"
    using queue_okD_points(3) [OF assms(1)] p by (simp add: effect_defs)
  show "x < q_next q" if "x \<in> set (ready (lease now p (q\<lparr>ready := rest\<rparr>)))" for x
    using that rest by (simp add: effect_defs)
  show "no_loss (lease now p (q\<lparr>ready := rest\<rparr>))"
    using queue_okD(11) [OF assms(1)] \<open>set (ready q) = insert p (set rest)\<close>
      queue_okD(1,2) [OF assms(1)] queue_okD(10) [OF assms(1), OF p]
    by (fastforce simp: no_loss_def effect_defs)
qed (use queue_okD_points [OF assms(1)] in \<open>simp_all add: effect_defs same_ids_def live_xor_dead_def\<close>)

subsection \<open>Every call keeps it\<close>

lemma Dequeue_cases:
  assumes "Dequeue now q = (r, q')"
  obtains (nothing) "ready q = [] \<or> now < AvailableAt (q_tasks q (hd (ready q)))" "r = None" "q' = q"
  | (success) p rest where "ready q \<noteq> []" "p = hd (ready q)" "AvailableAt (q_tasks q p) \<le> now"
      "heap_Pop (readyHeap_Less (q_tasks q)) (ready q) = Some (p, rest)" "r = Some p"
      "q' = lease now p (q\<lparr>ready := rest\<rparr>)"
proof (cases "ready q = [] \<or> now < AvailableAt (q_tasks q (hd (ready q)))")
  case True
  with assms have "r = None" "q' = q" by (auto simp: Dequeue_def)
  with True show ?thesis by (rule nothing)
next
  case False
  then obtain rest where "heap_Pop (readyHeap_Less (q_tasks q)) (ready q) = Some (hd (ready q), rest)"
    by (meson heap_Pop_root)
  with False assms show ?thesis by (intro success [of "hd (ready q)" rest]) (auto simp: Dequeue_def)
qed

lemma queue_ok_Enqueue:
  assumes "queue_ok q" "fresh new q"
  shows "queue_ok (snd (Enqueue new now i pl k q))"
proof -
  obtain r q' where e: "Enqueue new now i pl k q = (r, q')" by force
  then show ?thesis
  proof (cases rule: Enqueue_cases)
    case (success flds w)
    have "queue_ok (enqueue_add (new_task new now pl k) (q\<lparr>wal := w\<rparr>))"
      using assms success by (intro queue_ok_add) (simp_all add: fresh_def)
    with e success show ?thesis by simp
  qed (use e assms in simp_all)
qed

lemma queue_ok_Dequeue:
  assumes "queue_ok q"
  shows "queue_ok (snd (Dequeue now q))"
proof -
  obtain r q' where e: "Dequeue now q = (r, q')" by force
  then show ?thesis
    by (cases rule: Dequeue_cases) (use e assms in \<open>auto intro: queue_ok_lease\<close>)
qed

lemma queue_ok_Ack:
  assumes "queue_ok q"
  shows "queue_ok (snd (Ack i id0 q))"
proof -
  obtain r q' where e: "Ack i id0 q = (r, q')" by force
  then show ?thesis
    by (cases rule: Ack_cases) (use e assms in \<open>auto intro: queue_ok_ack\<close>)
qed

lemma queue_ok_retryLocked:
  assumes "queue_ok q"
  shows "queue_ok (snd (retryLocked now rnd i id0 q))"
proof -
  obtain r q' where e: "retryLocked now rnd i id0 q = (r, q')" by force
  then show ?thesis
    by (cases rule: retryLocked_cases) (use e assms in \<open>auto intro: queue_ok_die queue_ok_back\<close>)
qed

lemma queue_ok_RequeueDead:
  assumes "queue_ok q"
  shows "queue_ok (snd (RequeueDead i id0 q))"
proof -
  obtain r q' where e: "RequeueDead i id0 q = (r, q')" by force
  then show ?thesis
    by (cases rule: RequeueDead_cases) (use e assms in \<open>auto intro: queue_ok_revive\<close>)
qed

lemma queue_ok_PurgeDeadTask:
  assumes "queue_ok q"
  shows "queue_ok (snd (PurgeDeadTask i id0 q))"
proof -
  obtain r q' where e: "PurgeDeadTask i id0 q = (r, q')" by force
  then show ?thesis
    by (cases rule: PurgeDeadTask_cases) (use e assms in \<open>auto intro: queue_ok_purge\<close>)
qed

text \<open>The sweep is a sequence of retries: what every retry of an expired lease keeps, the sweep keeps.\<close>

lemma Sweeper_invariant:
  assumes "P q"
    and "\<And>s q p. s \<in> set ss \<Longrightarrow> P q \<Longrightarrow> indexOfInflight q (sw_id s) = Some p \<Longrightarrow>
      LeaseUntil (q_tasks q p) < sw_check s \<Longrightarrow>
      P (snd (retryLocked (sw_now s) (sw_rnd s) (sw_io s) (sw_id s) q))"
  shows "P (snd (Sweeper ss q))"
  using assms
proof (induction ss arbitrary: q)
  case (Cons s ss)
  obtain r q' where e: "retryLocked (sw_now s) (sw_rnd s) (sw_io s) (sw_id s) q = (r, q')" by force
  show ?case
  proof (cases "indexOfInflight q (sw_id s)")
    case None
    with Cons show ?thesis by simp
  next
    case (Some p)
    with Cons.IH Cons.prems Cons.prems(2) [of s q p] e show ?thesis
      by (cases r) auto
  qed
qed simp

lemma queue_ok_exec:
  assumes "queue_ok q" "mints_fresh c q"
  shows "queue_ok (exec c q)"
proof (cases c)
  case (CSweep ss)
  with assms show ?thesis by (auto intro: Sweeper_invariant queue_ok_retryLocked)
qed (use assms in \<open>simp_all add: queue_ok_Enqueue queue_ok_Dequeue queue_ok_Ack queue_ok_retryLocked
    Retry_def queue_ok_RequeueDead queue_ok_PurgeDeadTask\<close>)

subsection \<open>Runs of the interface\<close>

text \<open>\<open>run cs q q'\<close>: the calls \<open>cs\<close>, each minting new ids only, lead from \<open>q\<close> to \<open>q'\<close>.\<close>

inductive run :: "call list \<Rightarrow> Queue \<Rightarrow> Queue \<Rightarrow> bool" where
  run_Nil: "run [] q q"
| run_Cons: "mints_fresh c q \<Longrightarrow> run cs (exec c q) q' \<Longrightarrow> run (c # cs) q q'"

inductive_cases run_ConsE: "run (c # cs) q q'"
inductive_simps run_Nil_iff: "run [] q q'"
inductive_simps run_Cons_iff: "run (c # cs) q q'"

lemma run_queue_ok: "run cs q q' \<Longrightarrow> queue_ok q \<Longrightarrow> queue_ok q'"
  by (induction rule: run.induct) (simp_all add: queue_ok_exec)

end
