(* ===== verification/Delivery.thy ===== *)
theory Delivery
  imports Queue_Inv
begin

section \<open>Delivery: leases, order and retries\<close>

text \<open>
  The invariant \<open>queue_wf\<close> of clients that acknowledge or retry only tasks they hold on lease, and the
  specification of the operations that deliver tasks: \<^verbatim>\<open>Dequeue\<close> hands out a due task that is minimal in the
  order of \<^verbatim>\<open>readyHeap.Less\<close>, \<^verbatim>\<open>retryLocked\<close> counts to the limit and then moves the task to the dead-letter queue,
  \<^verbatim>\<open>Sweeper\<close> ends every expired lease and no other.
\<close>

subsection \<open>The invariant of disciplined clients\<close>

text \<open>\<open>waiting live leased p\<close>: \<open>p\<close> is a live task without a lease.\<close>

definition waiting :: "(uuid \<rightharpoonup> ptr) \<Rightarrow> (uuid \<rightharpoonup> ptr) \<Rightarrow> ptr \<Rightarrow> bool" where
  "waiting live leased p \<longleftrightarrow> (\<exists>i. live i = Some p \<and> leased i = None)"

definition ready_exact :: "Queue \<Rightarrow> bool" where
  "ready_exact q \<longleftrightarrow> distinct (ready q) \<and>
     (\<forall>p. p \<in> set (ready q) \<longleftrightarrow> waiting (index q) (indexOfInflight q) p)"

definition leases_live :: "Queue \<Rightarrow> bool" where
  "leases_live q \<longleftrightarrow> (\<forall>i p. indexOfInflight q i = Some p \<longrightarrow> index q i = Some p)"

definition status_ok :: "Queue \<Rightarrow> bool" where
  "status_ok q \<longleftrightarrow>
     (\<forall>i p. index q i = Some p \<longrightarrow>
        Status (q_tasks q p) = (if indexOfInflight q i = None then StateReady else StateInflight)) \<and>
     (\<forall>i p. dlq q i = Some p \<longrightarrow> Status (q_tasks q p) = StateDead)"

definition heap_ok :: "Queue \<Rightarrow> bool" where
  "heap_ok q \<longleftrightarrow> is_heap (readyHeap_Less (q_tasks q)) (ready q)"

definition queue_wf :: "Queue \<Rightarrow> bool" where
  "queue_wf q \<longleftrightarrow> queue_ok q \<and> ready_exact q \<and> leases_live q \<and> status_ok q \<and> heap_ok q"

text \<open>The discipline: a client acknowledges or retries a live task only while it is leased.\<close>

fun disciplined :: "call \<Rightarrow> Queue \<Rightarrow> bool" where
  "disciplined (CAck i id0) q = (index q id0 \<noteq> None \<longrightarrow> indexOfInflight q id0 \<noteq> None)"
| "disciplined (CRetry now rnd i id0) q = (index q id0 \<noteq> None \<longrightarrow> indexOfInflight q id0 \<noteq> None)"
| "disciplined _ q = True"

lemma waiting_forget: "leased i \<noteq> None \<Longrightarrow> waiting (live(i := None)) (leased(i := None)) p = waiting live leased p"
  unfolding waiting_def by (metis fun_upd_apply option.distinct(1))

lemma waiting_return:
  "live i = Some p \<Longrightarrow> waiting live (leased(i := None)) x = (x = p \<or> waiting live leased x)"
  unfolding waiting_def by (metis fun_upd_apply option.inject)

lemma waiting_add:
  "live i = None \<Longrightarrow> leased i = None \<Longrightarrow> waiting (live(i \<mapsto> p)) leased x = (x = p \<or> waiting live leased x)"
  unfolding waiting_def by (metis fun_upd_apply option.distinct(1) option.inject)

lemma queue_wfD:
  assumes "queue_wf q"
  shows "queue_ok q" "ready_exact q" "leases_live q" "status_ok q" "heap_ok q"
  using assms by (simp_all add: queue_wf_def)

lemma queue_wf_wal [simp]: "queue_wf (q\<lparr>wal := w\<rparr>) = queue_wf q"
  by (simp add: queue_wf_def ready_exact_def leases_live_def status_ok_def heap_ok_def)

lemma queue_wf_empty: "queue_wf (empty_queue w v s m)"
  by (simp add: queue_wf_def queue_ok_empty)
    (simp add: ready_exact_def leases_live_def status_ok_def heap_ok_def empty_queue_def is_heap_def waiting_def)

lemma leased_live:
  "queue_wf q \<Longrightarrow> indexOfInflight q i = Some p \<Longrightarrow> index q i = Some p"
  by (simp add: queue_wf_def leases_live_def)

text \<open>Tasks filed under different ids are different objects.\<close>

lemma index_inject: "queue_ok q \<Longrightarrow> index q i = Some p \<Longrightarrow> index q j = Some p \<Longrightarrow> i = j"
  by (metis queue_okD(2))

lemma index_dlq_inject: "queue_ok q \<Longrightarrow> index q i = Some p \<Longrightarrow> dlq q j = Some p \<Longrightarrow> False"
  by (metis option.distinct(1) queue_okD(2,4,8))

lemma dlq_inject: "queue_ok q \<Longrightarrow> dlq q i = Some p \<Longrightarrow> dlq q j = Some p \<Longrightarrow> i = j"
  by (metis queue_okD(4))

lemma filed_apart:
  assumes "queue_ok q"
  shows "index q i = Some p \<Longrightarrow> dlq q j \<noteq> Some p" "dlq q i = Some p \<Longrightarrow> index q j \<noteq> Some p"
    "index q i = Some p \<Longrightarrow> j \<noteq> i \<Longrightarrow> index q j \<noteq> Some p" "dlq q i = Some p \<Longrightarrow> j \<noteq> i \<Longrightarrow> dlq q j \<noteq> Some p"
  using index_inject [OF assms] index_dlq_inject [OF assms] dlq_inject [OF assms] by blast+

lemma leased_not_ready:
  "queue_wf q \<Longrightarrow> indexOfInflight q i = Some p \<Longrightarrow> p \<notin> set (ready q)"
  by (metis leased_live index_inject option.distinct(1) queue_wfD(1,2) ready_exact_def waiting_def)

lemma dead_not_ready: "queue_wf q \<Longrightarrow> dlq q i = Some p \<Longrightarrow> p \<notin> set (ready q)"
  by (metis index_dlq_inject queue_wfD(1,2) ready_exact_def waiting_def)

lemmas wf_parts = ready_exact_def leases_live_def status_ok_def

subsection \<open>The effects keep it\<close>

lemma heap_ok_push:
  "heap_ok q \<Longrightarrow> p \<notin> set (ready q) \<Longrightarrow> heap_ok (heapPush p (set_task p t q))"
  by (simp add: heap_ok_def heapPush_def set_task_def rh.heap_Push_heap is_heap_update)

lemma heap_ok_tail: "heap_ok q \<Longrightarrow> heap_ok (retry_tail id0 p q)"
  using is_heap_cong_memory [of "ready q" "q_tasks (retry_tail id0 p q)" "q_tasks q"]
  by (simp add: heap_ok_def retry_tail_def set_task_def)

text \<open>A live task turns from ready to leased or back.\<close>

lemma status_ok_turn:
  assumes wf: "queue_wf q" and i: "index q i = Some p"
    and q': "index q' = index q" "dlq q' = dlq q" "indexOfInflight q' = (indexOfInflight q)(i := l)"
      "\<And>x. x \<noteq> p \<Longrightarrow> Status (q_tasks q' x) = Status (q_tasks q x)"
      "Status (q_tasks q' p) = (if l = None then StateReady else StateInflight)"
  shows "status_ok q'"
  unfolding status_ok_def
proof (intro conjI allI impI)
  fix j x assume x: "index q' j = Some x"
  then have "x = p \<longleftrightarrow> j = i"
    using i index_inject [OF queue_wfD(1) [OF wf] i, of j] by (auto simp: q')
  with x queue_wfD(4) [OF wf] show "Status (q_tasks q' x) =
      (if indexOfInflight q' j = None then StateReady else StateInflight)"
    by (cases "x = p") (simp_all add: status_ok_def q')
next
  fix j x assume x: "dlq q' j = Some x"
  then have "x \<noteq> p" using index_dlq_inject [OF queue_wfD(1) [OF wf] i, of j] by (auto simp: q')
  with x queue_wfD(4) [OF wf] show "Status (q_tasks q' x) = StateDead" by (simp add: status_ok_def q')
qed

lemma queue_wf_ack:
  assumes wf: "queue_wf q" and l: "indexOfInflight q id0 = Some p"
  shows "queue_wf (ack_done id0 p q)"
proof -
  note ok = queue_wfD(1) [OF wf] and i = leased_live [OF wf l]
  have "heap_ok (ack_done id0 p q)"
    using queue_wfD(5) [OF wf] leased_not_ready [OF wf l]
    by (simp add: heap_ok_def effect_defs is_heap_update)
  moreover have "ready_exact (ack_done id0 p q)" "leases_live (ack_done id0 p q)"
    using queue_wfD(2,3) [OF wf] l
    by (auto simp: ready_exact_def leases_live_def effect_defs waiting_forget)
  moreover have "status_ok (ack_done id0 p q)"
    using queue_wfD(4) [OF wf] index_inject [OF ok i] index_dlq_inject [OF ok i]
    by (auto simp: status_ok_def effect_defs)
  ultimately show ?thesis by (simp add: queue_wf_def queue_ok_ack ok i)
qed

lemma queue_wf_die:
  assumes wf: "queue_wf q" and l: "indexOfInflight q id0 = Some p"
  shows "queue_wf (die now id0 p q)"
proof -
  note ok = queue_wfD(1) [OF wf] and i = leased_live [OF wf l]
  have "heap_ok (die now id0 p q)"
    using queue_wfD(5) [OF wf] leased_not_ready [OF wf l]
    by (simp add: heap_ok_def effect_defs is_heap_update)
  moreover have "ready_exact (die now id0 p q)" "leases_live (die now id0 p q)"
    using queue_wfD(2,3) [OF wf] l
    by (auto simp: ready_exact_def leases_live_def effect_defs waiting_forget)
  moreover have "status_ok (die now id0 p q)"
    using queue_wfD(4) [OF wf] index_inject [OF ok i] index_dlq_inject [OF ok i]
    by (auto simp: status_ok_def effect_defs)
  ultimately show ?thesis by (simp add: queue_wf_def queue_ok_die ok i)
qed

lemma queue_wf_back:
  assumes wf: "queue_wf q" and l: "indexOfInflight q id0 = Some p"
  shows "queue_wf (back_to_ready now rnd id0 p q)"
proof -
  note ok = queue_wfD(1) [OF wf] and i = leased_live [OF wf l]
  have "heap_ok (back_to_ready now rnd id0 p q)"
    using heap_ok_push [OF queue_wfD(5) [OF wf] leased_not_ready [OF wf l]]
    by (simp add: back_to_ready_def heap_ok_tail)
  moreover have "ready_exact (back_to_ready now rnd id0 p q)"
    using queue_wfD(2) [OF wf] leased_not_ready [OF wf l]
    by (simp add: ready_exact_def effect_defs waiting_return [of "index q", OF i])
  moreover have "leases_live (back_to_ready now rnd id0 p q)"
    using queue_wfD(3) [OF wf] by (simp add: leases_live_def effect_defs)
  moreover have "status_ok (back_to_ready now rnd id0 p q)"
    by (rule status_ok_turn [OF wf i]) (simp_all add: effect_defs)
  ultimately show ?thesis by (simp add: queue_wf_def queue_ok_back ok i)
qed

lemma queue_wf_revive:
  assumes wf: "queue_wf q" and d: "dlq q id0 = Some p"
  shows "queue_wf (revive id0 p q)"
proof -
  note ok = queue_wfD(1) [OF wf]
  have none: "index q id0 = None" "indexOfInflight q id0 = None"
    using queue_okD(9) [OF ok d] leased_live [OF wf] by (simp, metis option.exhaust_sel option.distinct(1))
  have "heap_ok (revive id0 p q)"
    using heap_ok_push [OF queue_wfD(5) [OF wf] dead_not_ready [OF wf d]]
    by (simp add: heap_ok_def effect_defs)
  moreover have "ready_exact (revive id0 p q)" "leases_live (revive id0 p q)"
    using queue_wfD(2,3) [OF wf] none dead_not_ready [OF wf d]
    by (auto simp: ready_exact_def leases_live_def effect_defs waiting_add)
  moreover have "status_ok (revive id0 p q)"
    using queue_wfD(4) [OF wf] none dlq_inject [OF ok d] index_dlq_inject [OF ok _ d]
    by (auto simp: status_ok_def effect_defs)
  ultimately show ?thesis by (simp add: queue_wf_def queue_ok_revive ok d)
qed

lemma queue_wf_purge: "queue_wf q \<Longrightarrow> queue_wf (purge_done id0 q)"
  by (simp add: queue_wf_def queue_ok_purge)
    (simp add: ready_exact_def leases_live_def status_ok_def heap_ok_def purge_done_def)

lemma queue_wf_add:
  assumes wf: "queue_wf q" and f: "fresh (ID t) q" "dedup (IdempotencyKey t) q = None" "Status t = StateReady"
  shows "queue_wf (enqueue_add t q)"
proof -
  note ok = queue_wfD(1) [OF wf]
  have new: "q_next q \<notin> set (ready q)" using queue_okD(7) [OF ok] by blast
  have "heap_ok (enqueue_add t q)"
    using rh.heap_Push_heap [OF is_heap_update [OF new queue_wfD(5) [OF wf, unfolded heap_ok_def]]]
    by (simp add: heap_ok_def enqueue_add_def Let_def heapPush_def)
  moreover have "distinct (ready (enqueue_add t q))"
    using queue_wfD(2) [OF wf] new by (simp add: ready_exact_def enqueue_add_def Let_def heapPush_def)
  moreover have "leases_live (enqueue_add t q)" "status_ok (enqueue_add t q)"
    using queue_wfD(3,4) [OF wf] fresh_unfiled [OF ok f(1)] f(3) queue_okD(1,3) [OF ok]
    by (fastforce simp: leases_live_def status_ok_def enqueue_add_simps)+
  ultimately show ?thesis
    using queue_wfD(2) [OF wf] fresh_unfiled [OF ok f(1)] queue_ok_add [OF ok f(1,2)]
    by (simp add: queue_wf_def ready_exact_def enqueue_add_simps waiting_add)
qed

lemma queue_wf_lease:
  assumes wf: "queue_wf q" and pop: "heap_Pop (readyHeap_Less (q_tasks q)) (ready q) = Some (p, rest)"
  shows "queue_wf (lease now p (q\<lparr>ready := rest\<rparr>))"
proof -
  let ?q = "lease now p (q\<lparr>ready := rest\<rparr>)" and ?i = "ID (q_tasks q p)"
  note ok = queue_wfD(1) [OF wf] and D = heap_Pop_Some [OF pop]
  have d: "distinct (p # rest)"
    using queue_wfD(2) [OF wf] mset_eq_imp_distinct_iff [of "ready q" "p # rest"] D(3)
    by (simp add: ready_exact_def)
  obtain i where "index q i = Some p" "indexOfInflight q i = None"
    using queue_wfD(2) [OF wf] D(4) by (auto simp: ready_exact_def waiting_def)
  then have i: "index q ?i = Some p" "indexOfInflight q ?i = None" using queue_okD(2) [OF ok] by auto
  have w: "waiting (index q) ((indexOfInflight q)(?i \<mapsto> p)) x \<longleftrightarrow> x \<noteq> p \<and> waiting (index q) (indexOfInflight q) x" for x
    using i index_inject [OF ok i(1)] unfolding waiting_def by (metis fun_upd_apply option.distinct(1) option.inject)
  have "is_heap (readyHeap_Less (q_tasks q)) rest"
    using queue_wfD(5) [OF wf] pop by (auto simp: heap_ok_def intro: rh.heap_Pop_heap)
  then have "heap_ok ?q" using d by (simp add: heap_ok_def effect_defs is_heap_update)
  moreover have "ready_exact ?q"
    using queue_wfD(2) [OF wf] d D(4) by (auto simp: ready_exact_def effect_defs w)
  moreover have "leases_live ?q"
    using queue_wfD(3) [OF wf] i(1) by (simp add: leases_live_def effect_defs)
  moreover have "status_ok ?q"
    by (rule status_ok_turn [OF wf i(1), where l = "Some p"]) (simp_all add: effect_defs)
  ultimately show ?thesis by (simp add: queue_wf_def queue_ok_lease [OF ok pop])
qed

subsection \<open>Every disciplined call keeps it\<close>

lemma queue_wf_Enqueue:
  assumes "queue_wf q" "fresh new q"
  shows "queue_wf (snd (Enqueue new now i pl k q))"
proof -
  obtain r q' where e: "Enqueue new now i pl k q = (r, q')" by force
  then show ?thesis
  proof (cases rule: Enqueue_cases)
    case (success flds w)
    have "queue_wf (enqueue_add (new_task new now pl k) (q\<lparr>wal := w\<rparr>))"
      using assms success by (intro queue_wf_add) (simp_all add: fresh_def)
    with e success show ?thesis by simp
  qed (use e assms in simp_all)
qed

lemma queue_wf_Dequeue:
  assumes "queue_wf q"
  shows "queue_wf (snd (Dequeue now q))"
proof -
  obtain r q' where e: "Dequeue now q = (r, q')" by force
  then show ?thesis
    by (cases rule: Dequeue_cases) (use e assms in \<open>auto intro: queue_wf_lease\<close>)
qed

lemma queue_wf_Ack:
  assumes "queue_wf q" "index q id0 \<noteq> None \<longrightarrow> indexOfInflight q id0 \<noteq> None"
  shows "queue_wf (snd (Ack i id0 q))"
proof -
  obtain r q' where e: "Ack i id0 q = (r, q')" by force
  then show ?thesis
  proof (cases rule: Ack_cases)
    case (success p w)
    then have "indexOfInflight q id0 = Some p" using assms leased_live by fastforce
    then have "queue_wf (ack_done id0 p (q\<lparr>wal := w\<rparr>))" using assms by (intro queue_wf_ack) simp_all
    with e success show ?thesis by simp
  qed (use e assms in simp_all)
qed

lemma queue_wf_retryLocked:
  assumes "queue_wf q" "index q id0 \<noteq> None \<longrightarrow> indexOfInflight q id0 \<noteq> None"
  shows "queue_wf (snd (retryLocked now rnd i id0 q))"
proof -
  obtain r q' where e: "retryLocked now rnd i id0 q = (r, q')" by force
  have l: "indexOfInflight q id0 = Some p" if "index q id0 = Some p" for p
    using that assms leased_live by fastforce
  from e show ?thesis
  proof (cases rule: retryLocked_cases)
    case (dead p w)
    then have "queue_wf (die now id0 p (q\<lparr>wal := w\<rparr>))" using assms l by (intro queue_wf_die) simp_all
    with e dead show ?thesis by simp
  next
    case (again p w)
    then have "queue_wf (back_to_ready now rnd id0 p (q\<lparr>wal := w\<rparr>))"
      using assms l by (intro queue_wf_back) simp_all
    with e again show ?thesis by simp
  qed (use e assms in simp_all)
qed

lemma queue_wf_RequeueDead:
  assumes "queue_wf q"
  shows "queue_wf (snd (RequeueDead i id0 q))"
proof -
  obtain r q' where e: "RequeueDead i id0 q = (r, q')" by force
  then show ?thesis
    by (cases rule: RequeueDead_cases) (use e assms in \<open>auto intro: queue_wf_revive\<close>)
qed

lemma queue_wf_PurgeDeadTask:
  assumes "queue_wf q"
  shows "queue_wf (snd (PurgeDeadTask i id0 q))"
proof -
  obtain r q' where e: "PurgeDeadTask i id0 q = (r, q')" by force
  then show ?thesis
    by (cases rule: PurgeDeadTask_cases) (use e assms in \<open>auto intro: queue_wf_purge\<close>)
qed

lemma queue_wf_Sweeper: "queue_wf q \<Longrightarrow> queue_wf (snd (Sweeper ss q))"
  by (erule Sweeper_invariant) (simp add: queue_wf_retryLocked)

lemma queue_wf_exec:
  assumes "queue_wf q" "mints_fresh c q" "disciplined c q"
  shows "queue_wf (exec c q)"
  using assms by (cases c) (simp_all add: queue_wf_Enqueue queue_wf_Dequeue queue_wf_Ack
    queue_wf_retryLocked Retry_def queue_wf_Sweeper queue_wf_RequeueDead queue_wf_PurgeDeadTask)

subsection \<open>What is delivered\<close>

text \<open>Tasks waiting in the ready heap: the live tasks without a lease.\<close>

lemma ready_iff:
  assumes "queue_wf q"
  shows "p \<in> set (ready q) \<longleftrightarrow>
    index q (ID (q_tasks q p)) = Some p \<and> indexOfInflight q (ID (q_tasks q p)) = None"
  using queue_wfD(1,2) [OF assms] queue_okD(2) [of q] by (auto simp: ready_exact_def waiting_def)

lemma Dequeue_None_iff:
  assumes "queue_wf q"
  shows "fst (Dequeue now q) = None \<longleftrightarrow> (\<forall>p \<in> set (ready q). now < AvailableAt (q_tasks q p))"
proof -
  obtain r q' where e: "Dequeue now q = (r, q')" by force
  note least = rh_root_key(1) [OF queue_wfD(5) [OF assms, unfolded heap_ok_def]]
  from e show ?thesis
  proof (cases rule: Dequeue_cases)
    case nothing
    with e least show ?thesis by (cases "ready q") fastforce+
  next
    case (success p rest)
    then have "p \<in> set (ready q)" by simp
    with success have "\<not> now < AvailableAt (q_tasks q p)" "fst (Dequeue now q) \<noteq> None" using e by simp_all
    with \<open>p \<in> set (ready q)\<close> show ?thesis by blast
  qed
qed

lemma Dequeue_Some_min:
  assumes "queue_wf q" "Dequeue now q = (Some p, q')"
  shows "p \<in> set (ready q)" "AvailableAt (q_tasks q p) \<le> now"
    "x \<in> set (ready q) \<Longrightarrow> \<not> readyHeap_Less (q_tasks q) x p"
    "set (ready q') = set (ready q) - {p}"
    "q_tasks q' = (q_tasks q)(p := (q_tasks q p)\<lparr>Status := StateInflight,
        LeaseUntil := now + visibilityTimeout q\<rparr>)"
    "indexOfInflight q' = (indexOfInflight q)(ID (q_tasks q p) \<mapsto> p)"
    "index q' = index q" "dlq q' = dlq q" "wal q' = wal q"
proof -
  note heap = queue_wfD(5) [OF assms(1), unfolded heap_ok_def]
  from assms(2) obtain rest where p: "ready q \<noteq> []" "p = hd (ready q)" "AvailableAt (q_tasks q p) \<le> now"
      and pop: "heap_Pop (readyHeap_Less (q_tasks q)) (ready q) = Some (p, rest)"
      and q': "q' = lease now p (q\<lparr>ready := rest\<rparr>)"
    by (cases rule: Dequeue_cases) auto
  then show "p \<in> set (ready q)" "AvailableAt (q_tasks q p) \<le> now" by simp_all
  show "x \<in> set (ready q) \<Longrightarrow> \<not> readyHeap_Less (q_tasks q) x p"
    using rh.heap_root_least [OF heap] p(2) by simp
  have "distinct (p # rest)"
    using queue_wfD(2) [OF assms(1)] mset_eq_imp_distinct_iff [of "ready q" "p # rest"]
      heap_Pop_Some(3) [OF pop] by (simp add: ready_exact_def)
  then show "set (ready q') = set (ready q) - {p}"
    using heap_Pop_Some(4) [OF pop] by (auto simp: q' effect_defs)
qed (use assms(2) in \<open>auto elim!: Dequeue_cases simp: effect_defs\<close>)

subsection \<open>Retries\<close>

text \<open>A live task never has more retries than the limit allows.\<close>

definition retry_bound :: "Queue \<Rightarrow> bool" where
  "retry_bound q \<longleftrightarrow> (\<forall>i p. index q i = Some p \<longrightarrow>
     0 \<le> Retries (q_tasks q p) \<and> Retries (q_tasks q p) \<le> max 0 (maxRetries q))"

lemma retry_bound_wal [simp]: "retry_bound (q\<lparr>wal := w\<rparr>) = retry_bound q"
  by (simp add: retry_bound_def)

lemma retry_bound_effects:
  assumes "queue_ok q" "retry_bound q"
  shows "retry_bound (ack_done id0 p q)" "retry_bound (purge_done id0 q)"
    "retry_bound (lease now p (q\<lparr>ready := rest\<rparr>))" "retry_bound (revive id0 p q)"
    "index q id0 = Some p \<Longrightarrow> retry_bound (die now id0 p q)"
    "Retries (q_tasks q p) + 1 \<le> maxRetries q \<Longrightarrow> 0 \<le> Retries (q_tasks q p) \<Longrightarrow>
      retry_bound (back_to_ready now rnd id0 p q)"
    "Retries t = 0 \<Longrightarrow> retry_bound (enqueue_add t q)"
  using assms(2) index_inject [OF assms(1)]
  by (auto simp: retry_bound_def effect_defs enqueue_add_simps)

lemma retry_bound_retryLocked:
  assumes "queue_ok q" "retry_bound q"
  shows "retry_bound (snd (retryLocked now rnd i id0 q))"
proof -
  obtain r q' where e: "retryLocked now rnd i id0 q = (r, q')" by force
  then show ?thesis
  proof (cases rule: retryLocked_cases)
    case (dead p w)
    then have "retry_bound (die now id0 p (q\<lparr>wal := w\<rparr>))"
      using assms by (intro retry_bound_effects) simp_all
    with e dead show ?thesis by simp
  next
    case (again p w)
    then have "0 \<le> Retries (q_tasks q p)" using assms(2) by (simp add: retry_bound_def)
    with again have "retry_bound (back_to_ready now rnd id0 p (q\<lparr>wal := w\<rparr>))"
      using assms by (intro retry_bound_effects) simp_all
    with e again show ?thesis by simp
  qed (use e assms in simp_all)
qed

lemma retry_bound_exec:
  assumes "queue_ok q" "retry_bound q"
  shows "retry_bound (exec c q)"
proof (cases c)
  case (CEnqueue new now i pl k)
  obtain r q' where e: "Enqueue new now i pl k q = (r, q')" by force
  with CEnqueue have c: "exec c q = q'" by simp
  from e show ?thesis unfolding c
    by (cases rule: Enqueue_cases) (use assms in \<open>auto intro: retry_bound_effects\<close>)
next
  case (CDequeue now)
  obtain r q' where e: "Dequeue now q = (r, q')" by force
  with CDequeue have c: "exec c q = q'" by simp
  from e show ?thesis unfolding c
    by (cases rule: Dequeue_cases) (use assms in \<open>auto intro: retry_bound_effects\<close>)
next
  case (CAck i id0)
  obtain r q' where e: "Ack i id0 q = (r, q')" by force
  with CAck have c: "exec c q = q'" by simp
  from e show ?thesis unfolding c
    by (cases rule: Ack_cases) (use assms in \<open>auto intro: retry_bound_effects\<close>)
next
  case (CSweep ss)
  have "(\<lambda>q. queue_ok q \<and> retry_bound q) (snd (Sweeper ss q))"
    using assms by (intro Sweeper_invariant [where P = "\<lambda>q. queue_ok q \<and> retry_bound q"])
      (simp_all add: queue_ok_retryLocked retry_bound_retryLocked)
  with CSweep show ?thesis by simp
next
  case (CRequeue i id0)
  obtain r q' where e: "RequeueDead i id0 q = (r, q')" by force
  with CRequeue have c: "exec c q = q'" by simp
  from e show ?thesis unfolding c
    by (cases rule: RequeueDead_cases) (use assms in \<open>auto intro: retry_bound_effects\<close>)
next
  case (CPurge i id0)
  obtain r q' where e: "PurgeDeadTask i id0 q = (r, q')" by force
  with CPurge have c: "exec c q = q'" by simp
  from e show ?thesis unfolding c
    by (cases rule: PurgeDeadTask_cases) (use assms in \<open>auto intro: retry_bound_effects\<close>)
qed (use assms in \<open>simp add: Retry_def retry_bound_retryLocked\<close>)

text \<open>With a working disk a retry always succeeds, and it is the limit that decides where the task
  goes.\<close>

lemma logged_ok:
  "\<exists>w. logged (Inr flds) op io_ok eff q = (None, eff (q\<lparr>wal := w\<rparr>))"
  unfolding logged_def Append_ok by auto

lemma Enqueue_ok:
  assumes "dedup k q = None"
  shows "\<exists>flds w. encodeEnqueuePayload (enqueue_payload (new_task new now pl k)) = Inr flds \<and>
    Append (encodeRecord OperationEnqueue flds) io_ok (wal q) = (None, w) \<and>
    Enqueue new now io_ok pl k q = (Inr new, enqueue_add (new_task new now pl k) (q\<lparr>wal := w\<rparr>))"
proof -
  obtain r q' where e: "Enqueue new now io_ok pl k q = (r, q')" by force
  have n: "\<nexists>e. r = Inl e"
    using e assms by (auto simp: Enqueue_def enqueue_record_def encodeEnqueuePayload_def Append_ok
        split: prod.splits)
  from e show ?thesis
    by (cases rule: Enqueue_cases) (use e n assms in \<open>auto simp: dedup_def\<close>)
qed

lemma retryLocked_ok:
  assumes "index q id0 = Some p"
  obtains w where "retryLocked now rnd io_ok id0 q =
    (None, if Retries (q_tasks q p) + 1 > maxRetries q then die now id0 p (q\<lparr>wal := w\<rparr>)
           else back_to_ready now rnd id0 p (q\<lparr>wal := w\<rparr>))"
proof -
  have "\<exists>w. retryLocked now rnd io_ok id0 q =
    (None, if Retries (q_tasks q p) + 1 > maxRetries q then die now id0 p (q\<lparr>wal := w\<rparr>)
           else back_to_ready now rnd id0 p (q\<lparr>wal := w\<rparr>))"
    using assms by (simp add: retryLocked_def Let_def encodeDeadPayload_def encodeRetryPayload_def logged_ok)
  then show ?thesis using that by blast
qed

subsection \<open>The sweep\<close>

text \<open>Iterations over keys that hold no expired lease change nothing; an iteration over an expired
  lease ends it.\<close>

definition expired :: "sweep_input \<Rightarrow> Queue \<Rightarrow> bool" where
  "expired s q \<longleftrightarrow> (\<exists>p. indexOfInflight q (sw_id s) = Some p \<and> LeaseUntil (q_tasks q p) < sw_check s)"

lemma Sweeper_skip: "\<not> expired s q \<Longrightarrow> Sweeper (s # ss) q = Sweeper ss q"
  by (auto simp: expired_def split: option.splits)

text \<open>\<open>untouched i\<close>: nothing filed under the id \<open>i\<close> changed. \<open>retried i\<close>: the task \<open>i\<close> lost its lease and counted
  one retry, which killed it exactly when it exceeded the limit.\<close>

definition untouched :: "uuid \<Rightarrow> Queue \<Rightarrow> Queue \<Rightarrow> bool" where
  "untouched i q q' \<longleftrightarrow> index q' i = index q i \<and> dlq q' i = dlq q i \<and>
     indexOfInflight q' i = indexOfInflight q i \<and> same_ids q q' \<and> maxRetries q' = maxRetries q \<and>
     (\<forall>y < q_next q. ID (q_tasks q y) = i \<longrightarrow> q_tasks q' y = q_tasks q y)"

definition retried :: "uuid \<Rightarrow> Queue \<Rightarrow> Queue \<Rightarrow> bool" where
  "retried i q q' \<longleftrightarrow> (\<exists>p. index q i = Some p \<and> indexOfInflight q' i = None \<and>
     Retries (q_tasks q' p) = Retries (q_tasks q p) + 1 \<and>
     (if Retries (q_tasks q p) + 1 > maxRetries q then dlq q' i = Some p \<and> index q' i = None
      else dlq q' i = None \<and> index q' i = Some p))"

lemma untouched_refl [simp]: "untouched i q q"
  by (simp add: untouched_def same_ids_def)

lemma untouched_trans: "untouched i q q' \<Longrightarrow> untouched i q' q'' \<Longrightarrow> untouched i q q''"
  by (simp add: untouched_def same_ids_def)

lemma retried_untouched:
  assumes "queue_ok q" "retried i q q'" "untouched i q' q''" "same_ids q q'"
  shows "retried i q q''"
  using assms queue_okD(1,2) [OF assms(1)] by (auto simp: retried_def untouched_def same_ids_def)

lemma untouched_retried:
  assumes "queue_ok q" "untouched i q q'" "retried i q' q''"
  shows "retried i q q''"
  using assms queue_okD(1,2) [OF assms(1)] by (auto simp: retried_def untouched_def)

lemma retryLocked_untouched:
  assumes "queue_ok q" "i \<noteq> id0"
  shows "untouched i q (snd (retryLocked now rnd iov id0 q))"
proof -
  obtain r q' where e: "retryLocked now rnd iov id0 q = (r, q')" by force
  then have "untouched i q q'"
    by (cases rule: retryLocked_cases)
      (use assms queue_okD(2) [OF assms(1)] in \<open>auto simp: untouched_def effect_defs same_ids_def\<close>)
  with e show ?thesis by simp
qed

lemma retryLocked_retried:
  assumes "queue_ok q" "retryLocked now rnd iov id0 q = (None, q')"
  shows "retried id0 q q'" "same_ids q q'"
  using assms(2) by (cases rule: retryLocked_cases;
    use queue_okD(8) [OF assms(1)] in \<open>auto simp: retried_def effect_defs same_ids_def\<close>)+

lemma expired_untouched:
  assumes "queue_ok q" "untouched (sw_id s) q q'"
  shows "expired s q' = expired s q"
  using assms(2) queue_okD(5,6) [OF assms(1)] by (auto simp: expired_def untouched_def)

lemma Sweeper_expired:
  "expired s q \<Longrightarrow> Sweeper (s # ss) q =
     (case retryLocked (sw_now s) (sw_rnd s) (sw_io s) (sw_id s) q of
        (Some e, q') \<Rightarrow> (Some e, q') | (None, q') \<Rightarrow> Sweeper ss q')"
  by (auto simp: expired_def)

lemma Sweeper_untouched:
  assumes "queue_ok q" "\<And>s. s \<in> set ss \<Longrightarrow> sw_id s = i \<Longrightarrow> \<not> expired s q"
  shows "untouched i q (snd (Sweeper ss q))"
  using assms
proof (induction ss arbitrary: q)
  case (Cons s ss)
  show ?case
  proof (cases "expired s q")
    case False
    have "untouched i q (snd (Sweeper ss q))" by (rule Cons.IH) (use Cons.prems in auto)
    then show ?thesis by (simp add: Sweeper_skip [OF False] del: Sweeper.simps)
  next
    case True
    with Cons.prems(2) have i: "i \<noteq> sw_id s" by auto
    obtain r q' where e: "retryLocked (sw_now s) (sw_rnd s) (sw_io s) (sw_id s) q = (r, q')" by force
    have u: "untouched i q q'" using retryLocked_untouched [OF Cons.prems(1) i] e by (metis snd_conv)
    show ?thesis
    proof (cases r)
      case None
      have "untouched i q' (snd (Sweeper ss q'))"
      proof (rule Cons.IH)
        show "queue_ok q'" using queue_ok_retryLocked [OF Cons.prems(1)] e by (metis snd_conv)
        show "\<not> expired s' q'" if "s' \<in> set ss" "sw_id s' = i" for s'
          using expired_untouched [OF Cons.prems(1), of s'] u Cons.prems(2) [of s'] that by simp
      qed
      with u show ?thesis by (simp add: Sweeper_expired [OF True] e None untouched_trans del: Sweeper.simps)
    qed (simp add: Sweeper_expired [OF True] e u del: Sweeper.simps)
  qed
qed simp

lemma Sweeper_retried:
  assumes "queue_wf q" "\<And>s. s \<in> set ss \<Longrightarrow> sw_io s = io_ok" "s \<in> set ss" "expired s q"
  shows "retried (sw_id s) q (snd (Sweeper ss q))"
  using assms
proof (induction ss arbitrary: q)
  case (Cons s' ss)
  note ok = queue_wfD(1) [OF Cons.prems(1)]
  show ?case
  proof (cases "expired s' q")
    case False
    then have "s \<in> set ss" using Cons.prems(3,4) by auto
    with Cons.IH [of q] Cons.prems show ?thesis by (simp add: Sweeper_skip [OF False] del: Sweeper.simps)
  next
    case True
    then obtain p where "index q (sw_id s') = Some p"
      using leased_live [OF Cons.prems(1)] by (auto simp: expired_def)
    then obtain q' where e: "retryLocked (sw_now s') (sw_rnd s') (sw_io s') (sw_id s') q = (None, q')"
      using Cons.prems(2) [of s'] by (metis list.set_intros(1) retryLocked_ok)
    then have run: "snd (Sweeper (s' # ss) q) = snd (Sweeper ss q')"
      by (simp add: Sweeper_expired [OF True] del: Sweeper.simps)
    have wf': "queue_wf q'"
      using queue_wf_retryLocked [OF Cons.prems(1)] True e by (metis expired_def option.distinct(1) snd_conv)
    show ?thesis
    proof (cases "sw_id s' = sw_id s")
      case True
      note r = retryLocked_retried [OF ok e]
      have "untouched (sw_id s) q' (snd (Sweeper ss q'))"
        using r(1) True by (intro Sweeper_untouched queue_wfD(1) [OF wf']) (auto simp: expired_def retried_def)
      with r True show ?thesis unfolding run by (metis ok retried_untouched)
    next
      case False
      have u: "untouched (sw_id s) q q'"
        using retryLocked_untouched [OF ok] False e by (metis snd_conv)
      have "s \<in> set ss" using Cons.prems(3) False by auto
      then have "retried (sw_id s) q' (snd (Sweeper ss q'))"
        using Cons.IH [OF wf'] Cons.prems(2,4) expired_untouched [OF ok u] by auto
      with u show ?thesis unfolding run by (metis ok untouched_retried)
    qed
  qed
qed simp

lemma Sweeper_no_error:
  assumes "queue_wf q" "\<And>s. s \<in> set ss \<Longrightarrow> sw_io s = io_ok"
  shows "fst (Sweeper ss q) = None"
  using assms
proof (induction ss arbitrary: q)
  case (Cons s ss)
  show ?case
  proof (cases "expired s q")
    case False
    with Cons show ?thesis by (simp add: Sweeper_skip [OF False] del: Sweeper.simps)
  next
    case True
    then obtain p where "index q (sw_id s) = Some p"
      using leased_live [OF Cons.prems(1)] by (auto simp: expired_def)
    then obtain q' where e: "retryLocked (sw_now s) (sw_rnd s) (sw_io s) (sw_id s) q = (None, q')"
      using Cons.prems(2) [of s] by (metis list.set_intros(1) retryLocked_ok)
    have "queue_wf q'"
      using queue_wf_retryLocked [OF Cons.prems(1)] True e by (metis expired_def option.distinct(1) snd_conv)
    with Cons.IH Cons.prems(2) e show ?thesis
      by (simp add: Sweeper_expired [OF True] del: Sweeper.simps)
  qed
qed simp

end
