(* ===== verification/Ledger.thy ===== *)
theory Ledger
  imports Delivery
begin

section \<open>The ledger: what the queue promises to keep\<close>

text \<open>
  The abstract specification of durability. A ledger records which tasks are live, which are dead,
  which idempotency keys are taken and which ids were ever used; \<open>ledger_apply\<close> is the meaning of one
  log record, undefined where the record makes no sense (a retry of a task that is not live). Leases,
  the ready heap and the availability times are not part of it: the queue does not log them.

  \<open>abs_ledger\<close> reads the ledger off a state of the queue. Every operation that changes the memory changes the
  ledger exactly as the record it has logged says; \<^verbatim>\<open>Dequeue\<close> logs nothing and leaves the ledger alone.
\<close>

record durable_task =
  dt_Payload :: bytes
  dt_Key :: string
  dt_EnqueuedAt :: time
  dt_Priority :: int
  dt_Retries :: int

record ledger =
  l_live :: "uuid \<rightharpoonup> durable_task"
  l_dead :: "uuid \<rightharpoonup> durable_task \<times> time"
  l_keys :: "string \<rightharpoonup> uuid"
  l_used :: "uuid set"

definition empty_ledger :: ledger where
  "empty_ledger = \<lparr>l_live = Map.empty, l_dead = Map.empty, l_keys = Map.empty, l_used = {}\<rparr>"

fun ledger_apply :: "payload \<Rightarrow> ledger \<Rightarrow> ledger option" where
  "ledger_apply (PEnqueue p) l =
     (if enq_IdempotencyKey p \<noteq> [] \<and> l_keys l (enq_IdempotencyKey p) \<noteq> None then Some l
      else if enq_ID p \<in> l_used l then None
      else Some (l\<lparr>l_live := (l_live l)(enq_ID p \<mapsto> \<lparr>dt_Payload = enq_Payload p,
                     dt_Key = enq_IdempotencyKey p, dt_EnqueuedAt = enq_EnqueuedAt p,
                     dt_Priority = enq_Priority p, dt_Retries = 0\<rparr>),
                   l_keys := (if enq_IdempotencyKey p = [] then l_keys l
                              else (l_keys l)(enq_IdempotencyKey p \<mapsto> enq_ID p)),
                   l_used := insert (enq_ID p) (l_used l)\<rparr>))"
| "ledger_apply (PDequeue p) l = None"
| "ledger_apply (PAck p) l =
     (case l_live l (ack_ID p) of None \<Rightarrow> None
      | Some t \<Rightarrow> Some (l\<lparr>l_live := (l_live l)(ack_ID p := None)\<rparr>))"
| "ledger_apply (PRetry p) l =
     (case l_live l (retry_ID p) of None \<Rightarrow> None
      | Some t \<Rightarrow> Some (l\<lparr>l_live := (l_live l)(retry_ID p \<mapsto> t\<lparr>dt_Retries := dt_Retries t + 1\<rparr>)\<rparr>))"
| "ledger_apply (PDead p) l =
     (case l_live l (dead_ID p) of None \<Rightarrow> None
      | Some t \<Rightarrow> Some (l\<lparr>l_live := (l_live l)(dead_ID p := None),
          l_dead := (l_dead l)(dead_ID p \<mapsto> (t\<lparr>dt_Retries := dead_Retries p\<rparr>, dead_FailedAt p))\<rparr>))"
| "ledger_apply (PRequeue p) l =
     (case l_dead l (requeue_ID p) of None \<Rightarrow> None
      | Some (t, _) \<Rightarrow> Some (l\<lparr>l_dead := (l_dead l)(requeue_ID p := None),
          l_live := (l_live l)(requeue_ID p \<mapsto> t\<lparr>dt_Retries := 0\<rparr>)\<rparr>))"
| "ledger_apply (PPurge p) l =
     (case l_dead l (purge_ID p) of None \<Rightarrow> None
      | Some _ \<Rightarrow> Some (l\<lparr>l_dead := (l_dead l)(purge_ID p := None)\<rparr>))"

fun ledger_run :: "payload list \<Rightarrow> ledger \<Rightarrow> ledger option" where
  "ledger_run [] l = Some l"
| "ledger_run (pl # pls) l = (case ledger_apply pl l of None \<Rightarrow> None | Some l' \<Rightarrow> ledger_run pls l')"

lemma ledger_run_append:
  "ledger_run (xs @ ys) l = (case ledger_run xs l of None \<Rightarrow> None | Some l' \<Rightarrow> ledger_run ys l')"
  by (induction xs arbitrary: l) (auto split: option.splits)

subsection \<open>Reading the ledger off the queue\<close>

definition durable :: "Task \<Rightarrow> durable_task" where
  "durable t = \<lparr>dt_Payload = Payload t, dt_Key = IdempotencyKey t, dt_EnqueuedAt = EnqueuedAt t,
     dt_Priority = Priority t, dt_Retries = Retries t\<rparr>"

definition abs_ledger :: "Queue \<Rightarrow> ledger" where
  "abs_ledger q =
     \<lparr>l_live = (\<lambda>i. map_option (\<lambda>p. durable (q_tasks q p)) (index q i)),
      l_dead = (\<lambda>i. map_option (\<lambda>p. (durable (q_tasks q p), FailedAt (q_tasks q p))) (dlq q i)),
      l_keys = (\<lambda>k. if k = [] then None else map_option (\<lambda>p. ID (q_tasks q p)) (indexOfIdemKeys q k)),
      l_used = {ID (q_tasks q p) |p. p < q_next q}\<rparr>"

lemma abs_ledger_empty: "abs_ledger (empty_queue w v s m) = empty_ledger"
  by (simp add: abs_ledger_def empty_queue_def empty_ledger_def fun_eq_iff)

lemma abs_ledger_wal [simp]: "abs_ledger (q\<lparr>wal := w\<rparr>) = abs_ledger q"
  by (simp add: abs_ledger_def cong: if_cong)

lemma abs_ledger_sel:
  "l_live (abs_ledger q) i = map_option (\<lambda>p. durable (q_tasks q p)) (index q i)"
  "l_dead (abs_ledger q) i = map_option (\<lambda>p. (durable (q_tasks q p), FailedAt (q_tasks q p))) (dlq q i)"
  "l_keys (abs_ledger q) k = (if k = [] then None else map_option (\<lambda>p. ID (q_tasks q p)) (indexOfIdemKeys q k))"
  "i \<in> l_used (abs_ledger q) \<longleftrightarrow> \<not> fresh i q"
  by (auto simp: abs_ledger_def fresh_def)

lemma ledger_eqI:
  assumes "\<And>i. l_live l i = l_live l' i" "\<And>i. l_dead l i = l_dead l' i" "\<And>k. l_keys l k = l_keys l' k"
    "\<And>i. i \<in> l_used l \<longleftrightarrow> i \<in> l_used l'"
  shows "l = (l' :: ledger)"
  using assms by (cases l; cases l') (auto simp: fun_eq_iff)

text \<open>When ids and keys stay, only the live and the dead tasks matter.\<close>

lemma abs_ledger_same_ids:
  assumes "same_ids q q'" "l_keys l = l_keys (abs_ledger q)" "l_used l = l_used (abs_ledger q)"
    "\<And>i. l_live (abs_ledger q') i = l_live l i" "\<And>i. l_dead (abs_ledger q') i = l_dead l i"
  shows "abs_ledger q' = l"
proof (rule ledger_eqI)
  show "l_keys (abs_ledger q') k = l_keys l k" for k
    using assms(1) by (simp add: assms(2) abs_ledger_sel same_ids_def)
  show "i \<in> l_used (abs_ledger q') \<longleftrightarrow> i \<in> l_used l" for i
    using assms(1) by (simp add: assms(3) abs_ledger_sel same_ids_def fresh_def)
qed (use assms in simp_all)

lemma option_map_cong_some: "(\<And>p. x = Some p \<Longrightarrow> f p = g p) \<Longrightarrow> map_option f x = map_option g x"
  by (cases x) simp_all

lemma durable_simps [simp]:
  "durable (t\<lparr>Status := s\<rparr>) = durable t" "durable (t\<lparr>FailedAt := f\<rparr>) = durable t"
  "durable (t\<lparr>AvailableAt := f\<rparr>) = durable t" "durable (t\<lparr>LeaseUntil := f\<rparr>) = durable t"
  "durable (t\<lparr>Retries := r\<rparr>) = (durable t)\<lparr>dt_Retries := r\<rparr>" "dt_Retries (durable t) = Retries t"
  by (simp_all add: durable_def)

subsection \<open>Each operation changes the ledger as its record says\<close>

lemma ledger_lease: "abs_ledger (lease now p (q\<lparr>ready := rest\<rparr>)) = abs_ledger q"
  by (rule abs_ledger_same_ids) (auto simp: abs_ledger_sel effect_defs same_ids_def intro!: option_map_cong_some)

lemma ledger_ack:
  assumes "queue_ok q" "index q id0 = Some p"
  shows "ledger_apply (PAck \<lparr>ack_ID = id0\<rparr>) (abs_ledger q) = Some (abs_ledger (ack_done id0 p q))"
proof -
  have "abs_ledger (ack_done id0 p q) = (abs_ledger q)\<lparr>l_live := (l_live (abs_ledger q))(id0 := None)\<rparr>"
    by (rule abs_ledger_same_ids [of q])
      (auto simp: abs_ledger_sel effect_defs same_ids_def intro!: option_map_cong_some)
  with assms(2) show ?thesis by (simp add: abs_ledger_sel)
qed

lemma ledger_die:
  assumes "queue_ok q" "index q id0 = Some p"
  shows "ledger_apply (PDead \<lparr>dead_ID = id0, dead_Retries = Retries (q_tasks q p) + 1, dead_FailedAt = now\<rparr>)
    (abs_ledger q) = Some (abs_ledger (die now id0 p q))"
proof -
  have "abs_ledger (die now id0 p q) = (abs_ledger q)\<lparr>l_live := (l_live (abs_ledger q))(id0 := None),
     l_dead := (l_dead (abs_ledger q))(id0 \<mapsto>
       ((durable (q_tasks q p))\<lparr>dt_Retries := Retries (q_tasks q p) + 1\<rparr>, now))\<rparr>"
    using filed_apart(1,3) [OF assms]
    by (intro abs_ledger_same_ids [of q])
      (auto simp: abs_ledger_sel effect_defs same_ids_def intro!: option_map_cong_some)
  with assms(2) show ?thesis by (simp add: abs_ledger_sel)
qed

lemma ledger_back:
  assumes "queue_ok q" "index q id0 = Some p"
  shows "ledger_apply (PRetry \<lparr>retry_ID = id0\<rparr>) (abs_ledger q) = Some (abs_ledger (back_to_ready now rnd id0 p q))"
proof -
  have "abs_ledger (back_to_ready now rnd id0 p q) = (abs_ledger q)\<lparr>l_live := (l_live (abs_ledger q))(id0 \<mapsto>
       (durable (q_tasks q p))\<lparr>dt_Retries := Retries (q_tasks q p) + 1\<rparr>)\<rparr>"
    using filed_apart(1,3) [OF assms] assms(2)
    by (intro abs_ledger_same_ids [of q])
      (auto simp: abs_ledger_sel effect_defs same_ids_def intro!: option_map_cong_some)
  with assms(2) show ?thesis by (simp add: abs_ledger_sel)
qed

lemma ledger_revive:
  assumes "queue_ok q" "dlq q id0 = Some p"
  shows "ledger_apply (PRequeue \<lparr>requeue_ID = id0\<rparr>) (abs_ledger q) = Some (abs_ledger (revive id0 p q))"
proof -
  have "abs_ledger (revive id0 p q) = (abs_ledger q)\<lparr>l_dead := (l_dead (abs_ledger q))(id0 := None),
     l_live := (l_live (abs_ledger q))(id0 \<mapsto> (durable (q_tasks q p))\<lparr>dt_Retries := 0\<rparr>)\<rparr>"
    using filed_apart(2,4) [OF assms]
    by (intro abs_ledger_same_ids [of q])
      (auto simp: abs_ledger_sel effect_defs same_ids_def intro!: option_map_cong_some)
  with assms(2) show ?thesis by (simp add: abs_ledger_sel)
qed

lemma ledger_purge:
  assumes "dlq q id0 = Some p"
  shows "ledger_apply (PPurge \<lparr>purge_ID = id0\<rparr>) (abs_ledger q) = Some (abs_ledger (purge_done id0 q))"
proof -
  have "abs_ledger (purge_done id0 q) = (abs_ledger q)\<lparr>l_dead := (l_dead (abs_ledger q))(id0 := None)\<rparr>"
    by (rule abs_ledger_same_ids [of q]) (simp_all add: abs_ledger_sel effect_defs same_ids_def)
  with assms show ?thesis by (simp add: abs_ledger_sel)
qed

lemma abs_ledger_ready [simp]: "abs_ledger (q\<lparr>ready := rs\<rparr>) = abs_ledger q"
  by (simp add: abs_ledger_def cong: if_cong)

lemma fresh_add: "fresh i (enqueue_add t q) \<longleftrightarrow> fresh i q \<and> ID t \<noteq> i"
  by (auto simp: fresh_def enqueue_add_simps less_Suc_eq)

lemma dedup_None_iff: "dedup k q = None \<longleftrightarrow> l_keys (abs_ledger q) k = None"
  by (simp add: dedup_def abs_ledger_sel)

lemma abs_ledger_add:
  assumes "queue_ok q"
  shows "abs_ledger (enqueue_add t q) = (abs_ledger q)
    \<lparr>l_live := (l_live (abs_ledger q))(ID t \<mapsto> durable t),
     l_keys := (if IdempotencyKey t = [] then l_keys (abs_ledger q)
                else (l_keys (abs_ledger q))(IdempotencyKey t \<mapsto> ID t)),
     l_used := insert (ID t) (l_used (abs_ledger q))\<rparr>"
proof (rule ledger_eqI, goal_cases)
  case (1 i)
  then show ?case using queue_okD(1) [OF assms, of i]
    by (auto simp: abs_ledger_sel enqueue_add_simps intro!: option_map_cong_some)
next
  case (2 i)
  then show ?case using queue_okD(3) [OF assms, of i]
    by (auto simp: abs_ledger_sel enqueue_add_simps intro!: option_map_cong_some)
next
  case (3 k)
  have "indexOfIdemKeys q k \<noteq> Some (q_next q)"
    using queue_okD_points(4) [OF assms] unfolding keys_ok_def by blast
  then show ?case by (auto simp: abs_ledger_sel enqueue_add_simps intro!: option_map_cong_some)
next
  case (4 i)
  then show ?case by (auto simp: abs_ledger_sel fresh_add)
qed

lemma ledger_add:
  assumes "queue_ok q" "fresh (ID t) q" "dedup (IdempotencyKey t) q = None" "Retries t = 0"
  shows "ledger_apply (PEnqueue (enqueue_payload t)) (abs_ledger q) = Some (abs_ledger (enqueue_add t q))"
proof -
  have "l_keys (abs_ledger q) (IdempotencyKey t) = None" "ID t \<notin> l_used (abs_ledger q)"
    using assms(2,3) by (simp_all add: dedup_None_iff abs_ledger_sel)
  with assms(4) show ?thesis
    by (simp add: abs_ledger_add [OF assms(1)] enqueue_payload_def durable_def)
qed

end
