(* ===== verification/Recovery.thy ===== *)
theory Recovery
  imports Ledger
begin

section \<open>Recovery: replaying the log\<close>

text \<open>
  \<^verbatim>\<open>applyRecord\<close> implements the ledger: if a log is a history of the ledger, replaying it cannot fail, and it
  rebuilds a queue with that ledger in which nothing is leased and every live task is ready.
\<close>

definition replay_wf :: "Queue \<Rightarrow> bool" where
  "replay_wf q \<longleftrightarrow> queue_ok q \<and> ready_exact q \<and> status_ok q \<and> indexOfInflight q = Map.empty"

lemma replay_wfD:
  assumes "replay_wf q"
  shows "queue_ok q" "ready_exact q" "status_ok q" "indexOfInflight q = Map.empty"
    "distinct (ready q)" "p \<in> set (ready q) \<longleftrightarrow> (\<exists>i. index q i = Some p)"
  using assms by (simp_all add: replay_wf_def ready_exact_def waiting_def)

lemma replay_wf_empty: "replay_wf (empty_queue w v s m)"
  using queue_wf_empty [of w v s m] by (simp add: queue_wf_def replay_wf_def empty_queue_def)

text \<open>\<open>heap.Init\<close> turns the rebuilt slice into a heap.\<close>

lemma queue_ok_ready: "queue_ok q \<Longrightarrow> set rs = set (ready q) \<Longrightarrow> queue_ok (q\<lparr>ready := rs\<rparr>)"
  by (rule queue_okI [of q])
    (auto simp: queue_okD_points same_ids_def no_loss_def live_xor_dead_def queue_okD dest: queue_okD(11))

lemma replay_wf_Init:
  assumes "replay_wf q"
  shows "queue_wf (q\<lparr>ready := heap_Init (readyHeap_Less (q_tasks q)) (ready q)\<rparr>)"
  using assms by (simp add: replay_wf_def queue_wf_def queue_ok_ready ready_exact_def leases_live_def
      status_ok_def heap_ok_def rh.heap_Init_heap)

lemma replay_wfI:
  assumes "replay_wf q" "same_ids q q'" "points (index q') q" "points (dlq q') q" "live_xor_dead q'"
    and "indexOfInflight q' = Map.empty" "ready_exact q'" "status_ok q'"
  shows "replay_wf q'"
proof -
  have r: "p \<in> set (ready q') \<longleftrightarrow> (\<exists>i. index q' i = Some p)" for p
    using assms(6,7) by (simp add: ready_exact_def waiting_def)
  have "queue_ok q'" using replay_wfD(1) [OF assms(1)] assms(2-4)
  proof (rule queue_okI)
    show "points (indexOfInflight q') q" by (simp add: assms(6) points_def)
    show "p < q_next q" if "p \<in> set (ready q')" for p
      using that r assms(3) unfolding points_def by blast
    show "no_loss q'" using r unfolding no_loss_def by blast
  qed (fact assms(5))
  with assms(6-8) show ?thesis by (simp add: replay_wf_def)
qed

subsection \<open>Removing from the slice\<close>

lemma remove_id_set:
  assumes "distinct ps" "\<And>p. p \<in> set ps \<Longrightarrow> ID (st p) = i \<longleftrightarrow> p = a"
  shows "set (remove_id st i ps) = set ps - {a} \<and> distinct (remove_id st i ps)"
  using assms by (induction ps) auto

lemma remove_id_ready:
  assumes "replay_wf q" "index q i = Some a"
  shows "set (remove_id (q_tasks q) i (ready q)) = set (ready q) - {a}"
    and "distinct (remove_id (q_tasks q) i (ready q))"
proof -
  have "ID (q_tasks q p) = i \<longleftrightarrow> p = a" if "p \<in> set (ready q)" for p
  proof -
    from that obtain j where "index q j = Some p" using replay_wfD(6) [OF assms(1)] by blast
    with queue_okD(2) [OF replay_wfD(1) [OF assms(1)]] assms(2) show ?thesis by auto
  qed
  with replay_wfD(5) [OF assms(1)]
  show "set (remove_id (q_tasks q) i (ready q)) = set (ready q) - {a}"
    and "distinct (remove_id (q_tasks q) i (ready q))"
    by (simp_all add: remove_id_set)
qed

subsection \<open>The handlers implement the ledger\<close>

text \<open>\<open>implements f pl q\<close>: where the record has a meaning for the ledger, the handler succeeds, keeps the
  invariant, and gives the state that meaning; it leaves the log and the configuration alone.\<close>

definition implements :: "(Queue \<Rightarrow> Queue result) \<Rightarrow> payload \<Rightarrow> Queue \<Rightarrow> bool" where
  "implements f pl q \<longleftrightarrow> (\<forall>l. ledger_apply pl (abs_ledger q) = Some l \<longrightarrow>
     (\<exists>q'. f q = Inr q' \<and> replay_wf q' \<and> abs_ledger q' = l \<and> wal q' = wal q \<and>
        visibilityTimeout q' = visibilityTimeout q \<and> sweepInterval q' = sweepInterval q \<and>
        maxRetries q' = maxRetries q))"

lemma implements_purge:
  assumes "replay_wf q"
  shows "implements (applyPurge p) (PPurge p) q"
proof -
  have "replay_wf (purge_done (purge_ID p) q)"
    using assms queue_ok_purge [of q "purge_ID p"]
    by (auto simp: replay_wf_def ready_exact_def status_ok_def purge_done_def)
  moreover have "abs_ledger (purge_done (purge_ID p) q) = l"
    if "ledger_apply (PPurge p) (abs_ledger q) = Some l" for l
    using that ledger_purge [of q "purge_ID p"] by (auto simp: abs_ledger_sel split: option.splits)
  ultimately show ?thesis by (simp add: implements_def purge_done_def)
qed

lemma replay_wf_add:
  assumes wf: "replay_wf q" and t: "fresh (ID t) q" "dedup (IdempotencyKey t) q = None" "Status t = StateReady"
  shows "replay_wf ((enqueue_add t q)\<lparr>ready := ready q @ [q_next q]\<rparr>)"
proof -
  let ?q = "(enqueue_add t q)\<lparr>ready := ready q @ [q_next q]\<rparr>"
  note ok = replay_wfD(1) [OF wf] and D = replay_wfD [OF wf]
  have "queue_ok ?q" using queue_ok_add [OF ok t(1,2)] by (rule queue_ok_ready) (simp add: enqueue_add_simps)
  moreover have "q_next q \<notin> set (ready q)" using queue_okD(7) [OF ok] by blast
  then have "ready_exact ?q"
    using D(2) fresh_unfiled [OF ok t(1)] by (auto simp: ready_exact_def enqueue_add_simps waiting_add)
  moreover have "status_ok ?q"
    using D(3,4) t(3) queue_okD(1,3) [OF ok] by (fastforce simp: status_ok_def enqueue_add_simps)
  ultimately show ?thesis using D(4) by (simp add: replay_wf_def enqueue_add_simps)
qed

lemma implements_enqueue:
  assumes wf: "replay_wf q"
  shows "implements (applyEnqueue p) (PEnqueue p) q"
  unfolding implements_def
proof (intro allI impI)
  fix l assume l: "ledger_apply (PEnqueue p) (abs_ledger q) = Some l"
  define t where "t = zero_Task\<lparr>ID := enq_ID p, IdempotencyKey := enq_IdempotencyKey p,
    Payload := enq_Payload p, Status := StateReady, EnqueuedAt := enq_EnqueuedAt p,
    Priority := enq_Priority p\<rparr>"
  have p: "enqueue_payload t = p" "Retries t = 0" "Status t = StateReady" "IdempotencyKey t = enq_IdempotencyKey p"
    by (simp_all add: enqueue_payload_def t_def zero_Task_def)
  have dup: "l_keys (abs_ledger q) (enq_IdempotencyKey p) \<noteq> None \<longleftrightarrow>
      enq_IdempotencyKey p \<noteq> [] \<and> indexOfIdemKeys q (enq_IdempotencyKey p) \<noteq> None"
    by (simp add: abs_ledger_sel)
  show "\<exists>q'. applyEnqueue p q = Inr q' \<and> replay_wf q' \<and> abs_ledger q' = l \<and> wal q' = wal q \<and>
      visibilityTimeout q' = visibilityTimeout q \<and> sweepInterval q' = sweepInterval q \<and> maxRetries q' = maxRetries q"
  proof (cases "enq_IdempotencyKey p \<noteq> [] \<and> indexOfIdemKeys q (enq_IdempotencyKey p) \<noteq> None")
    case True
    with l have "l = abs_ledger q" by (auto simp: abs_ledger_sel)
    with True wf show ?thesis by simp
  next
    case False
    with l dup have f: "fresh (ID t) q" "dedup (IdempotencyKey t) q = None"
      by (auto simp: dedup_None_iff t_def abs_ledger_sel split: if_splits)
    let ?q = "(enqueue_add t q)\<lparr>ready := ready q @ [q_next q]\<rparr>"
    have "abs_ledger ?q = l"
      using ledger_add [OF replay_wfD(1) [OF wf] f p(2)] l by (simp add: p)
    moreover have "applyEnqueue p q = Inr ?q"
      using False by (auto simp: enqueue_add_def heapPush_def Let_def t_def)
    moreover have "sweepInterval ?q = sweepInterval q"
      by (simp add: enqueue_add_def Let_def heapPush_def)
    ultimately show ?thesis
      using replay_wf_add [OF wf f p(3)] by (simp add: enqueue_add_simps del: applyEnqueue.simps)
  qed
qed

lemma implements_requeue:
  assumes wf: "replay_wf q"
  shows "implements (applyRequeue p) (PRequeue p) q"
  unfolding implements_def
proof (intro allI impI)
  fix l assume l: "ledger_apply (PRequeue p) (abs_ledger q) = Some l"
  then obtain a where a: "dlq q (requeue_ID p) = Some a" by (auto simp: abs_ledger_sel split: option.splits)
  let ?q = "(revive (requeue_ID p) a q)\<lparr>ready := ready q @ [a]\<rparr>"
  note ok = replay_wfD(1) [OF wf] and D = replay_wfD [OF wf]
  have "queue_ok ?q" using queue_ok_revive [OF ok a] by (rule queue_ok_ready) (simp add: effect_defs)
  moreover have "a \<notin> set (ready q)" using D(6) filed_apart(2) [OF ok a] by blast
  then have "ready_exact ?q"
    using D(2) queue_okD(9) [OF ok a] D(4) by (auto simp: ready_exact_def effect_defs waiting_add)
  moreover have "status_ok ?q"
    using D(3,4) filed_apart(4) [OF ok a] by (auto simp: status_ok_def effect_defs)
  ultimately have "replay_wf ?q" using D(4) by (simp add: replay_wf_def effect_defs)
  moreover have "abs_ledger ?q = l" using ledger_revive [OF ok a] l by (cases p) simp
  moreover have "applyRequeue p q = Inr ?q" using a by (simp add: effect_defs)
  ultimately show "\<exists>q'. applyRequeue p q = Inr q' \<and> replay_wf q' \<and> abs_ledger q' = l \<and> wal q' = wal q \<and>
      visibilityTimeout q' = visibilityTimeout q \<and> sweepInterval q' = sweepInterval q \<and> maxRetries q' = maxRetries q"
    by (intro exI [of _ ?q]) (simp add: effect_defs)
qed

lemma implements_retry:
  assumes wf: "replay_wf q"
  shows "implements (applyRetry now p) (PRetry p) q"
  unfolding implements_def
proof (intro allI impI)
  fix l assume l: "ledger_apply (PRetry p) (abs_ledger q) = Some l"
  then obtain a where a: "index q (retry_ID p) = Some a" by (auto simp: abs_ledger_sel split: option.splits)
  let ?t = "(q_tasks q a)\<lparr>Retries := Retries (q_tasks q a) + 1, Status := StateReady, AvailableAt := now\<rparr>"
  let ?q = "set_task a ?t q"
  note ok = replay_wfD(1) [OF wf] and D = replay_wfD [OF wf]
  have "ready_exact ?q" using D(2) by (simp add: ready_exact_def set_task_def)
  moreover have "status_ok ?q"
    using D(3,4) filed_apart(1) [OF ok a] by (simp add: status_ok_def set_task_def)
  ultimately have "replay_wf ?q"
    using D(4) queue_okD_points [OF ok]
    by (intro replay_wfI [OF wf]) (simp_all add: set_task_def same_ids_def live_xor_dead_def)
  moreover have "abs_ledger ?q = l"
    using l a filed_apart(1,3) [OF ok a]
    by (intro abs_ledger_same_ids [of q])
      (auto simp: abs_ledger_sel set_task_def same_ids_def intro!: option_map_cong_some)
  moreover have "applyRetry now p q = Inr ?q"
    using a D(4) by (simp add: set_task_def Let_def)
  ultimately show "\<exists>q'. applyRetry now p q = Inr q' \<and> replay_wf q' \<and> abs_ledger q' = l \<and> wal q' = wal q \<and>
      visibilityTimeout q' = visibilityTimeout q \<and> sweepInterval q' = sweepInterval q \<and> maxRetries q' = maxRetries q"
    by (intro exI [of _ ?q]) (simp add: set_task_def)
qed

text \<open>A handler that unfiles the task \<open>i\<close> from \<open>index\<close> and drops it from the slice keeps the ready slice exact.\<close>

lemma ready_exact_unfile:
  assumes wf: "replay_wf q" and a: "index q i = Some a"
    and q': "index q' = (index q)(i := None)" "indexOfInflight q' = Map.empty"
      "ready q' = remove_id (q_tasks q) i (ready q)"
  shows "ready_exact q'"
proof -
  have "x \<in> set (ready q') \<longleftrightarrow> x \<noteq> a \<and> (\<exists>j. index q j = Some x)" for x
    using remove_id_ready(1) [OF wf a] replay_wfD(6) [OF wf, of x] by (auto simp: q')
  moreover have "x \<noteq> a \<and> (\<exists>j. index q j = Some x) \<longleftrightarrow> (\<exists>j. index q' j = Some x)" for x
    using filed_apart(3) [OF replay_wfD(1) [OF wf] a] a unfolding q'
    by (metis fun_upd_apply option.distinct(1) option.inject)
  ultimately show ?thesis
    using remove_id_ready(2) [OF wf a] by (simp add: ready_exact_def waiting_def q')
qed

lemma implements_ack:
  assumes wf: "replay_wf q"
  shows "implements (applyAck p) (PAck p) q"
  unfolding implements_def
proof (intro allI impI)
  fix l assume l: "ledger_apply (PAck p) (abs_ledger q) = Some l"
  then obtain a where a: "index q (ack_ID p) = Some a" by (auto simp: abs_ledger_sel split: option.splits)
  let ?q = "q\<lparr>index := (index q)(ack_ID p := None), ready := remove_id (q_tasks q) (ack_ID p) (ready q)\<rparr>"
  note ok = replay_wfD(1) [OF wf] and D = replay_wfD [OF wf]
  have "ready_exact ?q" by (rule ready_exact_unfile [OF wf a]) (simp_all add: D)
  moreover have "status_ok ?q" using D(3,4) by (simp add: status_ok_def)
  ultimately have "replay_wf ?q"
    using D(4) queue_okD_points [OF ok]
    by (intro replay_wfI [OF wf]) (simp_all add: same_ids_def live_xor_dead_def)
  moreover have "abs_ledger ?q = l"
    using l a by (intro abs_ledger_same_ids [of q]) (auto simp: abs_ledger_sel same_ids_def)
  ultimately show "\<exists>q'. applyAck p q = Inr q' \<and> replay_wf q' \<and> abs_ledger q' = l \<and> wal q' = wal q \<and>
      visibilityTimeout q' = visibilityTimeout q \<and> sweepInterval q' = sweepInterval q \<and> maxRetries q' = maxRetries q"
    by (intro exI [of _ ?q]) simp
qed

lemma implements_dead:
  assumes wf: "replay_wf q"
  shows "implements (applyDead p) (PDead p) q"
  unfolding implements_def
proof (intro allI impI)
  fix l assume l: "ledger_apply (PDead p) (abs_ledger q) = Some l"
  then obtain a where a: "index q (dead_ID p) = Some a" by (auto simp: abs_ledger_sel split: option.splits)
  let ?i = "dead_ID p"
  let ?t = "(q_tasks q a)\<lparr>Status := StateDead, Retries := dead_Retries p, FailedAt := dead_FailedAt p\<rparr>"
  let ?q = "(set_task a ?t q)\<lparr>ready := remove_id (q_tasks q) ?i (ready q), dlq := (dlq q)(?i \<mapsto> a),
    index := (index q)(?i := None)\<rparr>"
  note ok = replay_wfD(1) [OF wf] and D = replay_wfD [OF wf]
  have i: "ID (q_tasks q a) = ?i" using queue_okD(2) [OF ok a] .
  have "ready_exact ?q" by (rule ready_exact_unfile [OF wf a]) (simp_all add: D set_task_def)
  moreover have "status_ok ?q"
    using D(3,4) filed_apart(3) [OF ok a] by (simp add: status_ok_def set_task_def)
  ultimately have "replay_wf ?q"
    using D(4) queue_okD_points [OF ok] queue_okD(1) [OF ok a] i
    by (intro replay_wfI [OF wf]) (simp_all add: same_ids_def live_xor_dead_def set_task_def)
  moreover have "abs_ledger ?q = l"
    using l a filed_apart(1,3) [OF ok a]
    by (intro abs_ledger_same_ids [of q])
      (auto simp: abs_ledger_sel same_ids_def set_task_def intro!: option_map_cong_some)
  moreover have "applyDead p q = Inr ?q" using a D(4) i by (simp add: set_task_def Let_def)
  ultimately show "\<exists>q'. applyDead p q = Inr q' \<and> replay_wf q' \<and> abs_ledger q' = l \<and> wal q' = wal q \<and>
      visibilityTimeout q' = visibilityTimeout q \<and> sweepInterval q' = sweepInterval q \<and> maxRetries q' = maxRetries q"
    by (intro exI [of _ ?q]) (simp add: set_task_def)
qed

subsection \<open>The whole log\<close>

text \<open>\<open>logs recs pls\<close>: the records \<open>recs\<close> encode the payloads \<open>pls\<close>, all of which fit the wire format.\<close>

definition logs :: "bytes list \<Rightarrow> payload list \<Rightarrow> bool" where
  "logs recs pls \<longleftrightarrow> list_all2 (\<lambda>r pl. record_of pl = Inr r \<and> payload_ok pl) recs pls"

lemma logs_simps [simp]:
  "logs [] pls \<longleftrightarrow> pls = []" "logs recs [] \<longleftrightarrow> recs = []"
  "logs (r # recs) (pl # pls) \<longleftrightarrow> record_of pl = Inr r \<and> payload_ok pl \<and> logs recs pls"
  by (auto simp: logs_def)

lemma logs_append1: "logs recs pls \<Longrightarrow> record_of pl = Inr r \<Longrightarrow> payload_ok pl \<Longrightarrow> logs (recs @ [r]) (pls @ [pl])"
  by (simp add: logs_def list_all2_appendI)

lemma logs_take: "logs recs pls \<Longrightarrow> logs (take n recs) (take n pls)"
  by (simp add: logs_def list_all2_takeI)

context uuid_lib
begin

text \<open>The handler of a record that fits the wire format is the handler of its payload.\<close>

lemma applyRecord_implements:
  assumes "record_of pl = Inr r" "payload_ok pl" "replay_wf q"
  shows "implements (applyRecord fb now r) pl q"
proof -
  have d: "decodeRecord fb r = Inr (op_of pl, pl)" using assms(1,2) by (rule decodeRecord_record_of [rotated])
  show ?thesis
  proof (cases pl)
    case (PEnqueue p)
    with d have "applyRecord fb now r = applyEnqueue p" by (simp add: applyRecord_def fun_eq_iff)
    with PEnqueue implements_enqueue [OF assms(3)] show ?thesis by simp
  next
    case (PDequeue p)
    then show ?thesis by (simp add: implements_def)
  next
    case (PAck p)
    with d have "applyRecord fb now r = applyAck p" by (simp add: applyRecord_def fun_eq_iff)
    with PAck implements_ack [OF assms(3)] show ?thesis by simp
  next
    case (PRetry p)
    with d have "applyRecord fb now r = applyRetry now p" by (simp add: applyRecord_def fun_eq_iff)
    with PRetry implements_retry [OF assms(3)] show ?thesis by simp
  next
    case (PDead p)
    with d have "applyRecord fb now r = applyDead p" by (simp add: applyRecord_def fun_eq_iff)
    with PDead implements_dead [OF assms(3)] show ?thesis by simp
  next
    case (PRequeue p)
    with d have "applyRecord fb now r = applyRequeue p" by (simp add: applyRecord_def fun_eq_iff)
    with PRequeue implements_requeue [OF assms(3)] show ?thesis by simp
  next
    case (PPurge p)
    with d have "applyRecord fb now r = applyPurge p" by (simp add: applyRecord_def fun_eq_iff)
    with PPurge implements_purge [OF assms(3)] show ?thesis by simp
  qed
qed

lemma apply_all_ledger:
  assumes "logs recs pls" "replay_wf q" "ledger_run pls (abs_ledger q) = Some l"
  shows "\<exists>m q'. apply_all (applyRecord_at fb clk) recs (n, q) = Inr (m, q') \<and> replay_wf q' \<and>
    abs_ledger q' = l \<and> wal q' = wal q \<and> visibilityTimeout q' = visibilityTimeout q \<and>
    sweepInterval q' = sweepInterval q \<and> maxRetries q' = maxRetries q"
  using assms
proof (induction recs arbitrary: pls q n)
  case Nil
  then show ?case by auto
next
  case (Cons r recs)
  then obtain pl pls' where pls: "pls = pl # pls'" by (cases pls) auto
  with Cons.prems obtain l1 where l1: "ledger_apply pl (abs_ledger q) = Some l1" "ledger_run pls' l1 = Some l"
    by (auto split: option.splits)
  have "implements (applyRecord fb (clk n) r) pl q"
    using Cons.prems pls by (intro applyRecord_implements) simp_all
  with l1(1) obtain q1 where q1: "applyRecord fb (clk n) r q = Inr q1" "replay_wf q1" "abs_ledger q1 = l1"
    "wal q1 = wal q" "visibilityTimeout q1 = visibilityTimeout q" "sweepInterval q1 = sweepInterval q"
    "maxRetries q1 = maxRetries q"
    unfolding implements_def by blast
  have "\<exists>m q'. apply_all (applyRecord_at fb clk) recs (Suc n, q1) = Inr (m, q') \<and> replay_wf q' \<and>
    abs_ledger q' = l \<and> wal q' = wal q1 \<and> visibilityTimeout q' = visibilityTimeout q1 \<and>
    sweepInterval q' = sweepInterval q1 \<and> maxRetries q' = maxRetries q1"
    using Cons.prems pls q1(2,3) l1(2) by (intro Cons.IH) simp_all
  moreover have "applyRecord_at fb clk r (n, q) = Inr (Suc n, q1)" using q1(1) by (simp add: applyRecord_at_def)
  ultimately show ?case using q1 by simp
qed

text \<open>Opening the queue on a log whose records are a history of the ledger, possibly followed by a
  torn frame.\<close>

lemma NewQueue_prefix:
  assumes pre: "\<And>f s. Replay_loop f \<lparr>rd_data = bs, rd_err = None\<rparr> s = apply_all f recs (s :: nat \<times> Queue)"
    and "logs recs pls" "ledger_run pls empty_ledger = Some l"
  shows "\<exists>q. NewQueue fb clk (disk_ok bs) vis sweep maxr = Inr q \<and> queue_wf q \<and> abs_ledger q = l \<and>
    indexOfInflight q = Map.empty \<and>
    wal q = \<lparr>wal_file = bs, wal_synced = length bs, wal_offset = int (length bs)\<rparr> \<and>
    visibilityTimeout q = vis \<and> sweepInterval q = sweep \<and> maxRetries q = maxr"
proof -
  let ?w = "\<lparr>wal_file = bs, wal_synced = length bs, wal_offset = int (length bs)\<rparr>"
  let ?q0 = "empty_queue ?w vis sweep maxr"
  have "ledger_run pls (abs_ledger ?q0) = Some l" by (simp add: abs_ledger_empty assms(3))
  from apply_all_ledger [OF assms(2) replay_wf_empty this]
  obtain m q where q: "apply_all (applyRecord_at fb clk) recs (0, ?q0) = Inr (m, q)" "replay_wf q"
      "abs_ledger q = l" "wal q = ?w" "visibilityTimeout q = vis" "sweepInterval q = sweep" "maxRetries q = maxr"
    by (fastforce simp: empty_queue_def)
  then have "NewQueue fb clk (disk_ok bs) vis sweep maxr =
      Inr (q\<lparr>ready := heap_Init (readyHeap_Less (q_tasks q)) (ready q)\<rparr>)"
    by (simp add: NewQueue_def disk_ok_def OpenWAL_def Replay_def pre)
  with q show ?thesis by (simp add: replay_wf_Init replay_wfD(4))
qed

end

lemma NewQueue_empty:
  "NewQueue fb clk (disk_ok []) vis sweep maxr = Inr (empty_queue \<lparr>wal_file = [], wal_synced = 0, wal_offset = 0\<rparr> vis sweep maxr)"
  by (simp add: NewQueue_def disk_ok_def OpenWAL_def Replay_def Replay_loop.simps decodeFrame_def ReadFull_def log_end_def
      heap_Init_def empty_queue_def)

end
