(* ===== verification/System.thy ===== *)
theory System
  imports Recovery
begin

section \<open>The running system: interleaved calls, crashes and restarts\<close>

text \<open>
  \<^verbatim>\<open>Enqueue\<close> releases the mutex while its record is appended, so enqueues overlap with one another and with every
  other call. The step relation \<open>step\<close> interleaves the three phases of any number of enqueues (check and
  build the task, append the record, publish the task) with the calls that hold the mutex throughout, and
  with crashes followed by a restart, which loses every enqueue in progress and rebuilds the queue from the file.

  The main result is that the file always holds a history of the ledger: the ledger of the memory plus the
  tasks that are written and not yet published.
\<close>

subsection \<open>Tasks on their way\<close>

definition add_task :: "Task \<Rightarrow> ledger \<Rightarrow> ledger" where
  "add_task t l = l
     \<lparr>l_live := (l_live l)(ID t \<mapsto> durable t),
      l_keys := (if IdempotencyKey t = [] then l_keys l else (l_keys l)(IdempotencyKey t \<mapsto> ID t)),
      l_used := insert (ID t) (l_used l)\<rparr>"

definition add_tasks :: "Task list \<Rightarrow> ledger \<Rightarrow> ledger" where
  "add_tasks ts l = foldr add_task ts l"

text \<open>Two enqueues in progress do not compete: different ids, and not the same key.\<close>

definition apart :: "Task \<Rightarrow> Task \<Rightarrow> bool" where
  "apart t u \<longleftrightarrow> ID t \<noteq> ID u \<and> (IdempotencyKey t = [] \<or> IdempotencyKey t \<noteq> IdempotencyKey u)"

lemma apart_sym: "apart t u \<Longrightarrow> apart u t"
  by (auto simp: apart_def)

lemma add_tasks_simps [simp]: "add_tasks [] l = l" "add_tasks (t # ts) l = add_task t (add_tasks ts l)"
  "add_tasks (ts @ us) l = add_tasks ts (add_tasks us l)"
  by (simp_all add: add_tasks_def)

lemma add_task_commute: "apart t u \<Longrightarrow> add_task t (add_task u l) = add_task u (add_task t l)"
  by (auto simp: add_task_def apart_def fun_upd_twist insert_commute)

lemma add_tasks_commute:
  "\<forall>u \<in> set ts. apart t u \<Longrightarrow> add_tasks ts (add_task t l) = add_task t (add_tasks ts l)"
  by (induction ts) (auto simp: add_task_commute dest: apart_sym)

lemma add_tasks_sel:
  "i \<in> l_used (add_tasks ts l) \<longleftrightarrow> i \<in> l_used l \<or> i \<in> ID ` set ts"
  "(\<forall>u \<in> set ts. IdempotencyKey u = [] \<or> IdempotencyKey u \<noteq> k) \<Longrightarrow> l_keys (add_tasks ts l) k = l_keys l k"
  by (induction ts) (auto simp: add_task_def)

lemma abs_ledger_enqueue: "queue_ok q \<Longrightarrow> abs_ledger (enqueue_add t q) = add_task t (abs_ledger q)"
  by (simp add: abs_ledger_add add_task_def)

lemma ledger_apply_enqueue:
  assumes "l_keys l (IdempotencyKey t) = None" "ID t \<notin> l_used l" "Retries t = 0"
  shows "ledger_apply (PEnqueue (enqueue_payload t)) l = Some (add_task t l)"
  using assms by (simp add: enqueue_payload_def add_task_def durable_def)

text \<open>Records about other tasks commute with the tasks on their way.\<close>

fun subject :: "payload \<Rightarrow> uuid" where
  "subject (PEnqueue p) = enq_ID p"
| "subject (PDequeue p) = deq_ID p"
| "subject (PAck p) = ack_ID p"
| "subject (PRetry p) = retry_ID p"
| "subject (PDead p) = dead_ID p"
| "subject (PRequeue p) = requeue_ID p"
| "subject (PPurge p) = purge_ID p"

definition is_enqueue :: "payload \<Rightarrow> bool" where
  "is_enqueue pl \<longleftrightarrow> (\<exists>p. pl = PEnqueue p)"

lemma ledger_apply_add_task:
  assumes "ledger_apply pl l = Some l'" "\<not> is_enqueue pl" "subject pl \<noteq> ID t"
  shows "ledger_apply pl (add_task t l) = Some (add_task t l')"
  using assms by (cases pl) (auto simp: add_task_def is_enqueue_def fun_upd_twist split: option.splits)

lemma ledger_apply_add_tasks:
  assumes "ledger_apply pl l = Some l'" "\<not> is_enqueue pl" "\<forall>t \<in> set ts. subject pl \<noteq> ID t"
  shows "ledger_apply pl (add_tasks ts l) = Some (add_tasks ts l')"
  using assms by (induction ts) (auto simp: ledger_apply_add_task)

subsection \<open>The log tracks the memory\<close>

definition retries_fit :: "Queue \<Rightarrow> bool" where
  "retries_fit q \<longleftrightarrow> (\<forall>i t. l_live (abs_ledger q) i = Some t \<longrightarrow> 0 \<le> dt_Retries t \<and> dt_Retries t < 2 ^ 32 - 1)"

text \<open>\<open>tracks ts q\<close>: the log on disk is a history of the ledger of \<open>q\<close> with the written tasks \<open>ts\<close> added.\<close>

definition history :: "WAL \<Rightarrow> ledger \<Rightarrow> bool" where
  "history w l \<longleftrightarrow> (\<exists>recs pls. log_holds w recs \<and> logs recs pls \<and> ledger_run pls empty_ledger = Some l)"

definition tracks :: "Task list \<Rightarrow> Queue \<Rightarrow> bool" where
  "tracks ts q \<longleftrightarrow> queue_ok q \<and> maxRetries q < 2 ^ 32 - 1 \<and> retries_fit q \<and>
     (\<forall>t \<in> set ts. fresh (ID t) q) \<and> history (wal q) (add_tasks ts (abs_ledger q))"

lemma history_append:
  assumes "history w l" "ledger_apply pl l = Some l'" "record_of pl = Inr r" "payload_ok pl" "fits r"
    "Append r i w = (None, w')"
  shows "history w' l'"
proof -
  from assms(1) obtain recs pls where h: "log_holds w recs" "logs recs pls" "ledger_run pls empty_ledger = Some l"
    unfolding history_def by blast
  have "log_holds w' (recs @ [r])" using h(1) assms(5,6) by (rule walog.append_holds)
  moreover have "logs (recs @ [r]) (pls @ [pl])" using h(2) assms(3,4) by (rule logs_append1)
  moreover have "ledger_run (pls @ [pl]) empty_ledger = Some l'"
    using h(3) assms(2) by (simp add: ledger_run_append)
  ultimately show ?thesis unfolding history_def by blast
qed

lemma fresh_same: "same_ids q q' \<Longrightarrow> fresh i q' = fresh i q"
  by (simp add: fresh_def same_ids_def)

text \<open>The rule for every logged operation: it appends the record of \<open>pl\<close> and changes the memory as \<open>pl\<close> says.\<close>

lemma tracks_logged:
  assumes t: "tracks ts q" and a: "Append r i (wal q) = (None, w)"
    and pl: "record_of pl = Inr r" "payload_ok pl" "fits r" "\<not> is_enqueue pl" "\<not> fresh (subject pl) q"
      "ledger_apply pl (abs_ledger q) = Some (abs_ledger q')"
    and q': "queue_ok q'" "same_ids q q'" "wal q' = w" "maxRetries q' = maxRetries q" "retries_fit q'"
  shows "tracks ts q'"
proof -
  have "\<forall>u \<in> set ts. subject pl \<noteq> ID u" using t pl(5) by (auto simp: tracks_def)
  from ledger_apply_add_tasks [OF pl(6,4) this]
  have "history (wal q') (add_tasks ts (abs_ledger q'))"
    using t a pl(1-3) q'(3) by (auto simp: tracks_def intro: history_append)
  with t q' show ?thesis by (simp add: tracks_def fresh_same)
qed

text \<open>Disk outcomes that leave the file a sequence of whole records: success, or a failure before the first
  byte is written.\<close>

definition clean :: "io \<Rightarrow> bool" where
  "clean i \<longleftrightarrow> i = io_ok \<or> (\<exists>e. io_write i = WriteErr 0 e)"

lemma clean_failed: "clean i \<Longrightarrow> Append r i w = (Some e, w') \<Longrightarrow> w' = w"
  by (auto simp: clean_def Append_ok Append_clean_failure)

lemma clean_error: "clean i \<Longrightarrow> log_after_error i w w' \<Longrightarrow> w' = w"
  using clean_failed by (auto simp: log_after_error_def)

subsection \<open>Every call that holds the mutex keeps track\<close>

lemma filed_not_fresh:
  assumes "queue_ok q" "index q i = Some p \<or> dlq q i = Some p"
  shows "\<not> fresh i q"
  using assms fresh_unfiled by fastforce

lemma retries_fit_iff:
  "retries_fit q \<longleftrightarrow> (\<forall>i p. index q i = Some p \<longrightarrow> 0 \<le> Retries (q_tasks q p) \<and> Retries (q_tasks q p) < 2 ^ 32 - 1)"
proof -
  have "l_live (abs_ledger q) i = Some t \<longleftrightarrow> (\<exists>p. index q i = Some p \<and> t = durable (q_tasks q p))" for i t
    by (auto simp: abs_ledger_sel)
  then have "retries_fit q \<longleftrightarrow> (\<forall>i t p. index q i = Some p \<and> t = durable (q_tasks q p) \<longrightarrow>
      0 \<le> dt_Retries t \<and> dt_Retries t < 2 ^ 32 - 1)"
    unfolding retries_fit_def by blast
  then show ?thesis by simp
qed

lemma retries_fit_effects:
  assumes "queue_ok q" "retries_fit q"
  shows "retries_fit (ack_done id0 p q)" "retries_fit (purge_done id0 q)"
    "retries_fit (lease now p (q\<lparr>ready := rest\<rparr>))" "retries_fit (revive id0 p q)"
    "index q id0 = Some p \<Longrightarrow> retries_fit (die now id0 p q)"
    "index q id0 = Some p \<Longrightarrow> Retries (q_tasks q p) + 1 \<le> maxRetries q \<Longrightarrow> maxRetries q < 2 ^ 32 - 1 \<Longrightarrow>
      retries_fit (back_to_ready now rnd id0 p q)"
    "Retries t = 0 \<Longrightarrow> retries_fit (enqueue_add t q)"
  using assms(2) index_inject [OF assms(1)]
  by (auto simp: retries_fit_iff effect_defs enqueue_add_simps)

lemma tracks_wal_same: "tracks ts q \<Longrightarrow> w = wal q \<Longrightarrow> tracks ts (q\<lparr>wal := w\<rparr>)"
  by simp

lemma effects_wal [simp]:
  "wal (ack_done id0 p q) = wal q" "wal (die now id0 p q) = wal q" "wal (back_to_ready now rnd id0 p q) = wal q"
  "wal (revive id0 p q) = wal q" "wal (purge_done id0 q) = wal q"
  "maxRetries (ack_done id0 p q) = maxRetries q" "maxRetries (die now id0 p q) = maxRetries q"
  "maxRetries (back_to_ready now rnd id0 p q) = maxRetries q"
  "maxRetries (revive id0 p q) = maxRetries q" "maxRetries (purge_done id0 q) = maxRetries q"
  by (simp_all add: effect_defs)

lemma same_ids_wal: "same_ids (q\<lparr>wal := w\<rparr>) q' = same_ids q q'"
  by (simp add: same_ids_def)

lemma retries_fit_wal [simp]: "retries_fit (q\<lparr>wal := w\<rparr>) = retries_fit q"
  by (simp add: retries_fit_def)

lemma same_ids_after [simp]:
  "same_ids q (ack_done id0 p (q\<lparr>wal := w\<rparr>))" "same_ids q (die now id0 p (q\<lparr>wal := w\<rparr>))"
  "same_ids q (back_to_ready now rnd id0 p (q\<lparr>wal := w\<rparr>))" "same_ids q (revive id0 p (q\<lparr>wal := w\<rparr>))"
  "same_ids q (purge_done id0 (q\<lparr>wal := w\<rparr>))"
  by (simp_all flip: same_ids_wal [of w q])

lemma tracksD:
  assumes "tracks ts q"
  shows "queue_ok q" "retries_fit q" "maxRetries q < 2 ^ 32 - 1"
  using assms by (simp_all add: tracks_def)

lemma tracks_Ack:
  assumes t: "tracks ts q" and i: "clean i"
  shows "tracks ts (snd (Ack i id0 q))"
proof -
  obtain r q' where e: "Ack i id0 q = (r, q')" by force
  then have "tracks ts q'"
  proof (cases rule: Ack_cases)
    case (error e w)
    with t clean_error [OF i error(3)] show ?thesis by simp
  next
    case (success p w)
    note ok = tracksD(1) [OF t]
    show ?thesis
    proof (rule tracks_logged [OF t success(4), of "PAck \<lparr>ack_ID = id0\<rparr>"])
      show "ledger_apply (PAck \<lparr>ack_ID = id0\<rparr>) (abs_ledger q) = Some (abs_ledger q')"
        using ledger_ack [of "q\<lparr>wal := w\<rparr>" id0 p] ok success by (simp del: ledger_apply.simps)
    qed (use success ok tracksD(2) [OF t] filed_not_fresh in
      \<open>auto simp: record_of_def encodeAckPayload_def fits_def encodeRecord_def is_enqueue_def queue_ok_ack
        intro: retries_fit_effects\<close>)
  qed
  with e show ?thesis by simp
qed

lemma tracks_retryLocked:
  assumes t: "tracks ts q" and i: "clean i" and now: "in_int64 now"
  shows "tracks ts (snd (retryLocked now rnd i id0 q))"
proof -
  obtain r q' where e: "retryLocked now rnd i id0 q = (r, q')" by force
  note ok = tracksD(1) [OF t] and fit = tracksD(2) [OF t]
  from e have "tracks ts q'"
  proof (cases rule: retryLocked_cases)
    case (error e w)
    with t clean_error [OF i error(3)] show ?thesis by simp
  next
    case (dead p w)
    let ?pl = "PDead \<lparr>dead_ID = id0, dead_Retries = Retries (q_tasks q p) + 1, dead_FailedAt = now\<rparr>"
    show ?thesis
    proof (rule tracks_logged [OF t dead(5), of ?pl])
      show "ledger_apply ?pl (abs_ledger q) = Some (abs_ledger q')"
        using ledger_die [of "q\<lparr>wal := w\<rparr>" id0 p now] ok dead by (simp del: ledger_apply.simps)
      have "0 \<le> Retries (q_tasks q p)" "Retries (q_tasks q p) < 2 ^ 32 - 1"
        using fit dead(1) by (auto simp: retries_fit_iff)
      then show "payload_ok ?pl" using now by (simp add: DeadPayload_ok_def)
    qed (use dead ok fit filed_not_fresh in
      \<open>auto simp: record_of_def encodeDeadPayload_def fits_def encodeRecord_def is_enqueue_def queue_ok_die
        intro: retries_fit_effects\<close>)
  next
    case (again p w)
    show ?thesis
    proof (rule tracks_logged [OF t again(5), of "PRetry \<lparr>retry_ID = id0\<rparr>"])
      show "ledger_apply (PRetry \<lparr>retry_ID = id0\<rparr>) (abs_ledger q) = Some (abs_ledger q')"
        using ledger_back [of "q\<lparr>wal := w\<rparr>" id0 p now rnd] ok again by (simp del: ledger_apply.simps)
      show "retries_fit q'"
        using again ok fit tracksD(3) [OF t] by (simp add: retries_fit_effects(6))
    qed (use again ok filed_not_fresh in
      \<open>auto simp: record_of_def encodeRetryPayload_def fits_def encodeRecord_def is_enqueue_def queue_ok_back\<close>)
  qed
  with e show ?thesis by simp
qed

lemma tracks_RequeueDead:
  assumes t: "tracks ts q" and i: "clean i"
  shows "tracks ts (snd (RequeueDead i id0 q))"
proof -
  obtain r q' where e: "RequeueDead i id0 q = (r, q')" by force
  note ok = tracksD(1) [OF t]
  from e have "tracks ts q'"
  proof (cases rule: RequeueDead_cases)
    case (error e w)
    with t clean_error [OF i error(3)] show ?thesis by simp
  next
    case (success p w)
    show ?thesis
    proof (rule tracks_logged [OF t success(4), of "PRequeue \<lparr>requeue_ID = id0\<rparr>"])
      show "ledger_apply (PRequeue \<lparr>requeue_ID = id0\<rparr>) (abs_ledger q) = Some (abs_ledger q')"
        using ledger_revive [of "q\<lparr>wal := w\<rparr>" id0 p] ok success by (simp del: ledger_apply.simps)
    qed (use success ok tracksD(2) [OF t] filed_not_fresh in
      \<open>auto simp: record_of_def encodeRequeuePayload_def fits_def encodeRecord_def is_enqueue_def queue_ok_revive
        intro: retries_fit_effects\<close>)
  qed
  with e show ?thesis by simp
qed

lemma tracks_PurgeDeadTask:
  assumes t: "tracks ts q" and i: "clean i"
  shows "tracks ts (snd (PurgeDeadTask i id0 q))"
proof -
  obtain r q' where e: "PurgeDeadTask i id0 q = (r, q')" by force
  note ok = tracksD(1) [OF t]
  from e have "tracks ts q'"
  proof (cases rule: PurgeDeadTask_cases)
    case (error e w)
    with t clean_error [OF i error(3)] show ?thesis by simp
  next
    case (success p w)
    show ?thesis
    proof (rule tracks_logged [OF t success(4), of "PPurge \<lparr>purge_ID = id0\<rparr>"])
      show "ledger_apply (PPurge \<lparr>purge_ID = id0\<rparr>) (abs_ledger q) = Some (abs_ledger q')"
        using ledger_purge [of "q\<lparr>wal := w\<rparr>" id0 p] success by (simp del: ledger_apply.simps)
    qed (use success ok tracksD(2) [OF t] filed_not_fresh in
      \<open>auto simp: record_of_def encodePurgePayload_def fits_def encodeRecord_def is_enqueue_def queue_ok_purge
        intro: retries_fit_effects\<close>)
  qed
  with e show ?thesis by simp
qed

lemma tracks_Dequeue:
  assumes t: "tracks ts q"
  shows "tracks ts (snd (Dequeue now q))"
proof -
  obtain r q' where e: "Dequeue now q = (r, q')" by force
  then have "tracks ts q'"
  proof (cases rule: Dequeue_cases)
    case (success p rest)
    have "wal q' = wal q" "maxRetries q' = maxRetries q" "same_ids q q'"
      using success(6) by (simp_all add: effect_defs same_ids_def)
    moreover have "abs_ledger q' = abs_ledger q" using success(6) ledger_lease by simp
    moreover have "queue_ok q'" using queue_ok_Dequeue [OF tracksD(1) [OF t], of now] e by simp
    ultimately show ?thesis using t by (simp add: tracks_def retries_fit_def fresh_same)
  qed (use t in simp)
  with e show ?thesis by simp
qed

text \<open>The readings of the clock that reach the log are within the range of \<^verbatim>\<open>UnixNano\<close>.\<close>

fun call_ok :: "call \<Rightarrow> bool" where
  "call_ok (CEnqueue new now i pl k) = False"
| "call_ok (CDequeue now) = True"
| "call_ok (CAck i id0) = clean i"
| "call_ok (CRetry now rnd i id0) = (clean i \<and> in_int64 now)"
| "call_ok (CSweep ss) = (\<forall>s \<in> set ss. clean (sw_io s) \<and> in_int64 (sw_now s))"
| "call_ok (CRequeue i id0) = clean i"
| "call_ok (CPurge i id0) = clean i"

lemma tracks_exec:
  assumes "tracks ts q" "call_ok c"
  shows "tracks ts (exec c q)"
proof (cases c)
  case (CSweep ss)
  have "tracks ts (snd (Sweeper ss q))"
    by (rule Sweeper_invariant) (use assms CSweep in \<open>auto intro: tracks_retryLocked\<close>)
  with CSweep show ?thesis by simp
qed (use assms in \<open>auto simp: Retry_def intro: tracks_Ack tracks_Dequeue tracks_retryLocked
      tracks_RequeueDead tracks_PurgeDeadTask\<close>)

subsection \<open>The step relation\<close>

record system =
  sys_q :: Queue
  submitted :: "Task list"
  written :: "Task list"

text \<open>The record of the task fits the wire format and a frame.\<close>

definition enqueue_fits :: "Task \<Rightarrow> bool" where
  "enqueue_fits t \<longleftrightarrow> payload_ok (PEnqueue (enqueue_payload t)) \<and>
     length (IdempotencyKey t) + length (Payload t) + 37 < 2 ^ 32"

inductive istep :: "system \<Rightarrow> system \<Rightarrow> bool" where
  enq_begin: "dedup k q = None \<Longrightarrow> fresh new q \<Longrightarrow> new \<notin> ID ` set (sub @ wr) \<Longrightarrow>
     enqueue_fits (new_task new now pl k) \<Longrightarrow>
     istep \<lparr>sys_q = q, submitted = sub, written = wr\<rparr>
       \<lparr>sys_q = q, submitted = new_task new now pl k # sub, written = wr\<rparr>"
| enq_append: "enqueue_record t = Inr rec \<Longrightarrow> Append rec i (wal q) = (None, w) \<Longrightarrow>
     istep \<lparr>sys_q = q, submitted = xs @ t # ys, written = wr\<rparr>
       \<lparr>sys_q = q\<lparr>wal := w\<rparr>, submitted = xs @ ys, written = t # wr\<rparr>"
| enq_fail: "enqueue_record t = Inr rec \<Longrightarrow> clean i \<Longrightarrow> Append rec i (wal q) = (Some e, w) \<Longrightarrow>
     istep \<lparr>sys_q = q, submitted = xs @ t # ys, written = wr\<rparr>
       \<lparr>sys_q = q\<lparr>wal := w\<rparr>, submitted = xs @ ys, written = wr\<rparr>"
| enq_publish: "enqueue_publish t q = (r, q') \<Longrightarrow>
     istep \<lparr>sys_q = q, submitted = sub, written = xs @ t # ys\<rparr>
       \<lparr>sys_q = q', submitted = sub, written = xs @ ys\<rparr>"
| mutex_call: "call_ok c \<Longrightarrow>
     istep \<lparr>sys_q = q, submitted = sub, written = wr\<rparr> \<lparr>sys_q = exec c q, submitted = sub, written = wr\<rparr>"

text \<open>A crash and a restart: what was in memory is gone, the queue is rebuilt from the file.\<close>

inductive step :: "(bytes \<Rightarrow> uuid result) \<Rightarrow> system \<Rightarrow> system \<Rightarrow> bool" for fb where
  running: "istep s s' \<Longrightarrow> step fb s s'"
| restart: "NewQueue fb clk (disk_ok (wal_file (wal q))) vis sweep maxr = Inr q' \<Longrightarrow> maxr < 2 ^ 32 - 1 \<Longrightarrow>
     step fb \<lparr>sys_q = q, submitted = sub, written = wr\<rparr> \<lparr>sys_q = q', submitted = [], written = []\<rparr>"

text \<open>No two enqueues in progress compete for a key.\<close>

definition no_race :: "system \<Rightarrow> bool" where
  "no_race s \<longleftrightarrow> sorted_wrt apart (submitted s @ written s)"

definition start :: "duration \<Rightarrow> duration \<Rightarrow> int \<Rightarrow> system" where
  "start vis sweep maxr =
     \<lparr>sys_q = empty_queue \<lparr>wal_file = [], wal_synced = 0, wal_offset = 0\<rparr> vis sweep maxr, submitted = [], written = []\<rparr>"

inductive reachable :: "(bytes \<Rightarrow> uuid result) \<Rightarrow> system \<Rightarrow> bool" for fb where
  reach_start: "maxr < 2 ^ 32 - 1 \<Longrightarrow> reachable fb (start vis sweep maxr)"
| reach_step: "reachable fb s \<Longrightarrow> step fb s s' \<Longrightarrow> no_race s' \<Longrightarrow> reachable fb s'"

text \<open>A task on its way: its id and key are still unknown to the queue.\<close>

definition on_its_way :: "Queue \<Rightarrow> Task \<Rightarrow> bool" where
  "on_its_way q t \<longleftrightarrow> fresh (ID t) q \<and> dedup (IdempotencyKey t) q = None \<and> enqueue_fits t \<and>
     Status t = StateReady \<and> Retries t = 0"

definition sys_ok :: "system \<Rightarrow> bool" where
  "sys_ok s \<longleftrightarrow> tracks (written s) (sys_q s) \<and> no_race s \<and>
     (\<forall>t \<in> set (submitted s @ written s). on_its_way (sys_q s) t)"

lemma dedup_same: "same_ids q q' \<Longrightarrow> dedup k q' = dedup k q"
  by (simp add: same_ids_def dedup_def cong: if_cong)

lemma on_its_way_same: "same_ids q q' \<Longrightarrow> on_its_way q' t = on_its_way q t"
  by (simp add: on_its_way_def fresh_same dedup_same)

lemma same_ids_retryLocked: "same_ids q (snd (retryLocked now rnd i id0 q))"
proof -
  obtain r q' where e: "retryLocked now rnd i id0 q = (r, q')" by force
  then show ?thesis by (cases rule: retryLocked_cases) (use e in auto)
qed

lemma same_ids_trans: "same_ids q q' \<Longrightarrow> same_ids q' q'' \<Longrightarrow> same_ids q q''"
  by (simp add: same_ids_def)

fun enqueues :: "call \<Rightarrow> bool" where
  "enqueues (CEnqueue new now i pl k) = True"
| "enqueues c = False"

lemma call_ok_enqueues: "call_ok c \<Longrightarrow> \<not> enqueues c"
  by (cases c) simp_all

lemma same_ids_exec:
  assumes "\<not> enqueues c"
  shows "same_ids q (exec c q)"
proof (cases c)
  case (CDequeue now)
  obtain r q' where e: "Dequeue now q = (r, q')" by force
  then show ?thesis unfolding CDequeue
    by (cases rule: Dequeue_cases) (use e in \<open>auto simp: same_ids_def effect_defs\<close>)
next
  case (CAck i id0)
  obtain r q' where e: "Ack i id0 q = (r, q')" by force
  then show ?thesis unfolding CAck by (cases rule: Ack_cases) (use e in auto)
next
  case (CSweep ss)
  have "same_ids q (snd (Sweeper ss q))"
    by (rule Sweeper_invariant) (simp add: same_ids_def, metis same_ids_retryLocked same_ids_trans)
  with CSweep show ?thesis by simp
next
  case (CRequeue i id0)
  obtain r q' where e: "RequeueDead i id0 q = (r, q')" by force
  then show ?thesis unfolding CRequeue by (cases rule: RequeueDead_cases) (use e in auto)
next
  case (CPurge i id0)
  obtain r q' where e: "PurgeDeadTask i id0 q = (r, q')" by force
  then show ?thesis unfolding CPurge by (cases rule: PurgeDeadTask_cases) (use e in auto)
qed (use assms in \<open>simp_all add: Retry_def same_ids_retryLocked\<close>)

text \<open>A key once taken stays taken, by the same task.\<close>

lemma dedup_exec:
  assumes "queue_ok q" "dedup k q = Some u"
  shows "dedup k (exec c q) = Some u"
proof (cases "enqueues c")
  case False
  then show ?thesis using assms(2) dedup_same [OF same_ids_exec] by metis
next
  case True
  then obtain new now i pl k' where c: "c = CEnqueue new now i pl k'" by (cases c) auto
  from assms(2) obtain p where p: "k \<noteq> []" "indexOfIdemKeys q k = Some p" "ID (q_tasks q p) = u"
    by (auto simp: dedup_def split: if_splits)
  then have n: "p \<noteq> q_next q" using queue_okD_points(4) [OF assms(1)] unfolding keys_ok_def by blast
  obtain r q' where e: "Enqueue new now i pl k' q = (r, q')" by force
  then have "dedup k q' = Some u"
  proof (cases rule: Enqueue_cases)
    case (success flds w)
    then have "k' \<noteq> k" using assms(2) by auto
    with success p n show ?thesis by (simp add: dedup_def enqueue_add_simps)
  qed (use assms(2) in simp_all)
  with e c show ?thesis by simp
qed

lemma dedup_run: "run cs q q' \<Longrightarrow> queue_ok q \<Longrightarrow> dedup k q = Some u \<Longrightarrow> dedup k q' = Some u"
  by (induction rule: run.induct) (auto simp: queue_ok_exec dedup_exec)

subsection \<open>The phases of an enqueue keep the invariant\<close>

lemma enqueue_record_fits:
  assumes "enqueue_record t = Inr rec" "enqueue_fits t"
  shows "record_of (PEnqueue (enqueue_payload t)) = Inr rec" "fits rec"
  using assms by (auto simp: enqueue_record_def record_of_def enqueue_payload_def encodeEnqueuePayload_def
      fits_def encodeRecord_def enqueue_fits_def)

lemma tracks_append:
  assumes t: "tracks wr q" and w: "on_its_way q t" "\<forall>u \<in> set wr. apart t u"
    and a: "enqueue_record t = Inr rec" "Append rec i (wal q) = (None, w')"
  shows "tracks (t # wr) (q\<lparr>wal := w'\<rparr>)"
proof -
  let ?l = "add_tasks wr (abs_ledger q)"
  have "l_keys ?l (IdempotencyKey t) = l_keys (abs_ledger q) (IdempotencyKey t)"
    using w(2) by (intro add_tasks_sel) (auto simp: apart_def)
  then have k: "l_keys ?l (IdempotencyKey t) = None"
    using w(1) by (simp add: on_its_way_def dedup_None_iff)
  have "ID t \<notin> l_used ?l"
    using w by (auto simp: add_tasks_sel abs_ledger_sel on_its_way_def apart_def)
  with k w(1) have l: "ledger_apply (PEnqueue (enqueue_payload t)) ?l = Some (add_task t ?l)"
    by (intro ledger_apply_enqueue) (simp_all add: on_its_way_def)
  have f: "enqueue_fits t" using w(1) by (simp add: on_its_way_def)
  have h: "history (wal q) ?l" using t by (simp add: tracks_def)
  have "history w' (add_task t ?l)"
    using history_append [OF h l enqueue_record_fits(1) [OF a(1) f] _ enqueue_record_fits(2) [OF a(1) f] a(2)]
      f by (simp add: enqueue_fits_def)
  with t w(1) show ?thesis by (simp add: tracks_def on_its_way_def fresh_def)
qed

lemma tracks_publish:
  assumes t: "tracks (xs @ t # ys) q" and w: "on_its_way q t" "\<forall>u \<in> set (xs @ ys). apart t u"
  shows "enqueue_publish t q = (ID t, enqueue_add t q)" "tracks (xs @ ys) (enqueue_add t q)"
proof -
  have d: "dedup (IdempotencyKey t) q = None" "fresh (ID t) q" "Retries t = 0"
    using w(1) by (simp_all add: on_its_way_def)
  note ok = tracksD(1) [OF t]
  show "enqueue_publish t q = (ID t, enqueue_add t q)"
    using d by (cases "dedup (IdempotencyKey t) q") (simp_all add: enqueue_publish_def enqueue_add_def Let_def)
  have "add_tasks (xs @ t # ys) (abs_ledger q) = add_tasks (xs @ ys) (abs_ledger (enqueue_add t q))"
    using w(2) by (simp add: abs_ledger_enqueue [OF ok] add_tasks_commute)
  moreover have "\<forall>u \<in> set (xs @ ys). fresh (ID u) (enqueue_add t q)"
    using t w(2) by (auto simp: tracks_def fresh_add apart_def)
  ultimately show "tracks (xs @ ys) (enqueue_add t q)"
    using t d by (simp add: tracks_def queue_ok_add enqueue_add_simps retries_fit_effects(7))
qed

lemma on_its_way_add:
  assumes "on_its_way q u" "apart t u"
  shows "on_its_way (enqueue_add t q) u"
  using assms by (auto simp: on_its_way_def fresh_add apart_def dedup_def enqueue_add_simps split: if_splits)

lemma on_its_way_wal [simp]: "on_its_way (q\<lparr>wal := w\<rparr>) t = on_its_way q t"
  by (simp add: on_its_way_def fresh_def)

lemma sorted_wrt_apart_mid:
  "sorted_wrt apart (xs @ t # ys) \<longleftrightarrow> sorted_wrt apart (xs @ ys) \<and> (\<forall>u \<in> set (xs @ ys). apart t u)"
  by (auto simp: sorted_wrt_append dest: apart_sym)

lemma retries_fit_add_tasks:
  assumes "retries_fit q" "\<forall>t \<in> set ts. Retries t = 0" "l_live (add_tasks ts (abs_ledger q)) i = Some d"
  shows "0 \<le> dt_Retries d \<and> dt_Retries d < 2 ^ 32 - 1"
  using assms(2,3)
proof (induction ts)
  case Nil
  with assms(1) show ?case unfolding retries_fit_def by simp
next
  case (Cons t ts)
  then show ?case by (cases "i = ID t") (auto simp: add_task_def durable_def)
qed

lemma history_empty: "history \<lparr>wal_file = [], wal_synced = 0, wal_offset = 0\<rparr> empty_ledger"
proof -
  have "log_holds \<lparr>wal_file = [], wal_synced = 0, wal_offset = 0\<rparr> []" by (simp add: log_holds_def)
  moreover have "logs [] []" "ledger_run [] empty_ledger = Some empty_ledger" by simp_all
  ultimately show ?thesis unfolding history_def by blast
qed

lemma sys_ok_start:
  assumes "maxr < 2 ^ 32 - 1"
  shows "sys_ok (start vis sweep maxr)"
proof -
  let ?w = "\<lparr>wal_file = [], wal_synced = 0, wal_offset = 0\<rparr>"
  have "wal (empty_queue ?w vis sweep maxr) = ?w" "maxRetries (empty_queue ?w vis sweep maxr) = maxr"
    "retries_fit (empty_queue ?w vis sweep maxr)"
    by (simp_all add: empty_queue_def retries_fit_iff)
  with assms history_empty show ?thesis
    by (simp add: sys_ok_def start_def tracks_def no_race_def queue_ok_empty abs_ledger_empty)
qed

lemma sys_ok_istep:
  assumes ok: "sys_ok s" and st: "istep s s'" and nr: "no_race s'"
  shows "sys_ok s'"
  using st
proof (cases rule: istep.cases)
  case (enq_begin k q new sub wr now pl)
  with ok nr show ?thesis by (auto simp: sys_ok_def on_its_way_def)
next
  case (enq_append t rec i q w xs ys wr)
  have "\<forall>u \<in> set wr. apart t u" using ok enq_append by (simp add: sys_ok_def no_race_def sorted_wrt_append)
  with ok enq_append have "tracks (t # wr) (q\<lparr>wal := w\<rparr>)"
    by (intro tracks_append) (simp_all add: sys_ok_def)
  with ok nr enq_append show ?thesis by (auto simp: sys_ok_def)
next
  case (enq_fail t rec i q e w xs ys wr)
  with ok nr clean_failed [OF enq_fail(4,5)] show ?thesis by (auto simp: sys_ok_def)
next
  case (enq_publish t q r q' sub xs ys)
  have ap: "\<forall>u \<in> set (sub @ xs @ ys). apart t u"
    using ok enq_publish sorted_wrt_apart_mid [of "sub @ xs" t ys] by (simp add: sys_ok_def no_race_def)
  then have "\<forall>u \<in> set (xs @ ys). apart t u" by simp
  with tracks_publish [of xs t ys q] ok enq_publish
  have "q' = enqueue_add t q" "tracks (xs @ ys) (enqueue_add t q)" by (simp_all add: sys_ok_def)
  with ok nr enq_publish ap show ?thesis by (auto simp: sys_ok_def intro: on_its_way_add)
next
  case (mutex_call c q sub wr)
  with ok nr show ?thesis
    by (auto simp: sys_ok_def tracks_exec on_its_way_same [OF same_ids_exec [OF call_ok_enqueues [OF mutex_call(3)]]])
qed

context uuid_lib
begin

text \<open>The file of a system in order can always be replayed.\<close>

lemma history_recovers:
  assumes "history w l"
  shows "\<exists>q. NewQueue fb clk (disk_ok (wal_file w)) vis sweep maxr = Inr q \<and> queue_wf q \<and> abs_ledger q = l \<and>
    indexOfInflight q = Map.empty \<and> history (wal q) l \<and> maxRetries q = maxr"
proof -
  from assms obtain recs pls where h: "log_holds w recs" "logs recs pls" "ledger_run pls empty_ledger = Some l"
    unfolding history_def by blast
  have r: "Replay_loop f \<lparr>rd_data = wal_file w, rd_err = None\<rparr> s = apply_all f recs s" for f and s :: "nat \<times> Queue"
    using h(1) by (simp add: log_holds_def Replay_loop_log)
  obtain q where q: "NewQueue fb clk (disk_ok (wal_file w)) vis sweep maxr = Inr q" "queue_wf q"
      "abs_ledger q = l" "indexOfInflight q = Map.empty" "maxRetries q = maxr"
      "wal q = \<lparr>wal_file = wal_file w, wal_synced = length (wal_file w), wal_offset = int (length (wal_file w))\<rparr>"
    using NewQueue_prefix [OF r h(2,3), of clk vis sweep maxr] by blast
  have "log_holds (wal q) recs" using h(1) q(6) by (simp add: log_holds_def)
  with q h(2,3) show ?thesis unfolding history_def by blast
qed

lemma sys_ok_step:
  assumes ok: "sys_ok s" and st: "step fb s s'" and nr: "no_race s'"
  shows "sys_ok s'"
  using st
proof (cases rule: step.cases)
  case running
  with ok nr show ?thesis by (auto intro: sys_ok_istep)
next
  case (restart clk q vis sweep maxr q' sub wr)
  have h: "history (wal q) (add_tasks wr (abs_ledger q))" using ok restart by (simp add: sys_ok_def tracks_def)
  from history_recovers [OF h, of clk vis sweep maxr] restart
  have "queue_wf q'" "abs_ledger q' = add_tasks wr (abs_ledger q)" "history (wal q') (abs_ledger q')" "maxRetries q' = maxr"
    by auto
  moreover have "retries_fit q'"
    using calculation(2) ok restart retries_fit_add_tasks [of q wr] by (simp add: sys_ok_def tracks_def retries_fit_def on_its_way_def)
  ultimately show ?thesis using nr restart by (simp add: sys_ok_def tracks_def queue_wfD(1))
qed

lemma reachable_sys_ok: "reachable fb s \<Longrightarrow> sys_ok s"
  by (induction rule: reachable.induct) (auto intro: sys_ok_start sys_ok_step)

text \<open>A crash in the middle of an append leaves a torn frame at the end of the file: it is dropped.\<close>

lemma history_recovers_torn:
  assumes "history w l" "fits rec" "n < length (frame_of rec)"
  shows "\<exists>q. NewQueue fb clk (disk_ok (wal_file w @ take n (frame_of rec))) vis sweep maxr = Inr q \<and>
    queue_wf q \<and> abs_ledger q = l \<and> indexOfInflight q = Map.empty"
proof -
  from assms(1) obtain recs pls where h: "log_holds w recs" "logs recs pls" "ledger_run pls empty_ledger = Some l"
    unfolding history_def by blast
  have "Replay_loop f \<lparr>rd_data = wal_file w @ take n (frame_of rec), rd_err = None\<rparr> s = apply_all f recs s"
    for f and s :: "nat \<times> Queue"
    using h(1)
    by (simp add: log_holds_def Replay_loop_log_append Replay_loop_torn [OF assms(2,3)] split: sum.splits)
  from NewQueue_prefix [OF this h(2,3), of clk vis sweep maxr] show ?thesis by blast
qed

end

subsection \<open>Races on a key\<close>

text \<open>Without \<open>no_race\<close> the memory is still in order: the second check under the mutex lets only one of
  several competing enqueues publish its task.\<close>

definition race_ok :: "system \<Rightarrow> bool" where
  "race_ok s \<longleftrightarrow> queue_ok (sys_q s) \<and> distinct (map ID (submitted s @ written s)) \<and>
     (\<forall>t \<in> set (submitted s @ written s). fresh (ID t) (sys_q s))"

lemma enqueue_publish_eq:
  "enqueue_publish t q = (case dedup (IdempotencyKey t) q of Some u \<Rightarrow> (u, q) | None \<Rightarrow> (ID t, enqueue_add t q))"
  by (cases "dedup (IdempotencyKey t) q") (simp_all add: enqueue_publish_def enqueue_add_def Let_def)

lemma queue_ok_call: "queue_ok q \<Longrightarrow> call_ok c \<Longrightarrow> queue_ok (exec c q)"
  by (rule queue_ok_exec) (cases c; simp)+

lemma race_ok_istep:
  assumes "istep s s'" "race_ok s"
  shows "race_ok s'"
  using assms
proof (cases rule: istep.cases)
  case (enq_publish t q r q' sub xs ys)
  show ?thesis
  proof (cases "dedup (IdempotencyKey t) q")
    case None
    with enq_publish have "q' = enqueue_add t q" by (simp add: enqueue_publish_eq)
    with enq_publish None assms(2) show ?thesis by (auto simp: race_ok_def queue_ok_add fresh_add)
  next
    case (Some u)
    with enq_publish assms(2) show ?thesis by (auto simp: race_ok_def enqueue_publish_eq)
  qed
next
  case (mutex_call c q sub wr)
  with assms(2) show ?thesis
    by (simp add: race_ok_def queue_ok_call fresh_same [OF same_ids_exec [OF call_ok_enqueues [OF mutex_call(3)]]])
qed (auto simp: race_ok_def fresh_def)

interpretation race: step_invariant istep race_ok
  by unfold_locales (rule race_ok_istep)

lemmas race_ok_isteps = race.steps

lemma race_ok_start: "race_ok (start vis sweep maxr)"
  by (simp add: race_ok_def start_def queue_ok_empty)

text \<open>An enqueue that meets no other activity is the three phases in a row.\<close>

lemma no_race_short:
  "no_race \<lparr>sys_q = q, submitted = [], written = []\<rparr>" "no_race \<lparr>sys_q = q, submitted = [t], written = []\<rparr>"
  "no_race \<lparr>sys_q = q, submitted = [], written = [t]\<rparr>"
  by (simp_all add: no_race_def)

lemma Enqueue_phases:
  assumes "Enqueue new now i pl k q = (Inr new, q')" "dedup k q = None" "fresh new q"
    "enqueue_fits (new_task new now pl k)"
  obtains w where "istep \<lparr>sys_q = q, submitted = [], written = []\<rparr>
      \<lparr>sys_q = q, submitted = [new_task new now pl k], written = []\<rparr>"
    "istep \<lparr>sys_q = q, submitted = [new_task new now pl k], written = []\<rparr>
      \<lparr>sys_q = q\<lparr>wal := w\<rparr>, submitted = [], written = [new_task new now pl k]\<rparr>"
    "istep \<lparr>sys_q = q\<lparr>wal := w\<rparr>, submitted = [], written = [new_task new now pl k]\<rparr>
      \<lparr>sys_q = q', submitted = [], written = []\<rparr>"
proof -
  let ?t = "new_task new now pl k"
  from assms(1) obtain flds w where q': "q' = enqueue_add ?t (q\<lparr>wal := w\<rparr>)"
      and e: "encodeEnqueuePayload (enqueue_payload ?t) = Inr flds"
      and a: "Append (encodeRecord OperationEnqueue flds) i (wal q) = (None, w)"
    by (cases rule: Enqueue_cases) (use assms(2) in \<open>auto simp: dedup_def\<close>)
  have rec: "enqueue_record ?t = Inr (encodeRecord OperationEnqueue flds)"
    using e by (simp add: enqueue_record_def enqueue_payload_def)
  show thesis
  proof (rule that)
    show "istep \<lparr>sys_q = q, submitted = [], written = []\<rparr> \<lparr>sys_q = q, submitted = [?t], written = []\<rparr>"
      using enq_begin [of k q new "[]" "[]" now pl] assms(2-4) by simp
    show "istep \<lparr>sys_q = q, submitted = [?t], written = []\<rparr>
        \<lparr>sys_q = q\<lparr>wal := w\<rparr>, submitted = [], written = [?t]\<rparr>"
      using enq_append [OF rec a, of "[]" "[]" "[]"] by simp
    show "istep \<lparr>sys_q = q\<lparr>wal := w\<rparr>, submitted = [], written = [?t]\<rparr>
        \<lparr>sys_q = q', submitted = [], written = []\<rparr>"
      using enq_publish [of ?t "q\<lparr>wal := w\<rparr>" new q' "[]" "[]" "[]"] assms(2) q' by (simp add: enqueue_publish_eq)
  qed
qed

lemma Enqueue_isteps:
  assumes "Enqueue new now i pl k q = (Inr new, q')" "dedup k q = None" "fresh new q"
    "enqueue_fits (new_task new now pl k)"
  shows "istep\<^sup>*\<^sup>* \<lparr>sys_q = q, submitted = [], written = []\<rparr> \<lparr>sys_q = q', submitted = [], written = []\<rparr>"
  by (rule Enqueue_phases [OF assms]) (meson converse_rtranclp_into_rtranclp rtranclp.rtrancl_refl)

lemma reachable_Enqueue:
  assumes "reachable fb \<lparr>sys_q = q, submitted = [], written = []\<rparr>"
    "Enqueue new now i pl k q = (Inr new, q')" "dedup k q = None" "fresh new q" "enqueue_fits (new_task new now pl k)"
  shows "reachable fb \<lparr>sys_q = q', submitted = [], written = []\<rparr>"
  using assms(2-5)
proof (rule Enqueue_phases)
  fix w
  assume p: "istep \<lparr>sys_q = q, submitted = [], written = []\<rparr>
      \<lparr>sys_q = q, submitted = [new_task new now pl k], written = []\<rparr>"
    "istep \<lparr>sys_q = q, submitted = [new_task new now pl k], written = []\<rparr>
      \<lparr>sys_q = q\<lparr>wal := w\<rparr>, submitted = [], written = [new_task new now pl k]\<rparr>"
    "istep \<lparr>sys_q = q\<lparr>wal := w\<rparr>, submitted = [], written = [new_task new now pl k]\<rparr>
      \<lparr>sys_q = q', submitted = [], written = []\<rparr>"
  note r1 = reach_step [OF assms(1) running [OF p(1)] no_race_short(2)]
  note r2 = reach_step [OF r1 running [OF p(2)] no_race_short(3)]
  show ?thesis by (rule reach_step [OF r2 running [OF p(3)] no_race_short(1)])
qed

lemma reachable_call:
  assumes "reachable fb \<lparr>sys_q = q, submitted = [], written = []\<rparr>" "call_ok c"
  shows "reachable fb \<lparr>sys_q = exec c q, submitted = [], written = []\<rparr>"
  by (rule reach_step [OF assms(1) running [OF mutex_call [OF assms(2)]] no_race_short(1)])

end
