(* ===== verification/Anomalies.thy ===== *)
theory Anomalies
  imports System
begin

section \<open>Where the guarantees end\<close>

text \<open>
  The assumptions of the recovery results are needed: each theorem here shows a behaviour of the code when one
  of them is given up. A torn tail is never truncated, so records appended after it are durable and
  unreadable; a failed fsync leaves a record in the file that the memory has not applied; competing
  enqueues may be logged in another order than they are published; an acknowledgement after the lease
  was swept leaves the task in the ready heap.
\<close>

subsection \<open>Appending after a torn tail\<close>

lemma putUint32_small:
  assumes "n < 256"
  shows "putUint32 (word_of_nat n) = [0, 0, 0, word_of_nat n]"
proof -
  have "drop_bit 8 (word_of_nat n :: uint32) = 0"
    using assms by (intro word_unat_eq_iff [THEN iffD2])
      (simp add: drop_bit_eq_div unat_div unsigned_of_nat take_bit_eq_mod)
  moreover have "(ucast (word_of_nat n :: uint32) :: byte) = word_of_nat n"
    using assms by (simp add: unsigned_of_nat take_bit_eq_mod)
  ultimately show ?thesis by (simp add: putUint32_def eval_nat_numeral)
qed

lemma getUint32_nonzero: "length bs = 4 \<Longrightarrow> getUint32 bs = 0 \<Longrightarrow> bs = [0, 0, 0, 0]"
  using be_put_be_get [of bs, where ?'a = 32] by (simp add: getUint32_def eval_nat_numeral)

lemma length4: "length xs = 4 \<Longrightarrow> \<exists>a b c d. xs = [a, b, c, d]"
  by (auto simp: eval_nat_numeral length_Suc_conv)

lemma decodeFrame_shifted:
  assumes "rec \<noteq> []" "length rec < 256"
  shows "decodeFrame \<lparr>rd_data = 0 # frame_of rec @ rest, rd_err = e\<rparr> = Inl ErrCorruptRecord"
proof -
  obtain c1 c2 c3 c4 where c: "putUint32 (ChecksumIEEE rec) = [c1, c2, c3, c4]"
    using length4 [OF length_put(1) [of "ChecksumIEEE rec"]] by blast
  have "(word_of_nat (length rec) :: byte) \<noteq> 0"
    using assms by (auto simp: word_of_nat_eq_0_iff dest: dvd_imp_le)
  then have "getUint32 [word_of_nat (length rec), c1, c2, c3] \<noteq> 0"
    using getUint32_nonzero [of "[word_of_nat (length rec), c1, c2, c3]"] by auto
  moreover have "getUint32 [0, 0, 0, 0] = 0" by (simp add: getUint32_def be_get_def)
  moreover have "ChecksumIEEE [] = 0" by (simp add: ChecksumIEEE_def)
  ultimately show ?thesis
    by (simp add: decodeFrame_def ReadFull_def frame_of_def putUint32_small [OF assms(2)] c)
qed

lemma Replay_loop_swallows:
  assumes "\<forall>r \<in> set recs. fits r" "rec \<noteq> []" "length rec < 256"
  shows "Replay_loop f \<lparr>rd_data = log_of recs @ 0 # frame_of rec, rd_err = None\<rparr> s = apply_all f recs s"
proof -
  have "Replay_loop f \<lparr>rd_data = 0 # frame_of rec, rd_err = None\<rparr> s' = Inr s'" for s'
    using decodeFrame_shifted [OF assms(2,3), of "[]" None] by (auto intro: Replay_loop_end simp: log_end_def)
  with assms(1) show ?thesis by (simp add: Replay_loop_log_append split: sum.splits)
qed

lemma frame_first_byte: "length rec < 2 ^ 24 \<Longrightarrow> take 1 (frame_of rec) = [0]"
proof -
  assume "length rec < 2 ^ 24"
  then have "drop_bit 24 (word_of_nat (length rec) :: uint32) = 0"
    by (intro word_unat_eq_iff [THEN iffD2])
      (simp add: drop_bit_eq_div unat_div unsigned_of_nat take_bit_eq_mod)
  then show ?thesis by (simp add: frame_of_def putUint32_def eval_nat_numeral drop_bit_drop_bit)
qed

context uuid_lib
begin

text \<open>After a crash that left one byte of a frame, an acknowledgement is accepted and made durable,
  and the next restart brings the acknowledged task back.\<close>

lemma acknowledged_and_back:
  assumes h: "history w l" and live: "l_live l i = Some d" and torn: "length rec < 2 ^ 24"
  shows "\<exists>q q2 q3. NewQueue fb clk (disk_ok (wal_file w @ take 1 (frame_of rec))) vis sweep maxr = Inr q \<and>
    Ack io_ok i q = (None, q2) \<and> l_live (abs_ledger q2) i = None \<and> wal_synced (wal q2) = length (wal_file (wal q2)) \<and>
    NewQueue fb clk (disk_ok (wal_file (wal q2))) vis sweep maxr = Inr q3 \<and> l_live (abs_ledger q3) i = Some d"
proof -
  from h obtain recs pls where hh: "log_holds w recs" "logs recs pls" "ledger_run pls empty_ledger = Some l"
    unfolding history_def by blast
  have fits: "\<forall>r \<in> set recs. fits r" using hh(1) by (simp add: log_holds_def)
  have t: "wal_file w @ take 1 (frame_of rec) = log_of recs @ [0]"
    using hh(1) frame_first_byte [OF torn] by (simp add: log_holds_def)
  have r1: "Replay_loop f \<lparr>rd_data = log_of recs @ [0], rd_err = None\<rparr> s = apply_all f recs s" for f and s :: "nat \<times> Queue"
  proof -
    have "Replay_loop f \<lparr>rd_data = [0], rd_err = None\<rparr> s' = Inr s'" for s'
      by (rule Replay_loop_end [of _ ErrUnexpectedEOF]) (simp_all add: decodeFrame_def ReadFull_def log_end_def)
    then show ?thesis by (simp add: Replay_loop_log_append [OF fits] split: sum.splits)
  qed
  obtain q where q: "NewQueue fb clk (disk_ok (log_of recs @ [0])) vis sweep maxr = Inr q" "abs_ledger q = l"
      "wal_file (wal q) = log_of recs @ [0]"
    using NewQueue_prefix [OF r1 hh(2,3), of clk vis sweep maxr] by auto
  let ?rec = "encodeRecord OperationAck (uuid_bytes i)"
  obtain p where "index q i = Some p" using live q(2) by (auto simp: abs_ledger_sel)
  then obtain w2 q2 where a: "Ack io_ok i q = (None, q2)" "q2 = ack_done i p (q\<lparr>wal := w2\<rparr>)"
      "wal_file w2 = wal_file (wal q) @ frame_of ?rec" "wal_synced w2 = length (wal_file w2)"
    by (auto simp: Ack_def logged_def encodeAckPayload_def Append_ok)
  have "?rec \<noteq> []" "length ?rec < 256" by (simp_all add: encodeRecord_def)
  note sw = Replay_loop_swallows [OF fits this]
  have "Replay_loop f \<lparr>rd_data = wal_file (wal q2), rd_err = None\<rparr> s = apply_all f recs s" for f and s :: "nat \<times> Queue"
    using sw by (simp add: a q(3))
  from NewQueue_prefix [OF this hh(2,3), of clk vis sweep maxr]
  obtain q3 where "NewQueue fb clk (disk_ok (wal_file (wal q2))) vis sweep maxr = Inr q3" "abs_ledger q3 = l" by blast
  with q(1) a live t show ?thesis by (auto simp: abs_ledger_sel effect_defs)
qed

text \<open>Opening the queue on a file of whole records.\<close>

lemma NewQueue_log:
  assumes "bs = log_of recs" "\<forall>r \<in> set recs. fits r"
  shows "NewQueue fb clk (disk_ok bs) vis sweep maxr =
    (case apply_all (applyRecord_at fb clk) recs (0, empty_queue \<lparr>wal_file = bs, wal_synced = length bs,
        wal_offset = int (length bs)\<rparr> vis sweep maxr) of
       Inl e \<Rightarrow> Inl e
     | Inr (n, q) \<Rightarrow> Inr (q\<lparr>ready := heap_Init (readyHeap_Less (q_tasks q)) (ready q)\<rparr>))"
  using Replay_loop_log [OF assms(2), of "applyRecord_at fb clk"] unfolding assms(1)
  by (simp add: NewQueue_def disk_ok_def OpenWAL_def Replay_def)

text \<open>A handler that meets a record about a task it does not know dereferences nil.\<close>

lemma applyRecord_unknown:
  assumes "index q i = None"
  shows "applyRecord fb now (encodeRecord OperationRetry (uuid_bytes i)) q = Inl NilDeref"
proof -
  have "decodeRecord fb (encodeRecord OperationRetry (uuid_bytes i)) = Inr (OperationRetry, PRetry \<lparr>retry_ID = i\<rparr>)"
    using decodeRecord_record_of [of "PRetry \<lparr>retry_ID = i\<rparr>"] by (simp add: record_of_def encodeRetryPayload_def)
  with assms show ?thesis by (simp add: applyRecord_def)
qed

lemma applyRecord_ack:
  "applyRecord fb now (encodeRecord OperationAck (uuid_bytes i)) q = applyAck \<lparr>ack_ID = i\<rparr> q"
  using decodeRecord_record_of [of "PAck \<lparr>ack_ID = i\<rparr>"]
  by (simp add: record_of_def encodeAckPayload_def applyRecord_def)

text \<open>The append of an acknowledgement fails in fsync: the client sees the error and retries the task. The
  log then holds the acknowledgement followed by the retry, and no restart survives it.\<close>

lemma failed_sync_poisons_log:
  assumes h: "history (wal q) (abs_ledger q)" and live: "index q i = Some p"
    and lim: "Retries (q_tasks q p) + 1 \<le> maxRetries q"
  shows "\<exists>q1 q2. Ack \<lparr>io_write = WriteOK, io_sync = Some e\<rparr> i q = (Some e, q1) \<and>
    Retry now rnd io_ok i q1 = (None, q2) \<and>
    NewQueue fb clk (disk_ok (wal_file (wal q2))) vis sweep maxr = Inl NilDeref"
proof -
  from h obtain recs pls where hh: "log_holds (wal q) recs" "logs recs pls"
      "ledger_run pls empty_ledger = Some (abs_ledger q)"
    unfolding history_def by blast
  let ?a = "encodeRecord OperationAck (uuid_bytes i)" and ?r = "encodeRecord OperationRetry (uuid_bytes i)"
  obtain w1 where a: "Ack \<lparr>io_write = WriteOK, io_sync = Some e\<rparr> i q = (Some e, q\<lparr>wal := w1\<rparr>)"
      "wal_file w1 = wal_file (wal q) @ frame_of ?a"
    using live by (auto simp: Ack_def logged_def encodeAckPayload_def Append_def run_batch_def
        encodeFrame_frame_of wal_Sync_def)
  obtain q2 where r: "Retry now rnd io_ok i (q\<lparr>wal := w1\<rparr>) = (None, q2)"
      "wal_file (wal q2) = wal_file w1 @ frame_of ?r"
    using live lim by (auto simp: Retry_def retryLocked_def logged_def encodeRetryPayload_def Append_ok Let_def)
  have log: "wal_file (wal q2) = log_of (recs @ [?a, ?r])" "\<forall>x \<in> set (recs @ [?a, ?r]). fits x"
    using hh(1) a(2) r(2) by (auto simp: log_holds_def fits_def encodeRecord_def)
  let ?q0 = "empty_queue \<lparr>wal_file = wal_file (wal q2), wal_synced = length (wal_file (wal q2)),
    wal_offset = int (length (wal_file (wal q2)))\<rparr> vis sweep maxr"
  have l: "ledger_run pls (abs_ledger ?q0) = Some (abs_ledger q)" using hh(3) by (simp add: abs_ledger_empty)
  obtain m q' where q': "apply_all (applyRecord_at fb clk) recs (0, ?q0) = Inr (m, q')"
    using apply_all_ledger [OF hh(2) replay_wf_empty l, of clk 0] by blast
  have "apply_all (applyRecord_at fb clk) (recs @ [?a, ?r]) (0, ?q0) = Inl NilDeref"
    by (simp add: apply_all_append q' applyRecord_at_def applyRecord_ack applyRecord_unknown)
  then have "NewQueue fb clk (disk_ok (wal_file (wal q2))) vis sweep maxr = Inl NilDeref"
    by (simp add: NewQueue_log [OF log])
  with a(1) r(1) show ?thesis by blast
qed

end

subsection \<open>Competing enqueues\<close>

text \<open>Two enqueues with the same key: the second to append publishes first and wins in memory, the first to
  append wins in the log. A retry of the winner then refers to a task that replay does not know.\<close>

definition race_task :: "uuid \<Rightarrow> Task" where
  "race_task i = new_task i 0 [] ''k''"

definition race_queue :: "WAL \<Rightarrow> Queue" where
  "race_queue w = enqueue_add (race_task 1) (empty_queue w 5 1 3)"

lemma race_task_fits: "enqueue_fits (race_task i)" "ID (race_task i) = i" "IdempotencyKey (race_task i) = ''k''"
  by (simp_all add: race_task_def enqueue_fits_def EnqueuePayload_ok_def enqueue_payload_def in_int64_def)

lemma race_enqueues:
  assumes "enqueue_record (race_task 1) = Inr r1" "enqueue_record (race_task 2) = Inr r2"
  shows "\<exists>w. wal_file w = log_of [r2, r1] \<and>
    istep\<^sup>*\<^sup>* (start 5 1 3) \<lparr>sys_q = race_queue w, submitted = [], written = []\<rparr>"
proof -
  let ?t1 = "race_task 1" and ?t2 = "race_task 2"
  define w0 :: WAL where "w0 = \<lparr>wal_file = [], wal_synced = 0, wal_offset = 0\<rparr>"
  define w1 where "w1 = snd (Append r2 io_ok w0)"
  define w2 where "w2 = snd (Append r1 io_ok w1)"
  let ?q = "\<lambda>w. empty_queue w 5 1 3"
  have wal: "wal (?q w) = w" "(?q w)\<lparr>wal := w'\<rparr> = ?q w'" "dedup k (?q w) = None" "fresh i (?q w)" for w w' k i
    by (simp_all add: empty_queue_def dedup_def fresh_def)
  have s1: "istep (start 5 1 3) \<lparr>sys_q = ?q w0, submitted = [?t1], written = []\<rparr>"
    using enq_begin [of "''k''" "?q w0" 1 "[]" "[]" 0 "[]"] race_task_fits(1) [of 1] wal
    by (simp add: start_def race_task_def w0_def)
  have s2: "istep \<lparr>sys_q = ?q w0, submitted = [?t1], written = []\<rparr>
      \<lparr>sys_q = ?q w0, submitted = [?t2, ?t1], written = []\<rparr>"
    using enq_begin [of "''k''" "?q w0" 2 "[?t1]" "[]" 0 "[]"] race_task_fits [of 2] wal
    by (simp add: race_task_def)
  have s3: "istep \<lparr>sys_q = ?q w0, submitted = [?t2, ?t1], written = []\<rparr>
      \<lparr>sys_q = ?q w1, submitted = [?t1], written = [?t2]\<rparr>"
    using enq_append [OF assms(2), of io_ok "?q w0" w1 "[]" "[?t1]" "[]"] by (simp add: wal Append_ok w1_def)
  have s4: "istep \<lparr>sys_q = ?q w1, submitted = [?t1], written = [?t2]\<rparr>
      \<lparr>sys_q = ?q w2, submitted = [], written = [?t1, ?t2]\<rparr>"
    using enq_append [OF assms(1), of io_ok "?q w1" w2 "[]" "[]" "[?t2]"] by (simp add: wal Append_ok w2_def)
  have s5: "istep \<lparr>sys_q = ?q w2, submitted = [], written = [?t1, ?t2]\<rparr>
      \<lparr>sys_q = race_queue w2, submitted = [], written = [?t2]\<rparr>"
    using enq_publish [of ?t1 "?q w2" 1 "race_queue w2" "[]" "[]" "[?t2]"]
    by (simp add: enqueue_publish_eq wal race_queue_def race_task_fits)
  have s6: "istep \<lparr>sys_q = race_queue w2, submitted = [], written = [?t2]\<rparr>
      \<lparr>sys_q = race_queue w2, submitted = [], written = []\<rparr>"
    using enq_publish [of ?t2 "race_queue w2" 1 "race_queue w2" "[]" "[]" "[]"]
    by (simp add: enqueue_publish_eq race_queue_def race_task_fits dedup_def enqueue_add_simps)
  from s1 s2 s3 s4 s5 s6
  have "istep\<^sup>*\<^sup>* (start 5 1 3) \<lparr>sys_q = race_queue w2, submitted = [], written = []\<rparr>"
    by (meson converse_rtranclp_into_rtranclp rtranclp.rtrancl_refl)
  moreover have "wal_file w2 = log_of [r2, r1]" by (simp add: w2_def w1_def w0_def Append_ok)
  ultimately show ?thesis by blast
qed

lemma Dequeue_frame:
  "index (snd (Dequeue now q)) = index q" "wal (snd (Dequeue now q)) = wal q"
  "maxRetries (snd (Dequeue now q)) = maxRetries q" "Retries (q_tasks (snd (Dequeue now q)) p) = Retries (q_tasks q p)"
proof -
  obtain r q' where e: "Dequeue now q = (r, q')" by force
  then have "index q' = index q \<and> wal q' = wal q \<and> maxRetries q' = maxRetries q \<and>
      Retries (q_tasks q' p) = Retries (q_tasks q p)"
    by (cases rule: Dequeue_cases) (auto simp: effect_defs)
  with e show "index (snd (Dequeue now q)) = index q" "wal (snd (Dequeue now q)) = wal q"
    "maxRetries (snd (Dequeue now q)) = maxRetries q" "Retries (q_tasks (snd (Dequeue now q)) p) = Retries (q_tasks q p)"
    by simp_all
qed

lemma race_retry:
  "\<exists>q. istep\<^sup>*\<^sup>* \<lparr>sys_q = race_queue w, submitted = [], written = []\<rparr> \<lparr>sys_q = q, submitted = [], written = []\<rparr> \<and>
     wal_file (wal q) = wal_file w @ frame_of (encodeRecord OperationRetry (uuid_bytes 1))"
proof -
  let ?q1 = "exec (CDequeue 0) (race_queue w)"
  let ?q2 = "exec (CRetry 10 0 io_ok 1) ?q1"
  have "call_ok (CDequeue 0)" "call_ok (CRetry 10 0 io_ok 1)" by (simp_all add: clean_def in_int64_def)
  then have "istep\<^sup>*\<^sup>* \<lparr>sys_q = race_queue w, submitted = [], written = []\<rparr> \<lparr>sys_q = ?q2, submitted = [], written = []\<rparr>"
    by (meson converse_rtranclp_into_rtranclp mutex_call rtranclp.rtrancl_refl)
  moreover have "index ?q1 1 = Some 0" "Retries (q_tasks ?q1 0) + 1 \<le> maxRetries ?q1" "wal ?q1 = w"
    by (simp_all add: Dequeue_frame race_queue_def enqueue_add_simps race_task_fits empty_queue_def race_task_def)
  then have "wal_file (wal ?q2) = wal_file w @ frame_of (encodeRecord OperationRetry (uuid_bytes 1))"
    by (simp add: Retry_def retryLocked_def logged_def encodeRetryPayload_def Append_ok Let_def
        del: exec.simps(2))
  ultimately show ?thesis by blast
qed

context uuid_lib
begin

lemma race_log_fails:
  assumes "enqueue_record (race_task 1) = Inr r1" "enqueue_record (race_task 2) = Inr r2"
    and "bs = log_of [r2, r1, encodeRecord OperationRetry (uuid_bytes 1)]"
  shows "NewQueue fb clk (disk_ok bs) vis sweep maxr = Inl NilDeref"
proof -
  let ?rr = "encodeRecord OperationRetry (uuid_bytes 1)"
  let ?pls = "[PEnqueue (enqueue_payload (race_task 2)), PEnqueue (enqueue_payload (race_task 1))]"
  let ?q0 = "empty_queue \<lparr>wal_file = bs, wal_synced = length bs, wal_offset = int (length bs)\<rparr> vis sweep maxr"
  note rf = enqueue_record_fits [OF assms(1) race_task_fits(1)] enqueue_record_fits [OF assms(2) race_task_fits(1)]
  have fits: "\<forall>r \<in> set [r2, r1, ?rr]. fits r" using rf by (simp add: fits_def encodeRecord_def)
  have logs: "logs [r2, r1] ?pls"
    using rf race_task_fits(1) [of 1] race_task_fits(1) [of 2] by (simp add: enqueue_fits_def)
  obtain l where l: "ledger_run ?pls empty_ledger = Some l" "l_live l 1 = None"
    by (simp add: enqueue_payload_def race_task_fits empty_ledger_def)
  then have "ledger_run ?pls (abs_ledger ?q0) = Some l" by (simp only: abs_ledger_empty)
  from apply_all_ledger [OF logs replay_wf_empty this, of clk 0]
  obtain m q where q: "apply_all (applyRecord_at fb clk) [r2, r1] (0, ?q0) = Inr (m, q)" "abs_ledger q = l" by blast
  from l(2) q(2) have "index q 1 = None" by (auto simp: abs_ledger_sel)
  with q(1) have "apply_all (applyRecord_at fb clk) ([r2, r1] @ [?rr]) (0, ?q0) = Inl NilDeref"
    unfolding apply_all_append by (simp add: applyRecord_at_def [of _ _ ?rr] applyRecord_unknown)
  then show ?thesis by (simp add: NewQueue_log [OF assms(3) fits])
qed

end

subsection \<open>Acknowledging a task whose lease was swept\<close>

text \<open>The acknowledgement succeeds, and the task is still at the root of the ready heap: it is delivered
  again, cannot be acknowledged any more, and its lease, once expired, makes every sweep that meets it
  stop with an error.\<close>

lemma swept_then_acknowledged:
  assumes wf: "queue_wf q" and root: "ready q \<noteq> []" "p = hd (ready q)" "i = ID (q_tasks q p)"
    and due: "AvailableAt (q_tasks q p) \<le> now"
  shows "\<exists>q1 q2. Ack io_ok i q = (None, q1) \<and> Dequeue now q1 = (Some p, q2) \<and>
    Ack i1 i q2 = (Some (ErrNotFound i), q2) \<and>
    (\<forall>s ss. sw_id s = i \<and> now + visibilityTimeout q < sw_check s \<longrightarrow>
       Sweeper (s # ss) q2 = (Some (ErrNotFound i), q2))"
proof -
  from root have "p \<in> set (ready q)" by simp
  then have live: "index q i = Some p" using ready_iff [OF wf, of p] root(3) by simp
  obtain w where a: "Ack io_ok i q = (None, ack_done i p (q\<lparr>wal := w\<rparr>))"
    using live logged_ok [of "uuid_bytes i" OperationAck "ack_done i p" q] by (auto simp: Ack_def encodeAckPayload_def)
  let ?q1 = "ack_done i p (q\<lparr>wal := w\<rparr>)"
  have q1: "ready ?q1 = ready q" "AvailableAt (q_tasks ?q1 p) = AvailableAt (q_tasks q p)"
      "visibilityTimeout ?q1 = visibilityTimeout q" "index ?q1 i = None" "ID (q_tasks ?q1 p) = i"
    using root(3) by (simp_all add: effect_defs)
  obtain r q2 where d: "Dequeue now ?q1 = (r, q2)" by force
  then obtain rest where q2: "r = Some p" "q2 = lease now p (?q1\<lparr>ready := rest\<rparr>)"
    by (cases rule: Dequeue_cases) (use q1 root due in auto)
  have "index q2 i = None" "indexOfInflight q2 i = Some p" "LeaseUntil (q_tasks q2 p) = now + visibilityTimeout q"
    using q1 q2 by (simp_all add: lease_def set_task_def)
  then have "Ack i1 i q2 = (Some (ErrNotFound i), q2)"
    "sw_id s = i \<and> now + visibilityTimeout q < sw_check s \<longrightarrow> Sweeper (s # ss) q2 = (Some (ErrNotFound i), q2)" for s ss
    by (auto simp: Ack_def retryLocked_def)
  with a d q2(1) show ?thesis by blast
qed

end
