(* ===== verification/Scenario.thy ===== *)
theory Scenario
  imports Anomalies
begin

section \<open>A concrete scenario\<close>

text \<open>
  A small run that the witnesses evaluate: a queue on an empty log, one task enqueued, dequeued, and
  returned to the ready heap by the sweeper after its lease expired.
\<close>

definition demo0 :: Queue where
  "demo0 = sys_q (start 5 1 3)"

definition demo1 :: Queue where
  "demo1 = exec (CEnqueue 7 100 io_ok [1, 2] ''k'') demo0"

definition demo2 :: Queue where
  "demo2 = exec (CDequeue 200) demo1"

definition demo3 :: Queue where
  "demo3 = exec (CEnqueue 8 101 io_ok [] ''j'') demo1"

definition demo4 :: Queue where
  "demo4 = die 300 7 0 demo2"

definition demo_sweep :: sweep_input where
  "demo_sweep = \<lparr>sw_id = 7, sw_check = 300, sw_now = 301, sw_rnd = 0, sw_io = io_ok\<rparr>"

abbreviation demo_task :: Task where
  "demo_task \<equiv> new_task 7 100 [1, 2] ''k''"

lemma demo0_wf: "queue_wf demo0" "fresh i demo0" "dedup k demo0 = None"
  by (simp_all add: demo0_def start_def queue_wf_empty fresh_def dedup_def) (simp_all add: empty_queue_def)

lemma demo1_eq: "\<exists>w. demo1 = enqueue_add demo_task (demo0\<lparr>wal := w\<rparr>)"
  using Enqueue_ok [OF demo0_wf(3) [of "''k''"], of 7 100 "[1, 2]"] by (auto simp: demo1_def)

lemma demo1_simps:
  "queue_wf demo1" "index demo1 = [7 \<mapsto> 0]" "ready demo1 = [0]" "q_tasks demo1 0 = demo_task" "q_next demo1 = 1"
  "indexOfInflight demo1 = Map.empty" "dlq demo1 = Map.empty" "maxRetries demo1 = 3" "visibilityTimeout demo1 = 5"
  "indexOfIdemKeys demo1 = [''k'' \<mapsto> 0]"
proof -
  show "queue_wf demo1" unfolding demo1_def by (rule queue_wf_exec) (simp_all add: demo0_wf)
  obtain w where w: "demo1 = enqueue_add demo_task (demo0\<lparr>wal := w\<rparr>)" using demo1_eq by blast
  show "index demo1 = [7 \<mapsto> 0]" "q_tasks demo1 0 = demo_task" "q_next demo1 = 1"
    "indexOfInflight demo1 = Map.empty" "dlq demo1 = Map.empty" "maxRetries demo1 = 3" "visibilityTimeout demo1 = 5"
    "indexOfIdemKeys demo1 = [''k'' \<mapsto> 0]"
    by (simp_all add: w enqueue_add_simps demo0_def start_def empty_queue_def)
  show "ready demo1 = [0]"
    by (simp add: w enqueue_add_def Let_def heapPush_def heap_Push_def heap_up.simps [of _ _ 0] parent_def demo0_def start_def empty_queue_def)
qed

lemma demo2_eq: "Dequeue 200 demo1 = (Some 0, demo2) \<and> demo2 = lease 200 0 (demo1\<lparr>ready := []\<rparr>)"
proof -
  obtain r q' where e: "Dequeue 200 demo1 = (r, q')" by force
  then have "r = Some 0 \<and> q' = lease 200 0 (demo1\<lparr>ready := []\<rparr>)"
  proof (cases rule: Dequeue_cases)
    case nothing
    then show ?thesis by (simp add: demo1_simps zeroTime_def)
  next
    case (success p rest)
    with heap_Pop_Some(3) [OF success(4)] show ?thesis by (simp add: demo1_simps)
  qed
  with e show ?thesis by (simp add: demo2_def)
qed

lemma demo_Enqueue: "Enqueue 7 100 io_ok [1, 2] ''k'' demo0 = (Inr 7, demo1)"
  using Enqueue_ok [OF demo0_wf(3) [of "''k''"], of 7 100 "[1, 2]"] by (auto simp: demo1_def)

lemma demo_reachable:
  "reachable fb \<lparr>sys_q = demo0, submitted = [], written = []\<rparr>"
  "reachable fb \<lparr>sys_q = demo1, submitted = [], written = []\<rparr>"
  "reachable fb \<lparr>sys_q = demo2, submitted = [], written = []\<rparr>"
proof -
  have s: "start 5 1 3 = \<lparr>sys_q = demo0, submitted = [], written = []\<rparr>" by (simp add: demo0_def start_def)
  show 0: "reachable fb \<lparr>sys_q = demo0, submitted = [], written = []\<rparr>"
    using reach_start [of 3 fb 5 1] by (simp add: s)
  have "enqueue_fits demo_task" by (simp add: enqueue_fits_def EnqueuePayload_ok_def enqueue_payload_def in_int64_def)
  then show 1: "reachable fb \<lparr>sys_q = demo1, submitted = [], written = []\<rparr>"
    using reachable_Enqueue [OF 0 demo_Enqueue] demo0_wf by simp
  show "reachable fb \<lparr>sys_q = demo2, submitted = [], written = []\<rparr>"
    unfolding demo2_def using 1 by (rule reachable_call) simp
qed

lemma demo2_simps:
  "queue_wf demo2" "index demo2 = [7 \<mapsto> 0]" "ready demo2 = []" "indexOfInflight demo2 = [7 \<mapsto> 0]"
  "q_tasks demo2 0 = demo_task\<lparr>Status := StateInflight, LeaseUntil := 205\<rparr>" "maxRetries demo2 = 3" "dlq demo2 = Map.empty"
proof -
  show "queue_wf demo2" unfolding demo2_def by (rule queue_wf_exec) (simp_all add: demo1_simps)
qed (simp_all add: conjunct2 [OF demo2_eq] lease_def set_task_def demo1_simps)

lemma demo3_eq: "\<exists>w. Enqueue 8 101 io_ok [] ''j'' demo1 = (Inr 8, demo3) \<and>
    demo3 = enqueue_add (new_task 8 101 [] ''j'') (demo1\<lparr>wal := w\<rparr>)"
  using Enqueue_ok [of "''j''" demo1 8 101 "[]"] by (auto simp: demo3_def dedup_def demo1_simps)

lemma demo3_simps: "q_next demo3 = 2" "q_tasks demo3 0 = demo_task" "q_tasks demo3 1 = new_task 8 101 [] ''j''"
proof -
  obtain w where w: "demo3 = enqueue_add (new_task 8 101 [] ''j'') (demo1\<lparr>wal := w\<rparr>)" using demo3_eq by blast
  show "q_next demo3 = 2" "q_tasks demo3 0 = demo_task" "q_tasks demo3 1 = new_task 8 101 [] ''j''"
    by (simp_all add: w enqueue_add_simps demo1_simps)
qed

lemma demo3_steps: "istep\<^sup>*\<^sup>* (start 5 1 3) \<lparr>sys_q = demo3, submitted = [], written = []\<rparr>"
proof -
  have "enqueue_fits demo_task" "enqueue_fits (new_task 8 101 [] ''j'')"
    by (simp_all add: enqueue_fits_def EnqueuePayload_ok_def enqueue_payload_def in_int64_def)
  then have "istep\<^sup>*\<^sup>* \<lparr>sys_q = demo0, submitted = [], written = []\<rparr> \<lparr>sys_q = demo1, submitted = [], written = []\<rparr>"
    "istep\<^sup>*\<^sup>* \<lparr>sys_q = demo1, submitted = [], written = []\<rparr> \<lparr>sys_q = demo3, submitted = [], written = []\<rparr>"
    using Enqueue_isteps [OF demo_Enqueue demo0_wf(3,2)]
      Enqueue_isteps [of 8 101 io_ok "[]" "''j''" demo1 demo3] demo3_eq
    by (auto simp: dedup_def fresh_def demo1_simps)
  then show ?thesis by (simp add: start_def demo0_def)
qed

lemma demo4_simps:
  "queue_wf demo4" "dlq demo4 = [7 \<mapsto> 0]" "index demo4 = Map.empty"
  "q_tasks demo4 0 = demo_task\<lparr>LeaseUntil := 205, Status := StateDead, FailedAt := 300, Retries := 1\<rparr>"
proof -
  show "queue_wf demo4" unfolding demo4_def by (rule queue_wf_die) (simp_all add: demo2_simps)
qed (simp_all add: demo4_def effect_defs demo2_simps)

end
