(* ===== verification/Writer.thy ===== *)
theory Writer
  imports Wal
begin

section \<open>The writer goroutine (WAL.run, WAL.Append, WAL.Close)\<close>

text \<open>
  The hand-off between the callers of \<^verbatim>\<open>Append\<close> and the one goroutine that touches the file, as a step relation.
  A caller sends its request on the buffered channel \<^verbatim>\<open>requests\<close> and waits for the reply; the
  writer takes the first request, drains whatever else is queued, writes and syncs the batch, and replies to
  each request of the batch. \<^verbatim>\<open>Close\<close> closes the channel and waits for the writer to exit.

  Requests carry a ticket, the number of requests sent before; \<open>sent\<close> is the history of the records sent. A batch is a list of optional
  requests: a receive from the channel once it is closed and empty yields \<open>None\<close>, Go's nil pointer, at
  once. The outcomes of the disk calls are inputs of the commit step.
\<close>

type_synonym request = "nat \<times> bytes"

text \<open>Where the writer is: at the head of \<^verbatim>\<open>for first := range w.requests\<close>, in the drain loop with the batch so
  far, in the reply loop with the outcome and the requests still to be told, or past \<^verbatim>\<open>close(w.writerDone)\<close>.\<close>

datatype writer_pc = Idle | Collecting "request option list" | Replying "go_error option" "request list" | Exited

record writer =
  w_wal :: WAL
  requests :: "request list"
  req_closed :: bool
  w_pc :: writer_pc
  sent :: "bytes list"
  replies :: "nat \<rightharpoonup> go_error option"

definition chan_cap :: nat where
  "chan_cap = 1024"

text \<open>The batch the commit step writes. A nil request would be dereferenced; the drain loop never leaves
  with one (\<open>no_nil_commit\<close>).\<close>

definition batch_reqs :: "request option list \<Rightarrow> request list" where
  "batch_reqs b = map the b"

definition outcomes :: "request list \<Rightarrow> write_outcome list \<Rightarrow> (bytes \<times> write_outcome) list" where
  "outcomes reqs wos = zip (map snd reqs) wos"

inductive writer_step :: "writer \<Rightarrow> writer \<Rightarrow> bool" where
  w_first: "w_pc s = Idle \<Longrightarrow> requests s = r # rs \<Longrightarrow>
     writer_step s (s\<lparr>requests := rs, w_pc := Collecting [Some r]\<rparr>)"
| w_drain: "w_pc s = Collecting b \<Longrightarrow> requests s = r # rs \<Longrightarrow>
     writer_step s (s\<lparr>requests := rs, w_pc := Collecting (b @ [Some r])\<rparr>)"
| w_drain_nil: "w_pc s = Collecting b \<Longrightarrow> requests s = [] \<Longrightarrow> req_closed s \<Longrightarrow>
     writer_step s (s\<lparr>w_pc := Collecting (b @ [None])\<rparr>)"
| w_commit: "w_pc s = Collecting b \<Longrightarrow> requests s = [] \<Longrightarrow> \<not> req_closed s \<Longrightarrow> length wos = length b \<Longrightarrow>
     run_batch (outcomes (batch_reqs b) wos) so (w_wal s) = (e, w) \<Longrightarrow>
     writer_step s (s\<lparr>w_wal := w, w_pc := Replying e (batch_reqs b)\<rparr>)"
| w_reply: "w_pc s = Replying e ((n, rec) # rs) \<Longrightarrow>
     writer_step s (s\<lparr>replies := (replies s)(n \<mapsto> e), w_pc := Replying e rs\<rparr>)"
| w_next: "w_pc s = Replying e [] \<Longrightarrow> writer_step s (s\<lparr>w_pc := Idle\<rparr>)"
| w_exit: "w_pc s = Idle \<Longrightarrow> requests s = [] \<Longrightarrow> req_closed s \<Longrightarrow> writer_step s (s\<lparr>w_pc := Exited\<rparr>)"

text \<open>The callers: a send on the open channel while there is room, and \<^verbatim>\<open>Close\<close>. A send on the closed
  channel panics and is no step.\<close>

inductive caller_step :: "writer \<Rightarrow> writer \<Rightarrow> bool" where
  c_send: "\<not> req_closed s \<Longrightarrow> length (requests s) < chan_cap \<Longrightarrow>
     caller_step s (s\<lparr>requests := requests s @ [(length (sent s), rec)], sent := sent s @ [rec]\<rparr>)"
| c_close: "\<not> req_closed s \<Longrightarrow> caller_step s (s\<lparr>req_closed := True\<rparr>)"

definition wal_step :: "writer \<Rightarrow> writer \<Rightarrow> bool" where
  "wal_step s s' \<longleftrightarrow> writer_step s s' \<or> caller_step s s'"

definition writer_init :: "WAL \<Rightarrow> writer" where
  "writer_init w = \<lparr>w_wal = w, requests = [], req_closed = False, w_pc = Idle, sent = [], replies = Map.empty\<rparr>"

inductive_cases writer_stepE: "writer_step s s'"
inductive_cases caller_stepE: "caller_step s s'"

subsection \<open>Tickets\<close>

text \<open>\<open>pending s\<close>: the requests sent and not yet answered, in order.\<close>

fun somes :: "'a option list \<Rightarrow> 'a list" where
  "somes [] = []"
| "somes (None # b) = somes b"
| "somes (Some r # b) = r # somes b"

definition in_hand :: "writer_pc \<Rightarrow> request list" where
  "in_hand pc = (case pc of Idle \<Rightarrow> [] | Collecting b \<Rightarrow> somes b
     | Replying e rs \<Rightarrow> rs | Exited \<Rightarrow> [])"

definition pending :: "writer \<Rightarrow> request list" where
  "pending s = in_hand (w_pc s) @ requests s"

text \<open>What is pending is the end of the history from some ticket on, in order, and the requests before
  it are exactly the ones answered. No request of an open channel is nil.\<close>

definition tickets_ok :: "writer \<Rightarrow> bool" where
  "tickets_ok s \<longleftrightarrow> (\<exists>k \<le> length (sent s). pending s = drop k (enumerate 0 (sent s)) \<and> dom (replies s) = {..<k})"

definition no_nil :: "writer \<Rightarrow> bool" where
  "no_nil s \<longleftrightarrow> (\<forall>b. w_pc s = Collecting b \<and> \<not> req_closed s \<longrightarrow> None \<notin> set b)"

lemma batch_reqs_simps [simp]: "batch_reqs [] = []" "batch_reqs (b @ [Some r]) = batch_reqs b @ [r]"
  "length (batch_reqs b) = length b"
  by (simp_all add: batch_reqs_def)

lemma somes_snoc [simp]: "somes (b @ [Some r]) = somes b @ [r]" "somes (b @ [None]) = somes b"
  by (induction b rule: somes.induct) simp_all

lemma somes_no_nil: "None \<notin> set b \<Longrightarrow> somes b = batch_reqs b"
  by (induction b rule: somes.induct) (simp_all add: batch_reqs_def)

lemma no_nil_step: "wal_step s s' \<Longrightarrow> no_nil s \<Longrightarrow> no_nil s'"
  unfolding wal_step_def by (auto elim!: writer_stepE caller_stepE simp: no_nil_def)

lemma drop_enumerate_Cons:
  assumes "drop k (enumerate 0 xs) = (n, x) # rest"
  shows "k < length xs" "n = k" "x = xs ! k" "rest = drop (Suc k) (enumerate 0 xs)"
proof -
  have "drop k (enumerate 0 xs) \<noteq> []" using assms by simp
  then show k: "k < length xs" by simp
  then have "drop k (enumerate 0 xs) = (k, xs ! k) # drop (Suc k) (enumerate 0 xs)"
    by (simp add: Cons_nth_drop_Suc [symmetric] nth_enumerate_eq)
  with assms show "n = k" "x = xs ! k" "rest = drop (Suc k) (enumerate 0 xs)" by auto
qed

lemma pending_step:
  assumes "writer_step s s'" "no_nil s"
  shows "sent s' = sent s \<and> (pending s' = pending s \<and> replies s' = replies s \<or>
    (\<exists>n rec e. pending s = (n, rec) # pending s' \<and> replies s' = (replies s)(n \<mapsto> e)))"
  using assms
proof (cases rule: writer_step.cases)
  case (w_commit b wos so e w)
  then have "None \<notin> set b" using assms(2) by (simp add: no_nil_def)
  with w_commit show ?thesis by (simp add: pending_def in_hand_def somes_no_nil)
qed (auto simp: pending_def in_hand_def)

lemma tickets_ok_writer:
  assumes "writer_step s s'" "no_nil s" "tickets_ok s"
  shows "tickets_ok s'"
proof -
  from pending_step [OF assms(1,2)] consider "sent s' = sent s" "pending s' = pending s" "replies s' = replies s"
    | n rec e where "sent s' = sent s" "pending s = (n, rec) # pending s'" "replies s' = (replies s)(n \<mapsto> e)" by blast
  then show ?thesis
  proof cases
    case 1
    with assms(3) show ?thesis by (simp add: tickets_ok_def)
  next
    case 2
    from assms(3) obtain k where k: "k \<le> length (sent s)" "pending s = drop k (enumerate 0 (sent s))" "dom (replies s) = {..<k}"
      unfolding tickets_ok_def by blast
    note P = drop_enumerate_Cons [of k "sent s" n rec "pending s'"]
    have "Suc k \<le> length (sent s')" "pending s' = drop (Suc k) (enumerate 0 (sent s'))" "dom (replies s') = {..<Suc k}"
      using P k 2 by (auto simp: lessThan_Suc)
    then show ?thesis unfolding tickets_ok_def by blast
  qed
qed

lemma tickets_ok_caller:
  assumes "caller_step s s'" "tickets_ok s"
  shows "tickets_ok s'"
  using assms(1)
proof (cases rule: caller_step.cases)
  case (c_send rec)
  then have s': "pending s' = pending s @ [(length (sent s), rec)]" "sent s' = sent s @ [rec]" "replies s' = replies s"
    by (simp_all add: pending_def)
  from assms(2) obtain k where "k \<le> length (sent s)" "pending s = drop k (enumerate 0 (sent s))" "dom (replies s) = {..<k}"
    unfolding tickets_ok_def by blast
  with s' have "k \<le> length (sent s')" "pending s' = drop k (enumerate 0 (sent s'))" "dom (replies s') = {..<k}"
    by (simp_all add: enumerate_append_eq)
  then show ?thesis unfolding tickets_ok_def by blast
next
  case c_close
  with assms(2) show ?thesis by (simp add: tickets_ok_def pending_def)
qed

lemma tickets_ok_init: "tickets_ok (writer_init w) \<and> no_nil (writer_init w)"
  by (simp add: tickets_ok_def no_nil_def writer_init_def pending_def in_hand_def)

interpretation tickets: step_invariant wal_step "\<lambda>s. tickets_ok s \<and> no_nil s"
  by unfold_locales (auto simp: no_nil_step wal_step_def intro: tickets_ok_writer tickets_ok_caller)

lemmas tickets_ok_steps = tickets.steps

subsection \<open>Success means durable\<close>

text \<open>\<open>durable_rec w rec\<close>: a frame of the record lies inside the synced prefix of the file.\<close>

definition durable_rec :: "WAL \<Rightarrow> bytes \<Rightarrow> bool" where
  "durable_rec w rec \<longleftrightarrow> (\<exists>pre post. wal_file w = pre @ frame_of rec @ post \<and>
     length pre + length (frame_of rec) \<le> wal_synced w)"

lemma run_batch_grows:
  assumes "run_batch reqs so w = (e, w')" "wal_synced w \<le> length (wal_file w)"
  shows "\<exists>tail. wal_file w' = wal_file w @ tail" "wal_synced w \<le> wal_synced w'" "wal_synced w' \<le> length (wal_file w')"
proof -
  show "\<exists>tail. wal_file w' = wal_file w @ tail" and "wal_synced w \<le> wal_synced w'" and "wal_synced w' \<le> length (wal_file w')"
  proof (atomize (full), cases e)
    case None
    with assms(1) run_batch_None [of reqs so w] have "all_written reqs" "so = None" by simp_all
    with assms None show "(\<exists>tail. wal_file w' = wal_file w @ tail) \<and> wal_synced w \<le> wal_synced w' \<and> wal_synced w' \<le> length (wal_file w')"
      by (auto simp: run_batch_ok)
  next
    case (Some e')
    with run_batch_error [of reqs so w e' w'] assms
    show "(\<exists>tail. wal_file w' = wal_file w @ tail) \<and> wal_synced w \<le> wal_synced w' \<and> wal_synced w' \<le> length (wal_file w')" by auto
  qed
qed

lemma durable_rec_mono:
  assumes "durable_rec w rec" "run_batch reqs so w = (e, w')" "wal_synced w \<le> length (wal_file w)"
  shows "durable_rec w' rec"
proof -
  from run_batch_grows [OF assms(2,3)] obtain tail where "wal_file w' = wal_file w @ tail" "wal_synced w \<le> wal_synced w'" by blast
  with assms(1) show ?thesis unfolding durable_rec_def by (metis append.assoc le_trans)
qed

lemma run_batch_durable:
  assumes "run_batch reqs so w = (None, w')" "rec \<in> set (map fst reqs)"
  shows "durable_rec w' rec"
proof -
  from assms(1) run_batch_None [of reqs so w] have "all_written reqs" "so = None" by simp_all
  with assms(1) have w': "wal_file w' = wal_file w @ log_of (map fst reqs)" "wal_synced w' = length (wal_file w')"
    by (auto simp: run_batch_ok)
  from assms(2) obtain xs ys where "map fst reqs = xs @ rec # ys" by (meson split_list)
  with w' have "wal_file w' = (wal_file w @ log_of xs) @ frame_of rec @ log_of ys" by simp
  with w'(2) show ?thesis unfolding durable_rec_def by (intro exI [of _ "wal_file w @ log_of xs"] exI [of _ "log_of ys"]) simp
qed

definition acks_durable :: "writer \<Rightarrow> bool" where
  "acks_durable s \<longleftrightarrow> wal_synced (w_wal s) \<le> length (wal_file (w_wal s)) \<and>
     (\<forall>n. replies s n = Some None \<longrightarrow> durable_rec (w_wal s) (sent s ! n)) \<and>
     (\<forall>rs. w_pc s = Replying None rs \<longrightarrow> (\<forall>r \<in> set rs. durable_rec (w_wal s) (snd r)))"

lemma acks_durable_commit:
  assumes "acks_durable s" "run_batch (outcomes rs wos) so (w_wal s) = (e, w)" "length wos = length rs"
  shows "acks_durable (s\<lparr>w_wal := w, w_pc := Replying e rs\<rparr>)"
proof -
  have l: "wal_synced (w_wal s) \<le> length (wal_file (w_wal s))" using assms(1) by (simp add: acks_durable_def)
  have "durable_rec w (sent s ! n)" if "replies s n = Some None" for n
    using durable_rec_mono [OF _ assms(2) l] that assms(1) by (simp add: acks_durable_def)
  moreover have "durable_rec w (snd r)" if "e = None" "r \<in> set rs" for r
    using run_batch_durable [of "outcomes rs wos" so "w_wal s" w "snd r"] assms(2,3) that by (auto simp: outcomes_def)
  ultimately show ?thesis using run_batch_grows(3) [OF assms(2) l] by (auto simp: acks_durable_def)
qed

lemma acks_durable_writer:
  assumes "writer_step s s'" "acks_durable s" "tickets_ok s"
  shows "acks_durable s'"
  using assms(1)
proof (cases rule: writer_step.cases)
  case (w_commit b wos so e w)
  with acks_durable_commit [OF assms(2), of "batch_reqs b" wos so e w] show ?thesis by simp
next
  case (w_reply e n rec rs)
  from assms(3) obtain k where "pending s = drop k (enumerate 0 (sent s))" unfolding tickets_ok_def by blast
  with w_reply have "drop k (enumerate 0 (sent s)) = (n, rec) # rs @ requests s" by (simp add: pending_def in_hand_def)
  from drop_enumerate_Cons [OF this] have "rec = sent s ! n" by simp
  with w_reply assms(2) show ?thesis by (auto simp: acks_durable_def)
qed (use assms(2) in \<open>auto simp: acks_durable_def\<close>)

lemma acks_durable_caller:
  assumes "caller_step s s'" "acks_durable s" "tickets_ok s"
  shows "acks_durable s'"
  using assms(1)
proof (cases rule: caller_step.cases)
  case (c_send rec)
  have "n < length (sent s)" if "replies s n = Some None" for n
    using assms(3) that unfolding tickets_ok_def by (metis domI lessThan_iff order_less_le_trans)
  with c_send assms(2) show ?thesis by (auto simp: acks_durable_def nth_append)
qed (use assms(2) in \<open>auto simp: acks_durable_def\<close>)

interpretation acks: step_invariant wal_step "\<lambda>s. (tickets_ok s \<and> no_nil s) \<and> acks_durable s"
  using tickets.preserved
  by unfold_locales (auto simp: wal_step_def intro: acks_durable_writer acks_durable_caller)

subsection \<open>Every request is answered\<close>

text \<open>Each step of the writer on an open channel brings it closer to having answered everything.\<close>

fun pc_weight :: "writer_pc \<Rightarrow> nat" where
  "pc_weight Idle = 0"
| "pc_weight (Collecting b) = length b + 2"
| "pc_weight (Replying e rs) = length rs + 1"
| "pc_weight Exited = 0"

definition work :: "writer \<Rightarrow> nat" where
  "work s = 4 * length (requests s) + pc_weight (w_pc s)"

lemma work_decreases: "writer_step s s' \<Longrightarrow> \<not> req_closed s \<Longrightarrow> work s' < work s \<and> \<not> req_closed s' \<and> sent s' = sent s"
  by (erule writer_step.cases) (simp_all add: work_def)

lemma work_bound: "(writer_step ^^ n) s s' \<Longrightarrow> \<not> req_closed s \<Longrightarrow> n + work s' \<le> work s \<and> \<not> req_closed s' \<and> sent s' = sent s"
proof (induction n arbitrary: s')
  case (Suc n)
  then obtain t where t: "(writer_step ^^ n) s t" "writer_step t s'" by auto
  from Suc.IH [OF t(1) Suc.prems(2)] work_decreases [OF t(2)] show ?case by auto
qed simp

text \<open>The writer exits only on a closed and empty channel.\<close>

definition exit_ok :: "writer \<Rightarrow> bool" where
  "exit_ok s \<longleftrightarrow> (w_pc s = Exited \<longrightarrow> req_closed s \<and> requests s = [])"

lemma exit_ok_step: "wal_step s s' \<Longrightarrow> exit_ok s \<Longrightarrow> exit_ok s'"
  unfolding wal_step_def exit_ok_def by (auto elim!: writer_step.cases caller_step.cases)

interpretation exits: step_invariant wal_step exit_ok
  by unfold_locales (rule exit_ok_step)

lemmas exit_ok_steps = exits.steps

lemma exit_ok_init: "exit_ok (writer_init w)"
  by (simp add: exit_ok_def writer_init_def)

text \<open>The writer of an open channel stops only when nothing is left to do.\<close>

lemma writer_stuck:
  assumes "\<nexists>s'. writer_step s s'" "\<not> req_closed s" "w_pc s \<noteq> Exited"
  shows "w_pc s = Idle \<and> requests s = []"
proof (cases "w_pc s")
  case Idle
  with assms(1) show ?thesis using w_first by (cases "requests s") blast+
next
  case (Collecting b)
  show ?thesis
  proof (cases "requests s")
    case Nil
    obtain e w where "run_batch (outcomes (batch_reqs b) (replicate (length b) WriteOK)) None (w_wal s) = (e, w)" by force
    with w_commit [OF Collecting Nil assms(2)] assms(1) show ?thesis by (metis length_replicate)
  next
    case (Cons r rs)
    with w_drain [OF Collecting] assms(1) show ?thesis by blast
  qed
next
  case (Replying e rs)
  with assms(1) show ?thesis using w_reply w_next by (cases rs) (metis surj_pair)+
qed (use assms(3) in simp)

lemma idle_all_answered:
  assumes "tickets_ok s" "w_pc s = Idle" "requests s = []"
  shows "dom (replies s) = {..<length (sent s)}"
proof -
  from assms(1) obtain k where "k \<le> length (sent s)" "pending s = drop k (enumerate 0 (sent s))" "dom (replies s) = {..<k}"
    unfolding tickets_ok_def by blast
  moreover have "pending s = []" using assms(2,3) by (simp add: pending_def in_hand_def)
  ultimately show ?thesis by simp
qed

subsection \<open>Closing\<close>

text \<open>\<open>stranded n s\<close>: the channel is closed while the request \<open>n\<close> is queued or in the drain loop. The writer can then no
  longer leave a drain loop: it receives nil for ever.\<close>

definition stranded :: "nat \<Rightarrow> writer \<Rightarrow> bool" where
  "stranded n s \<longleftrightarrow> req_closed s \<and> replies s n = None \<and> w_pc s \<noteq> Exited \<and> n \<in> fst ` set (pending s) \<and>
     (\<forall>e rs. w_pc s = Replying e rs \<longrightarrow> n \<notin> fst ` set rs)"

lemma stranded_step:
  assumes "wal_step s s'" "stranded n s"
  shows "stranded n s'"
proof -
  have "writer_step s s'" using assms by (auto simp: wal_step_def stranded_def elim: caller_step.cases)
  then show ?thesis using assms(2)
    by (cases rule: writer_step.cases) (auto simp: stranded_def pending_def in_hand_def)
qed

lemma queued_stranded:
  assumes "tickets_ok s" "exit_ok s" "req_closed s" "(n, rec) \<in> set (requests s)"
  shows "stranded n s"
proof -
  from assms(1) obtain k where k: "pending s = drop k (enumerate 0 (sent s))" "dom (replies s) = {..<k}"
    unfolding tickets_ok_def by blast
  have d: "map fst (pending s) = [k..<length (sent s)]" by (simp add: k(1) drop_map [symmetric])
  then have "distinct (map fst (pending s))" by simp
  then have "n \<notin> fst ` set (in_hand (w_pc s))" using assms(4) unfolding pending_def by force
  moreover have "n \<in> fst ` set (pending s)" using assms(4) unfolding pending_def by force
  moreover from this have "n \<in> set [k..<length (sent s)]" by (metis d set_map)
  then have "n \<notin> dom (replies s)" using k(2) by simp
  then have "replies s n = None" by (simp add: domIff)
  moreover have "w_pc s \<noteq> Exited" using assms(2,4) by (auto simp: exit_ok_def)
  ultimately show ?thesis using assms(3) by (auto simp: stranded_def in_hand_def)
qed

interpretation strands: step_invariant wal_step "stranded n" for n
  by unfold_locales (rule stranded_step)

lemmas stranded_steps = strands.steps

text \<open>Closed otherwise, the writer finishes its replies and exits.\<close>

lemma closed_exits:
  assumes "req_closed s" "requests s = []" "w_pc s = Idle \<or> (\<exists>e rs. w_pc s = Replying e rs)"
  shows "\<exists>s'. writer_step\<^sup>*\<^sup>* s s' \<and> w_pc s' = Exited \<and> w_wal s' = w_wal s"
proof -
  have idle: "\<exists>s'. writer_step\<^sup>*\<^sup>* t s' \<and> w_pc s' = Exited \<and> w_wal s' = w_wal t"
    if "req_closed t" "requests t = []" "w_pc t = Idle" for t
    using w_exit [OF that(3,2,1)] by (intro exI [of _ "t\<lparr>w_pc := Exited\<rparr>"]) auto
  have "\<exists>s'. writer_step\<^sup>*\<^sup>* t s' \<and> w_pc s' = Exited \<and> w_wal s' = w_wal t"
    if "req_closed t" "requests t = []" "w_pc t = Replying e rs" for t e rs
    using that
  proof (induction rs arbitrary: t)
    case Nil
    have "writer_step t (t\<lparr>w_pc := Idle\<rparr>)" using w_next Nil.prems(3) by blast
    moreover obtain s' where "writer_step\<^sup>*\<^sup>* (t\<lparr>w_pc := Idle\<rparr>) s'" "w_pc s' = Exited" "w_wal s' = w_wal t"
      using idle [of "t\<lparr>w_pc := Idle\<rparr>"] Nil.prems by auto
    ultimately show ?case by (meson converse_rtranclp_into_rtranclp)
  next
    case (Cons r rs)
    obtain n rec where r: "r = (n, rec)" by force
    let ?t = "t\<lparr>replies := (replies t)(n \<mapsto> e), w_pc := Replying e rs\<rparr>"
    have "writer_step t ?t" using w_reply Cons.prems(3) r by blast
    moreover obtain s' where "writer_step\<^sup>*\<^sup>* ?t s'" "w_pc s' = Exited" "w_wal s' = w_wal t" using Cons.IH [of ?t] Cons.prems by auto
    ultimately show ?case by (meson converse_rtranclp_into_rtranclp)
  qed
  with idle assms show ?thesis by blast
qed

subsection \<open>A single request\<close>

lemma writer_steps_wal: "(writer_step ^^ n) s s' \<Longrightarrow> wal_step\<^sup>*\<^sup>* s s'"
  using relpowp_imp_rtranclp [of n writer_step s s'] by (metis (mono_tags, lifting) wal_step_def mono_rtranclp)

lemma lone_append_run:
  assumes "w_pc s = Idle" "requests s = []" "\<not> req_closed s" "Append rec i (w_wal s) = (e, w)"
  shows "\<exists>s1 s'. caller_step s s1 \<and> sent s1 = sent s @ [rec] \<and> \<not> req_closed s1 \<and> work s1 = 4 \<and> (writer_step ^^ 4) s1 s' \<and>
    replies s' (length (sent s)) = Some e \<and> w_wal s' = w \<and> sent s' = sent s @ [rec] \<and> w_pc s' = Idle \<and>
    requests s' = [] \<and> \<not> req_closed s'"
proof -
  let ?n = "length (sent s)"
  let ?s1 = "s\<lparr>requests := [(?n, rec)], sent := sent s @ [rec]\<rparr>"
  let ?s2 = "?s1\<lparr>requests := [], w_pc := Collecting [Some (?n, rec)]\<rparr>"
  let ?s3 = "?s2\<lparr>w_wal := w, w_pc := Replying e [(?n, rec)]\<rparr>"
  let ?s4 = "?s3\<lparr>replies := (replies s)(?n \<mapsto> e), w_pc := Replying e []\<rparr>"
  have b: "run_batch (outcomes (batch_reqs [Some (?n, rec)]) [io_write i]) (io_sync i) (w_wal s) = (e, w)"
    using assms(4) by (simp add: outcomes_def batch_reqs_def Append_def)
  have send: "caller_step s ?s1" using c_send [OF assms(3), of rec] assms(2) by (simp add: chan_cap_def)
  have "writer_step ?s1 ?s2" using w_first [of ?s1 "(?n, rec)" "[]"] assms(1) by simp
  moreover have "writer_step ?s2 ?s3"
    using w_commit [of ?s2 "[Some (?n, rec)]" "[io_write i]" "io_sync i" e w] assms(3) b by (simp add: batch_reqs_def)
  moreover have "writer_step ?s3 ?s4" using w_reply [of ?s3 e ?n rec "[]"] by simp
  moreover have "writer_step ?s4 (?s4\<lparr>w_pc := Idle\<rparr>)" using w_next [of ?s4 e] by simp
  ultimately have "(writer_step ^^ 4) ?s1 (?s4\<lparr>w_pc := Idle\<rparr>)"
    unfolding numeral_eq_Suc pred_numeral_simps relpowp.simps BitM.simps by (simp add: relcompp_apply) blast
  with send assms show ?thesis
    by (intro exI [of _ ?s1] exI [of _ "?s4\<lparr>w_pc := Idle\<rparr>"]) (simp add: work_def)
qed

subsection \<open>Properties of the hand-off\<close>

text \<open>C14. In every interleaving of callers and writer, requests are answered in the order they were sent (the
  answered ones are the first \<open>k\<close>, the rest is pending in order), and a request answered without error
  lies, framed, inside the synced part of the log.\<close>

theorem append_success_durable:
  assumes "wal_step\<^sup>*\<^sup>* (writer_init w) s" "wal_synced w \<le> length (wal_file w)"
  shows "(\<exists>k. dom (replies s) = {..<k} \<and> pending s = drop k (enumerate 0 (sent s))) \<and>
    (\<forall>n. replies s n = Some None \<longrightarrow> durable_rec (w_wal s) (sent s ! n))"
proof -
  have "acks_durable (writer_init w)" using assms(2) by (simp add: acks_durable_def writer_init_def)
  with acks.steps [OF assms(1)] tickets_ok_init show ?thesis by (auto simp: acks_durable_def tickets_ok_def)
qed

text \<open>C27. While the channel is open the writer answers every request: left to itself it takes at most
  \<open>work s\<close> steps, whatever the disk does, and when it can take no more every request sent has a reply.\<close>

theorem every_append_answered:
  assumes "wal_step\<^sup>*\<^sup>* (writer_init w) s" "\<not> req_closed s" "(writer_step ^^ n) s s'"
  shows "n \<le> work s \<and> sent s' = sent s \<and>
    ((\<nexists>t. writer_step s' t) \<longrightarrow> dom (replies s') = {..<length (sent s)})"
proof -
  have b: "n + work s' \<le> work s" "\<not> req_closed s'" "sent s' = sent s" using work_bound [OF assms(3,2)] by simp_all
  have r: "wal_step\<^sup>*\<^sup>* (writer_init w) s'" using assms(1) writer_steps_wal [OF assms(3)] by simp
  have "w_pc s' \<noteq> Exited" using exit_ok_steps [OF r exit_ok_init] b(2) by (auto simp: exit_ok_def)
  with writer_stuck b idle_all_answered tickets_ok_steps [OF r tickets_ok_init] show ?thesis
    by (metis add_leD1)
qed

text \<open>C40. Closing the log while a request is queued: the writer never exits, so \<^verbatim>\<open>Close\<close> never returns, and that
  request is never answered, whatever happens afterwards.\<close>

theorem close_strands_queued_request:
  assumes "wal_step\<^sup>*\<^sup>* (writer_init w) s" "req_closed s" "(n, rec) \<in> set (requests s)" "wal_step\<^sup>*\<^sup>* s s'"
  shows "w_pc s' \<noteq> Exited \<and> replies s' n = None"
proof -
  have "tickets_ok s" "exit_ok s" using tickets_ok_steps [OF assms(1) tickets_ok_init] exit_ok_steps [OF assms(1) exit_ok_init] by simp_all
  from stranded_steps [OF assms(4) queued_stranded [OF this assms(2,3)]] show ?thesis by (simp add: stranded_def)
qed

text \<open>C28. A caller alone with an idle writer gets what the function \<open>Append\<close>, which the queue's operations are
  built on, computes: the reply and the new log are those of \<open>Append\<close> for the same disk outcomes, and the
  writer is idle again.\<close>

theorem lone_append_refines:
  assumes "w_pc s = Idle" "requests s = []" "\<not> req_closed s" "Append rec i (w_wal s) = (e, w)"
  shows "\<exists>s'. wal_step\<^sup>*\<^sup>* s s' \<and> replies s' (length (sent s)) = Some e \<and> w_wal s' = w \<and>
    sent s' = sent s @ [rec] \<and> w_pc s' = Idle \<and> requests s' = []"
proof -
  from lone_append_run [OF assms] obtain s1 s' where "caller_step s s1" and s': "(writer_step ^^ 4) s1 s'"
    "replies s' (length (sent s)) = Some e" "w_wal s' = w" "sent s' = sent s @ [rec]" "w_pc s' = Idle" "requests s' = []" by blast
  then have "wal_step\<^sup>*\<^sup>* s s'" by (metis writer_steps_wal wal_step_def converse_rtranclp_into_rtranclp)
  with s' show ?thesis by blast
qed

subsection \<open>Witnesses\<close>

text \<open>An empty log and one request.\<close>

definition empty_WAL :: WAL where
  "empty_WAL = \<lparr>wal_file = [], wal_synced = 0, wal_offset = 0\<rparr>"

lemma demo_request:
  "\<exists>s1 s'. wal_step\<^sup>*\<^sup>* (writer_init empty_WAL) s1 \<and> \<not> req_closed s1 \<and> work s1 = 4 \<and> sent s1 = [[7]] \<and>
    (writer_step ^^ 4) s1 s' \<and> wal_step\<^sup>*\<^sup>* (writer_init empty_WAL) s' \<and> replies s' 0 = Some None \<and> sent s' = [[7]] \<and>
    w_pc s' = Idle \<and> requests s' = [] \<and> \<not> req_closed s'"
proof -
  obtain w where "Append [7] io_ok empty_WAL = (None, w)" using Append_None [of "[7]" io_ok empty_WAL] by (metis prod.collapse)
  with lone_append_run [of "writer_init empty_WAL" "[7]" io_ok None w] obtain s1 s' where
    s: "caller_step (writer_init empty_WAL) s1" "(writer_step ^^ 4) s1 s'"
      "sent s1 = [[7]]" "\<not> req_closed s1" "work s1 = 4" "replies s' 0 = Some None" "sent s' = [[7]]" "w_pc s' = Idle"
      "requests s' = []" "\<not> req_closed s'"
    by (auto simp: writer_init_def)
  from s(1) have "wal_step\<^sup>*\<^sup>* (writer_init empty_WAL) s1" by (simp add: wal_step_def r_into_rtranclp)
  moreover from this writer_steps_wal [OF s(2)] have "wal_step\<^sup>*\<^sup>* (writer_init empty_WAL) s'" by simp
  ultimately show ?thesis using s(2-) by blast
qed

theorem append_success_durable_witness:
  "\<exists>s. wal_step\<^sup>*\<^sup>* (writer_init empty_WAL) s \<and> replies s 0 = Some None \<and> durable_rec (w_wal s) [7]"
  using demo_request append_success_durable [of empty_WAL]
  by (metis empty_WAL_def WAL.select_convs(1,2) le0 nth_Cons_0)

theorem every_append_answered_witness:
  "\<exists>s s'. wal_step\<^sup>*\<^sup>* (writer_init empty_WAL) s \<and> (writer_step ^^ 4) s s' \<and> 4 \<le> work s \<and> sent s' = sent s"
  using demo_request every_append_answered [of empty_WAL _ 4] by blast

theorem close_strands_queued_request_witness:
  "\<exists>s. wal_step\<^sup>*\<^sup>* (writer_init empty_WAL) s \<and> req_closed s \<and> w_pc s \<noteq> Exited \<and> replies s 0 = None"
proof -
  let ?s0 = "writer_init empty_WAL"
  let ?s1 = "?s0\<lparr>requests := [(0, [7])], sent := [[7]]\<rparr>"
  let ?s2 = "?s1\<lparr>req_closed := True\<rparr>"
  let ?s3 = "?s2\<lparr>requests := [], w_pc := Collecting [Some (0, [7])]\<rparr>"
  have "wal_step ?s0 ?s1" using c_send [of ?s0 "[7]"] by (simp add: wal_step_def writer_init_def chan_cap_def)
  moreover have "wal_step ?s1 ?s2" using c_close [of ?s1] by (simp add: wal_step_def writer_init_def)
  ultimately have "wal_step\<^sup>*\<^sup>* ?s0 ?s2" by (rule converse_rtranclp_into_rtranclp [OF _ r_into_rtranclp])
  moreover have "wal_step ?s2 ?s3" using w_first [of ?s2 "(0, [7])" "[]"] by (simp add: wal_step_def writer_init_def)
  then have "wal_step\<^sup>*\<^sup>* ?s2 ?s3" by blast
  ultimately show ?thesis using close_strands_queued_request [of empty_WAL ?s2 0 "[7]" ?s3]
    by (intro exI [of _ ?s3]) (auto simp: writer_init_def)
qed

theorem lone_append_refines_witness:
  "\<exists>s'. wal_step\<^sup>*\<^sup>* (writer_init empty_WAL) s' \<and> replies s' 0 = Some None \<and> w_pc s' = Idle"
proof -
  obtain w where "Append [7] io_ok empty_WAL = (None, w)" using Append_None [of "[7]" io_ok empty_WAL] by (metis prod.collapse)
  with lone_append_refines [of "writer_init empty_WAL" "[7]" io_ok None w] show ?thesis
    by (auto simp: writer_init_def)
qed

end
