(* ===== verification/Lifecycle.thy ===== *)
theory Lifecycle
  imports Writer
begin

section \<open>The sweeper goroutine and Queue.Close\<close>

text \<open>
  The goroutines of a running queue and its shutdown: the ticker loop \<^verbatim>\<open>runSweeper\<close>, the clients, the writer of
  the log (theory Writer) and the goroutine that calls \<^verbatim>\<open>Queue.Close\<close>. A pass of \<^verbatim>\<open>Sweeper\<close> appears as the appends it
  makes, any number of them, each waiting for its reply; what it does to the tasks is the function \<open>Sweeper\<close> of theory Queue.
  \<^verbatim>\<open>select\<close> takes any ready case, so a tick may win against the closed \<^verbatim>\<open>stop\<close>.
\<close>

datatype sweeper_pc = Selecting | Sweeping | Awaiting nat | Returned | Panicked

datatype closer_pc = Running | Joining | Draining | Closed

record life =
  lf_writer :: writer
  stop_closed :: bool
  sweeper :: sweeper_pc
  closer :: closer_pc

text \<open>\<^verbatim>\<open>time.NewTicker\<close> panics when the interval is not positive.\<close>

definition life_init :: "WAL \<Rightarrow> duration \<Rightarrow> life" where
  "life_init w interval = \<lparr>lf_writer = writer_init w, stop_closed = False,
     sweeper = (if interval \<le> 0 then Panicked else Selecting), closer = Running\<rparr>"

definition send :: "bytes \<Rightarrow> writer \<Rightarrow> writer" where
  "send rec w = w\<lparr>requests := requests w @ [(length (sent w), rec)], sent := sent w @ [rec]\<rparr>"

definition has_room :: "writer \<Rightarrow> bool" where
  "has_room w \<longleftrightarrow> length (requests w) < chan_cap"

text \<open>\<^verbatim>\<open>runSweeper\<close>: the wait in \<^verbatim>\<open>select\<close>, a pass with its appends, the return. A send on the closed channel panics.\<close>

inductive sweeper_step :: "life \<Rightarrow> life \<Rightarrow> bool" where
  sw_tick: "sweeper s = Selecting \<Longrightarrow> sweeper_step s (s\<lparr>sweeper := Sweeping\<rparr>)"
| sw_stop: "sweeper s = Selecting \<Longrightarrow> stop_closed s \<Longrightarrow> sweeper_step s (s\<lparr>sweeper := Returned\<rparr>)"
| sw_send: "sweeper s = Sweeping \<Longrightarrow> \<not> req_closed (lf_writer s) \<Longrightarrow> has_room (lf_writer s) \<Longrightarrow>
     sweeper_step s (s\<lparr>lf_writer := send rec (lf_writer s), sweeper := Awaiting (length (sent (lf_writer s)))\<rparr>)"
| sw_panic: "sweeper s = Sweeping \<Longrightarrow> req_closed (lf_writer s) \<Longrightarrow> sweeper_step s (s\<lparr>sweeper := Panicked\<rparr>)"
| sw_reply: "sweeper s = Awaiting n \<Longrightarrow> replies (lf_writer s) n = Some e \<Longrightarrow> sweeper_step s (s\<lparr>sweeper := Sweeping\<rparr>)"
| sw_done: "sweeper s = Sweeping \<Longrightarrow> sweeper_step s (s\<lparr>sweeper := Selecting\<rparr>)"

text \<open>\<^verbatim>\<open>Queue.Close\<close>: close \<^verbatim>\<open>stop\<close>, wait for the sweeper, close the log's channel, wait for the writer.\<close>

inductive close_step :: "life \<Rightarrow> life \<Rightarrow> bool" where
  cl_stop: "closer s = Running \<Longrightarrow> close_step s (s\<lparr>stop_closed := True, closer := Joining\<rparr>)"
| cl_join: "closer s = Joining \<Longrightarrow> sweeper s = Returned \<Longrightarrow>
     close_step s (s\<lparr>lf_writer := (lf_writer s)\<lparr>req_closed := True\<rparr>, closer := Draining\<rparr>)"
| cl_done: "closer s = Draining \<Longrightarrow> w_pc (lf_writer s) = Exited \<Longrightarrow> close_step s (s\<lparr>closer := Closed\<rparr>)"

text \<open>Clients call the queue only before \<^verbatim>\<open>Close\<close>.\<close>

inductive client_step :: "life \<Rightarrow> life \<Rightarrow> bool" where
  cl_send: "closer s = Running \<Longrightarrow> has_room (lf_writer s) \<Longrightarrow> client_step s (s\<lparr>lf_writer := send rec (lf_writer s)\<rparr>)"

inductive life_step :: "life \<Rightarrow> life \<Rightarrow> bool" where
  l_writer: "writer_step (lf_writer s) w \<Longrightarrow> life_step s (s\<lparr>lf_writer := w\<rparr>)"
| l_sweeper: "sweeper_step s s' \<Longrightarrow> life_step s s'"
| l_close: "close_step s s' \<Longrightarrow> life_step s s'"
| l_client: "client_step s s' \<Longrightarrow> life_step s s'"

lemmas life_defs = send_def has_room_def life_init_def

subsection \<open>The invariant\<close>

text \<open>The channel is closed only by \<^verbatim>\<open>Close\<close> after the sweeper has returned, and a sweeper that waits has its
  request pending or answered.\<close>

definition life_ok :: "life \<Rightarrow> bool" where
  "life_ok s \<longleftrightarrow>
     (req_closed (lf_writer s) \<longleftrightarrow> closer s = Draining \<or> closer s = Closed) \<and>
     (stop_closed s \<longleftrightarrow> closer s \<noteq> Running) \<and>
     (req_closed (lf_writer s) \<longrightarrow> sweeper s = Returned) \<and>
     (sweeper s \<noteq> Panicked) \<and> (sweeper s = Returned \<longrightarrow> stop_closed s) \<and>
     (\<forall>n. sweeper s = Awaiting n \<longrightarrow> n < length (sent (lf_writer s))) \<and>
     (closer s = Closed \<longrightarrow> w_pc (lf_writer s) = Exited)"

lemma writer_step_frame:
  "writer_step s s' \<Longrightarrow> req_closed s' = req_closed s \<and> sent s' = sent s \<and> w_pc s \<noteq> Exited"
  by (erule writer_step.cases) simp_all

lemma life_ok_step: "life_step s s' \<Longrightarrow> life_ok s \<Longrightarrow> life_ok s'"
proof (induction rule: life_step.induct)
  case (l_writer s w)
  with writer_step_frame [of "lf_writer s" w] show ?case by (auto simp: life_ok_def)
next
  case (l_sweeper s s')
  then show ?case by (cases rule: sweeper_step.cases) (auto simp: life_ok_def send_def)
next
  case (l_close s s')
  then show ?case by (cases rule: close_step.cases) (auto simp: life_ok_def)
next
  case (l_client s s')
  then show ?case by (cases rule: client_step.cases) (auto simp: life_ok_def send_def less_SucI)
qed

lemma life_ok_init: "0 < interval \<Longrightarrow> life_ok (life_init w interval)"
  by (simp add: life_ok_def life_init_def writer_init_def)

text \<open>Seen from the log, the steps of the other goroutines are sends, the close, or nothing.\<close>

lemma life_wal_step:
  assumes "life_step s s'" "life_ok s"
  shows "wal_step (lf_writer s) (lf_writer s') \<or> lf_writer s' = lf_writer s"
  using assms(1)
proof (cases rule: life_step.cases)
  case (l_writer w)
  then show ?thesis by (simp add: wal_step_def)
next
  case l_sweeper
  then show ?thesis
    by (cases rule: sweeper_step.cases) (auto simp: wal_step_def life_defs intro: c_send)
next
  case l_close
  then show ?thesis using assms(2)
    by (cases rule: close_step.cases) (auto simp: wal_step_def life_ok_def intro: c_close)
next
  case l_client
  then show ?thesis using assms(2)
    by (cases rule: client_step.cases) (auto simp: wal_step_def life_defs life_ok_def intro: c_send)
qed

interpretation lifecycle: step_simulation life_step life_ok lf_writer wal_step
  by unfold_locales (fact life_ok_step, fact life_wal_step)

lemmas life_ok_steps = lifecycle.steps
lemmas life_wal_steps = lifecycle.seen_steps

subsection \<open>A quiet shutdown\<close>

text \<open>What the log promises along every run (theory Writer), and that a batch in the drain loop is never empty.\<close>

definition wal_ok :: "writer \<Rightarrow> bool" where
  "wal_ok w \<longleftrightarrow> tickets_ok w \<and> no_nil w \<and> exit_ok w \<and> w_pc w \<noteq> Collecting []"

lemma wal_ok_step: "wal_step w w' \<Longrightarrow> wal_ok w \<Longrightarrow> wal_ok w'"
  using tickets_ok_steps [OF r_into_rtranclp, of w w'] exit_ok_step [of w w']
  by (auto simp: wal_ok_def wal_step_def elim!: writer_step.cases caller_step.cases)

interpretation walinv: step_invariant wal_step wal_ok
  by unfold_locales (rule wal_ok_step)

lemmas wal_ok_steps = walinv.steps

lemma wal_ok_init: "wal_ok (writer_init w)"
  using tickets_ok_init exit_ok_init by (auto simp: wal_ok_def writer_init_def)

text \<open>\<open>quiet s\<close>: \<^verbatim>\<open>Close\<close> has been called and no client waits for the log, so that only the sweeper can have a
  request pending.\<close>

definition quiet :: "life \<Rightarrow> bool" where
  "quiet s \<longleftrightarrow> closer s \<noteq> Running \<and> (\<forall>r \<in> set (pending (lf_writer s)). sweeper s = Awaiting (fst r)) \<and>
     (req_closed (lf_writer s) \<longrightarrow> (\<forall>b. w_pc (lf_writer s) \<noteq> Collecting b))"

lemma quiet_pending_Nil: "quiet s \<Longrightarrow> sweeper s = Returned \<Longrightarrow> pending (lf_writer s) = []"
  by (cases "pending (lf_writer s)") (auto simp: quiet_def)

lemma answered_not_pending:
  assumes "tickets_ok w" "replies w n = Some e" "r \<in> set (pending w)"
  shows "fst r \<noteq> n"
proof -
  from assms(1) obtain k where k: "pending w = drop k (enumerate 0 (sent w))" "dom (replies w) = {..<k}"
    unfolding tickets_ok_def by blast
  have "map fst (pending w) = [k..<length (sent w)]" by (simp add: k(1) drop_map [symmetric])
  then have "k \<le> fst r" using assms(3) by (metis atLeastLessThan_iff image_eqI set_map set_upt)
  moreover have "n < k" using assms(2) k(2) by auto
  ultimately show ?thesis by simp
qed

lemma pending_Nil_not_collecting:
  assumes "wal_ok w" "\<not> req_closed w" "pending w = []"
  shows "w_pc w \<noteq> Collecting b"
proof
  assume c: "w_pc w = Collecting b"
  then have "batch_reqs b = []" using assms by (auto simp: wal_ok_def no_nil_def pending_def in_hand_def somes_no_nil)
  with c assms(1) show False by (simp add: wal_ok_def batch_reqs_def)
qed

lemma quiet_writer:
  assumes "quiet s" "wal_ok (lf_writer s)" "life_ok s" "writer_step (lf_writer s) w"
  shows "quiet (s\<lparr>lf_writer := w\<rparr>)"
proof -
  from pending_step [OF assms(4)] assms(2) have "set (pending w) \<subseteq> set (pending (lf_writer s))"
    by (auto simp: wal_ok_def)
  moreover have "w_pc w \<noteq> Collecting b" if "req_closed w" for b
    using assms(4)
  proof (cases rule: writer_step.cases)
    case (w_first r rs)
    with assms(1) have "sweeper s = Awaiting (fst r)" by (auto simp: quiet_def pending_def in_hand_def)
    with w_first that assms(3) show ?thesis by (simp add: life_ok_def)
  qed (use that assms(1) in \<open>auto simp: quiet_def\<close>)
  ultimately show ?thesis using assms(1) by (auto simp: quiet_def)
qed

lemma quiet_step:
  assumes "life_step s s'" "quiet s" "wal_ok (lf_writer s)" "life_ok s"
  shows "quiet s'"
  using assms(1)
proof (cases rule: life_step.cases)
  case (l_writer w)
  with quiet_writer assms show ?thesis by blast
next
  case l_sweeper
  then show ?thesis
  proof (cases rule: sweeper_step.cases)
    case (sw_send rec)
    with assms(2) show ?thesis by (auto simp: quiet_def send_def pending_def)
  next
    case (sw_reply n e)
    with assms(2) answered_not_pending [of "lf_writer s" n e] assms(3) show ?thesis
      by (auto simp: quiet_def wal_ok_def)
  qed (use assms(2) in \<open>auto simp: quiet_def\<close>)
next
  case l_close
  then show ?thesis
  proof (cases rule: close_step.cases)
    case cl_join
    with assms(2) have "pending (lf_writer s) = []" by (simp add: quiet_pending_Nil)
    moreover from this have "\<forall>b. w_pc (lf_writer s) \<noteq> Collecting b"
      using pending_Nil_not_collecting [OF assms(3)] assms(4) cl_join by (simp add: life_ok_def)
    ultimately show ?thesis using cl_join assms(2) by (simp add: quiet_def pending_def)
  qed (use assms(2) in \<open>auto simp: quiet_def\<close>)
next
  case l_client
  with assms(2) show ?thesis by (auto simp: quiet_def elim: client_step.cases)
qed

definition shutting_down :: "life \<Rightarrow> bool" where
  "shutting_down s \<longleftrightarrow> quiet s \<and> wal_ok (lf_writer s) \<and> life_ok s"

lemma shutting_down_step: "life_step s s' \<Longrightarrow> shutting_down s \<Longrightarrow> shutting_down s'"
  unfolding shutting_down_def using quiet_step life_ok_step life_wal_step wal_ok_step by metis

interpretation shutdown: step_invariant life_step shutting_down
  by unfold_locales (rule shutting_down_step)

lemmas shutting_down_steps = shutdown.steps

subsection \<open>Close returns\<close>

lemma writer_settles: "\<not> req_closed w \<Longrightarrow> \<exists>w'. writer_step\<^sup>*\<^sup>* w w' \<and> \<not> (\<exists>t. writer_step w' t)"
proof (induction w rule: measure_induct_rule [of work])
  case (less w)
  show ?case
  proof (cases "\<exists>t. writer_step w t")
    case True
    then obtain t where t: "writer_step w t" by blast
    with less.IH [of t] work_decreases [OF t less.prems] obtain w' where "writer_step\<^sup>*\<^sup>* t w'" "\<not> (\<exists>u. writer_step w' u)" by blast
    with t show ?thesis by (meson converse_rtranclp_into_rtranclp)
  qed blast
qed

lemma lift_writer: "writer_step\<^sup>*\<^sup>* (lf_writer s) w \<Longrightarrow> life_step\<^sup>*\<^sup>* s (s\<lparr>lf_writer := w\<rparr>)"
proof (induction rule: rtranclp_induct)
  case (step w w')
  then show ?case using l_writer [of "s\<lparr>lf_writer := w\<rparr>" w'] by (auto intro: rtranclp.rtrancl_into_rtrancl)
qed simp

text \<open>The three waits of the shutdown, last one first.\<close>

lemma draining_closes:
  assumes "shutting_down s" "closer s = Draining"
  shows "\<exists>s'. life_step\<^sup>*\<^sup>* s s' \<and> closer s' = Closed"
proof -
  let ?w = "lf_writer s"
  have c: "req_closed ?w" "sweeper s = Returned" using assms by (auto simp: shutting_down_def life_ok_def)
  with assms have "pending ?w = []" and n: "w_pc ?w \<noteq> Collecting b" for b
    by (simp_all add: shutting_down_def quiet_pending_Nil, simp add: quiet_def)
  then have r: "requests ?w = []" by (simp add: pending_def)
  obtain w where w: "writer_step\<^sup>*\<^sup>* ?w w" "w_pc w = Exited"
  proof (cases "w_pc ?w = Exited")
    case False
    with n have "w_pc ?w = Idle \<or> (\<exists>e rs. w_pc ?w = Replying e rs)" by (cases "w_pc ?w") auto
    with closed_exits [OF c(1) r] that show ?thesis by blast
  qed (use that in blast)
  have "close_step (s\<lparr>lf_writer := w\<rparr>) (s\<lparr>lf_writer := w, closer := Closed\<rparr>)"
    using cl_done [of "s\<lparr>lf_writer := w\<rparr>"] assms(2) w(2) by simp
  with lift_writer [OF w(1)] have "life_step\<^sup>*\<^sup>* s (s\<lparr>lf_writer := w, closer := Closed\<rparr>)"
    by (meson l_close rtranclp.rtrancl_into_rtrancl)
  then show ?thesis by (intro exI [of _ "s\<lparr>lf_writer := w, closer := Closed\<rparr>"]) simp
qed

lemma returned_closes:
  assumes "shutting_down s" "closer s = Joining" "sweeper s = Returned"
  shows "\<exists>s'. life_step\<^sup>*\<^sup>* s s' \<and> closer s' = Closed"
proof -
  let ?s = "s\<lparr>lf_writer := (lf_writer s)\<lparr>req_closed := True\<rparr>, closer := Draining\<rparr>"
  have st: "life_step s ?s" using cl_join assms(2,3) l_close by blast
  from draining_closes [OF shutting_down_step [OF st assms(1)]] obtain s' where "life_step\<^sup>*\<^sup>* ?s s'" "closer s' = Closed" by auto
  with st show ?thesis by (meson converse_rtranclp_into_rtranclp)
qed

lemma selecting_returns:
  assumes "stop_closed s" "sweeper s = Selecting \<or> sweeper s = Sweeping"
  shows "life_step\<^sup>*\<^sup>* s (s\<lparr>sweeper := Returned\<rparr>)"
proof -
  have a: "life_step t (t\<lparr>sweeper := Returned\<rparr>)" if "stop_closed t" "sweeper t = Selecting" for t
    using that sw_stop l_sweeper by blast
  show ?thesis
  proof (cases "sweeper s = Selecting")
    case False
    with assms(2) have "life_step s (s\<lparr>sweeper := Selecting\<rparr>)" using sw_done l_sweeper by blast
    moreover have "life_step (s\<lparr>sweeper := Selecting\<rparr>) (s\<lparr>sweeper := Returned\<rparr>)"
      using a [of "s\<lparr>sweeper := Selecting\<rparr>"] assms(1) by simp
    ultimately show ?thesis by (rule converse_rtranclp_into_rtranclp [OF _ r_into_rtranclp])
  qed (use a assms(1) in blast)
qed

lemma awaiting_answered:
  assumes "shutting_down s" "closer s = Joining" "sweeper s = Awaiting n"
  shows "\<exists>s'. life_step\<^sup>*\<^sup>* s s' \<and> closer s' = Joining \<and> stop_closed s' \<and> sweeper s' = Sweeping"
proof -
  let ?w = "lf_writer s"
  have o: "\<not> req_closed ?w" "stop_closed s" "n < length (sent ?w)" using assms by (auto simp: shutting_down_def life_ok_def)
  from writer_settles [OF o(1)] obtain w where w: "writer_step\<^sup>*\<^sup>* ?w w" "\<not> (\<exists>t. writer_step w t)" by blast
  from w(1) obtain m where "(writer_step ^^ m) ?w w" by (auto simp: rtranclp_power)
  with work_bound o(1) have b: "\<not> req_closed w" "sent w = sent ?w" by blast+
  have ok: "wal_ok w" using shutting_down_steps [OF lift_writer [OF w(1)] assms(1)] by (simp add: shutting_down_def)
  then have "w_pc w \<noteq> Exited" using b(1) by (auto simp: wal_ok_def exit_ok_def)
  with writer_stuck [OF w(2) b(1)] idle_all_answered ok have "dom (replies w) = {..<length (sent w)}" by (auto simp: wal_ok_def)
  then have "n \<in> dom (replies w)" using o(3) b(2) by simp
  then obtain e where "replies w n = Some e" by blast
  then have "life_step (s\<lparr>lf_writer := w\<rparr>) (s\<lparr>lf_writer := w, sweeper := Sweeping\<rparr>)"
    using sw_reply [of "s\<lparr>lf_writer := w\<rparr>" n e] assms(3) l_sweeper by simp
  with lift_writer [OF w(1)] have "life_step\<^sup>*\<^sup>* s (s\<lparr>lf_writer := w, sweeper := Sweeping\<rparr>)" by simp
  then show ?thesis using assms(2) o(2)
    by (intro exI [of _ "s\<lparr>lf_writer := w, sweeper := Sweeping\<rparr>"]) simp
qed

lemma joining_closes:
  assumes "shutting_down s" "closer s = Joining"
  shows "\<exists>s'. life_step\<^sup>*\<^sup>* s s' \<and> closer s' = Closed"
proof -
  have close: "\<exists>s'. life_step\<^sup>*\<^sup>* s s' \<and> closer s' = Closed"
    if t: "life_step\<^sup>*\<^sup>* s t" "closer t = Joining" "stop_closed t" "sweeper t = Selecting \<or> sweeper t = Sweeping" for t
  proof -
    have "life_step\<^sup>*\<^sup>* s (t\<lparr>sweeper := Returned\<rparr>)" using t(1) selecting_returns [OF t(3,4)] by simp
    moreover from shutting_down_steps [OF this assms(1)] returned_closes [of "t\<lparr>sweeper := Returned\<rparr>"] t(2)
    obtain s' where "life_step\<^sup>*\<^sup>* (t\<lparr>sweeper := Returned\<rparr>) s'" "closer s' = Closed" by auto
    ultimately show ?thesis by (meson rtranclp_trans)
  qed
  have ok: "stop_closed s" "sweeper s \<noteq> Panicked" using assms by (auto simp: shutting_down_def life_ok_def)
  show ?thesis
  proof (cases "sweeper s")
    case (Awaiting n)
    with awaiting_answered [OF assms] close show ?thesis by blast
  next
    case Returned
    with returned_closes [OF assms] show ?thesis by blast
  qed (use close [of s] assms(2) ok in auto)
qed

lemma shutting_down_closes:
  assumes "shutting_down s"
  shows "\<exists>s'. life_step\<^sup>*\<^sup>* s s' \<and> closer s' = Closed"
proof (cases "closer s")
  case Running
  with assms show ?thesis by (simp add: shutting_down_def quiet_def)
qed (use assms joining_closes draining_closes in auto)

lemma reachable_ok:
  assumes "life_step\<^sup>*\<^sup>* (life_init w interval) s" "0 < interval"
  shows "life_ok s \<and> wal_ok (lf_writer s)"
  using life_ok_steps [OF assms(1) life_ok_init] life_wal_steps [OF assms(1) life_ok_init] wal_ok_steps [OF _ wal_ok_init] assms(2)
  by (simp add: life_init_def)

subsection \<open>Properties of the shutdown\<close>

text \<open>C30. In every interleaving of clients, ticks, sweeps and the shutdown: the sweeper never sends on the closed
  channel, the log is closed only once the sweeper has returned, and \<^verbatim>\<open>Close\<close> returns only after the writer has exited.\<close>

theorem shutdown_order:
  assumes "life_step\<^sup>*\<^sup>* (life_init w interval) s" "0 < interval"
  shows "sweeper s \<noteq> Panicked \<and> (req_closed (lf_writer s) \<longrightarrow> sweeper s = Returned) \<and>
    (closer s = Closed \<longrightarrow> w_pc (lf_writer s) = Exited \<and> requests (lf_writer s) = [])"
  using reachable_ok [OF assms] by (auto simp: life_ok_def wal_ok_def exit_ok_def)

text \<open>C29. When \<^verbatim>\<open>Close\<close> is called and no client waits for the log (only the sweeper may), the shutdown cannot get
  stuck: from every state reached afterwards \<^verbatim>\<open>Close\<close> can still return, and when it has returned every
  request ever sent has been answered.\<close>

theorem quiet_close_returns:
  assumes "life_step\<^sup>*\<^sup>* (life_init w interval) s" "0 < interval" "closer s = Joining"
    "\<forall>r \<in> set (pending (lf_writer s)). sweeper s = Awaiting (fst r)" "life_step\<^sup>*\<^sup>* s s'"
  shows "(\<exists>s''. life_step\<^sup>*\<^sup>* s' s'' \<and> closer s'' = Closed) \<and>
    (closer s' = Closed \<longrightarrow> dom (replies (lf_writer s')) = {..<length (sent (lf_writer s'))})"
proof -
  have "shutting_down s" using reachable_ok [OF assms(1,2)] assms(3,4)
    by (auto simp: shutting_down_def quiet_def life_ok_def)
  then have d: "shutting_down s'" using shutting_down_steps [OF assms(5)] by simp
  have "dom (replies (lf_writer s')) = {..<length (sent (lf_writer s'))}" if "closer s' = Closed"
  proof -
    have "sweeper s' = Returned" using d that by (auto simp: shutting_down_def life_ok_def)
    with d have "pending (lf_writer s') = []" by (simp add: shutting_down_def quiet_pending_Nil)
    moreover have "tickets_ok (lf_writer s')" using d by (simp add: shutting_down_def wal_ok_def)
    ultimately show ?thesis by (auto simp: tickets_ok_def)
  qed
  with shutting_down_closes [OF d] show ?thesis by blast
qed

text \<open>A sweeper that has just ticked when \<^verbatim>\<open>Close\<close> is called.\<close>

lemma demo_close:
  "life_step\<^sup>*\<^sup>* (life_init empty_WAL 5) ((life_init empty_WAL 5)\<lparr>sweeper := Sweeping, stop_closed := True, closer := Joining\<rparr>)"
  (is "life_step\<^sup>*\<^sup>* ?s ?s'")
proof -
  have "life_step ?s (?s\<lparr>sweeper := Sweeping\<rparr>)" using sw_tick [of ?s] l_sweeper by (simp add: life_init_def)
  moreover have "life_step (?s\<lparr>sweeper := Sweeping\<rparr>) ?s'" using cl_stop [of "?s\<lparr>sweeper := Sweeping\<rparr>"] l_close by (simp add: life_init_def)
  ultimately show ?thesis by (rule converse_rtranclp_into_rtranclp [OF _ r_into_rtranclp])
qed

theorem shutdown_order_witness:
  "sweeper ((life_init empty_WAL 5)\<lparr>sweeper := Sweeping, stop_closed := True, closer := Joining\<rparr>) \<noteq> Panicked"
  using shutdown_order [OF demo_close] by simp

theorem quiet_close_returns_witness:
  "\<exists>s. life_step\<^sup>*\<^sup>* ((life_init empty_WAL 5)\<lparr>sweeper := Sweeping, stop_closed := True, closer := Joining\<rparr>) s \<and> closer s = Closed"
  using quiet_close_returns [OF demo_close, of "(life_init empty_WAL 5)\<lparr>sweeper := Sweeping, stop_closed := True, closer := Joining\<rparr>"]
  by (simp add: life_init_def writer_init_def pending_def in_hand_def)

end
