(* ===== verification/Taskq.thy ===== *)
theory Taskq
  imports Scenario
begin

section \<open>The demo program (cmd/taskq)\<close>

text \<open>
  \<^verbatim>\<open>main\<close> opens the queue, enqueues three tasks and drains the queue: it dequeues, processes and acknowledges until nothing is
  ready. The \<open>n\<close>-th turn of the loop reads the clock as \<open>clk n\<close> and meets the disk outcome \<open>ios n\<close>. The sweeper is not
  part of the loop: at the head of every turn nothing is leased. The result lists the ids in the order they were
  processed, with the error of a failed acknowledgement, at which the program exits.
\<close>

lemma Dequeue_shrinks: "Dequeue now q = (Some p, q') \<Longrightarrow> Suc (length (ready q')) = length (ready q)"
proof (erule Dequeue_cases)
  fix p' rest assume a: "heap_Pop (readyHeap_Less (q_tasks q)) (ready q) = Some (p', rest)" "q' = lease now p' (q\<lparr>ready := rest\<rparr>)"
  from arg_cong [OF heap_Pop_Some(3) [OF a(1)], of size] have "length (ready q) = Suc (length rest)" by simp
  with a(2) show ?thesis by (simp add: effect_defs)
qed simp

lemma Ack_ready: "ready (snd (Ack i u q)) = ready q"
proof -
  obtain r q' where e: "Ack i u q = (r, q')" by force
  then show ?thesis by (cases rule: Ack_cases) (use e in \<open>auto simp: effect_defs\<close>)
qed

function drain_demo :: "(nat \<Rightarrow> time) \<Rightarrow> (nat \<Rightarrow> io) \<Rightarrow> nat \<Rightarrow> Queue \<Rightarrow> go_error option \<times> uuid list \<times> Queue" where
  "drain_demo clk ios n q =
     (case Dequeue (clk n) q of
        (None, q1) \<Rightarrow> (None, [], q1)
      | (Some p, q1) \<Rightarrow>
          let u = ID (q_tasks q1 p) in
          (case Ack (ios n) u q1 of
             (Some e, q2) \<Rightarrow> (Some e, [u], q2)
           | (None, q2) \<Rightarrow> (case drain_demo clk ios (Suc n) q2 of (r, us, q3) \<Rightarrow> (r, u # us, q3))))"
  by pat_completeness auto
termination
proof (relation "measure (\<lambda>(clk, ios, n, q). length (ready q))")
  fix clk :: "nat \<Rightarrow> time" and ios n q r q1 p u a q2
  assume "(r, q1) = Dequeue (clk n) q" "r = Some p" "(a, q2) = Ack (ios n) u q1"
  then show "((clk, ios, Suc n, q2), clk, ios, n, q) \<in> measure (\<lambda>(clk, ios, n, q). length (ready q))"
    using Dequeue_shrinks [of "clk n" q p q1] Ack_ready [of "ios n" u q1] by (metis (no_types, lifting) case_prod_conv in_measure lessI snd_conv)
qed simp

declare drain_demo.simps [simp del]

text \<open>The three enqueues; the first error ends the program.\<close>

record enqueue_input =
  ei_id :: uuid
  ei_now :: time
  ei_io :: io

fun enqueue_demo :: "(string \<times> enqueue_input) list \<Rightarrow> Queue \<Rightarrow> Queue result" where
  "enqueue_demo [] q = Inr q"
| "enqueue_demo ((k, i) # ks) q =
     (case Enqueue (ei_id i) (ei_now i) (ei_io i) (string_bytes (''payload for '' @ k)) k q of
        (Inl e, q') \<Rightarrow> Inl e
      | (Inr u, q') \<Rightarrow> enqueue_demo ks q')"

definition taskq_keys :: "string list" where
  "taskq_keys = [''email-1'', ''email-2'', ''email-3'']"

text \<open>The whole program, from the bytes on disk to the ids processed and the number of dead tasks it reports. \<open>Inl\<close> is an exit
  through \<^verbatim>\<open>log.Fatalf\<close>; \<open>mkdir\<close> is the error of creating the directory.\<close>

definition taskq_main ::
  "go_error option \<Rightarrow> (bytes \<Rightarrow> uuid result) \<Rightarrow> (nat \<Rightarrow> time) \<Rightarrow> disk \<Rightarrow> enqueue_input list \<Rightarrow> (nat \<Rightarrow> time) \<Rightarrow> (nat \<Rightarrow> io) \<Rightarrow>
   (uuid list \<times> nat) result" where
  "taskq_main mkdir fb clk0 d eis clk ios =
     (case mkdir of Some e \<Rightarrow> Inl e | None \<Rightarrow>
     (case NewQueue fb clk0 d (30 * 10 ^ 9) (5 * 10 ^ 9) 3 of
        Inl e \<Rightarrow> Inl e
      | Inr q \<Rightarrow>
          (case enqueue_demo (zip taskq_keys eis) q of
             Inl e \<Rightarrow> Inl e
           | Inr q1 \<Rightarrow>
               (case drain_demo clk ios 0 q1 of
                  (Some e, us, q2) \<Rightarrow> Inl e
                | (None, us, q2) \<Rightarrow> Inr (us, DLQLen q2)))))"

subsection \<open>The loop empties the queue\<close>

text \<open>\<open>idle clk q\<close>: nothing is leased and every live task is due at every reading of the clock.\<close>

definition idle :: "(nat \<Rightarrow> time) \<Rightarrow> Queue \<Rightarrow> bool" where
  "idle clk q \<longleftrightarrow> queue_wf q \<and> indexOfInflight q = Map.empty \<and>
     (\<forall>i p n. index q i = Some p \<longrightarrow> AvailableAt (q_tasks q p) \<le> clk n)"

lemma idle_turn:
  assumes "idle clk q" "Dequeue (clk n) q = (Some p, q1)"
  shows "\<exists>q2. Ack io_ok (ID (q_tasks q1 p)) q1 = (None, q2) \<and> idle clk q2 \<and> dlq q2 = dlq q \<and>
    index q (ID (q_tasks q1 p)) = Some p \<and> index q2 = (index q)(ID (q_tasks q1 p) := None)"
proof -
  have wf: "queue_wf q" and ok: "queue_ok q" using assms(1) queue_wfD(1) by (auto simp: idle_def)
  note D = Dequeue_Some_min [OF wf assms(2)]
  let ?u = "ID (q_tasks q p)"
  have u: "ID (q_tasks q1 p) = ?u" by (simp add: D(5))
  have i: "index q ?u = Some p" using ready_iff [OF wf] D(1) by blast
  then have i1: "index q1 ?u = Some p" "indexOfInflight q1 = [?u \<mapsto> p]" using D(6,7) assms(1) by (simp_all add: idle_def)
  obtain w where w: "Ack io_ok ?u q1 = (None, ack_done ?u p (q1\<lparr>wal := w\<rparr>))"
    using logged_ok i1(1) by (force simp: Ack_def encodeAckPayload_def)
  have "queue_wf (ack_done ?u p (q1\<lparr>wal := w\<rparr>))"
    using queue_wf_Ack [of q1 ?u io_ok] queue_wf_Dequeue [OF wf, of "clk n"] i1 w assms(2) by simp
  moreover have "AvailableAt (q_tasks q1 x) \<le> clk m" if "index q j = Some x" for j x m
    using assms(1) that unfolding idle_def by (auto simp: D(5))
  ultimately have "idle clk (ack_done ?u p (q1\<lparr>wal := w\<rparr>))"
    using i1(2) D(7) by (auto simp: idle_def effect_defs)
  with w u i D(7,8) show ?thesis by (intro exI [of _ "ack_done ?u p (q1\<lparr>wal := w\<rparr>)"]) (simp add: effect_defs)
qed

lemma idle_end:
  assumes "idle clk q" "Dequeue (clk n) q = (None, q1)"
  shows "index q = Map.empty" "q1 = q"
proof -
  have wf: "queue_wf q" using assms(1) by (simp add: idle_def)
  have "ready q = []"
  proof (rule ccontr)
    assume "ready q \<noteq> []"
    then have p: "hd (ready q) \<in> set (ready q)" by simp
    with Dequeue_None_iff [OF wf, of "clk n"] assms(2) have "clk n < AvailableAt (q_tasks q (hd (ready q)))" by simp
    moreover have "index q (ID (q_tasks q (hd (ready q)))) = Some (hd (ready q))" using ready_iff [OF wf] p by blast
    ultimately show False using assms(1) unfolding idle_def by (metis linorder_not_less)
  qed
  then have "index q i = None" for i
    using queue_okD(11) [OF queue_wfD(1) [OF wf], of i] assms(1) by (cases "index q i") (auto simp: idle_def)
  then show "index q = Map.empty" by blast
  show "q1 = q" using assms(2) by (cases rule: Dequeue_cases) auto
qed

lemma drain_demo_all:
  "idle clk q \<Longrightarrow> ios = (\<lambda>_. io_ok) \<Longrightarrow>
   \<exists>us q'. drain_demo clk ios n q = (None, us, q') \<and> distinct us \<and> set us = dom (index q) \<and> index q' = Map.empty \<and> dlq q' = dlq q"
proof (induction clk ios n q rule: drain_demo.induct)
  case (1 clk ios n q)
  obtain r q1 where d: "Dequeue (clk n) q = (r, q1)" by force
  show ?case
  proof (cases r)
    case None
    with idle_end [OF 1(2)] d show ?thesis by (subst drain_demo.simps) auto
  next
    case (Some p)
    let ?u = "ID (q_tasks q1 p)"
    from idle_turn [OF 1(2)] d Some obtain q2 where q2: "Ack io_ok ?u q1 = (None, q2)" "idle clk q2" "dlq q2 = dlq q"
      "index q ?u = Some p" "index q2 = (index q)(?u := None)" by blast
    from 1(1) [OF d [symmetric] _ refl, of p None q2] Some q2(1,2) 1(3) obtain us q' where
      "drain_demo clk ios (Suc n) q2 = (None, us, q')" "distinct us" "set us = dom (index q2)" "index q' = Map.empty" "dlq q' = dlq q2"
      by auto
    with d Some q2 1(3) show ?thesis
      by (subst drain_demo.simps) (auto simp: Let_def)
  qed
qed

subsection \<open>The program\<close>

lemma idle_enqueue:
  assumes "idle clk q" "fresh (ei_id i) q" "ei_io i = io_ok" "\<And>n. zeroTime \<le> clk n"
  obtains u q' where "Enqueue (ei_id i) (ei_now i) (ei_io i) pl k q = (Inr u, q')" "idle clk q'" "dlq q' = dlq q"
    "dom (index q') = dom (index q) \<union> (if dedup k q = None then {ei_id i} else {})"
    "\<And>j. fresh j q \<Longrightarrow> j \<noteq> ei_id i \<Longrightarrow> fresh j q'"
    "\<And>k'. k' \<noteq> k \<Longrightarrow> dedup k' q' = None \<longleftrightarrow> dedup k' q = None"
proof (cases "dedup k q")
  case None
  let ?t = "new_task (ei_id i) (ei_now i) pl k"
  from Enqueue_ok [OF None, of "ei_id i" "ei_now i" pl] obtain w where
    e: "Enqueue (ei_id i) (ei_now i) io_ok pl k q = (Inr (ei_id i), enqueue_add ?t (q\<lparr>wal := w\<rparr>))" by blast
  have "queue_wf (enqueue_add ?t (q\<lparr>wal := w\<rparr>))"
    using queue_wf_Enqueue [of q "ei_id i" "ei_now i" io_ok pl k] assms(1,2) e by (simp add: idle_def)
  then have "idle clk (enqueue_add ?t (q\<lparr>wal := w\<rparr>))"
    using assms(1,4) queue_okD(1) [OF queue_wfD(1), of q] by (fastforce simp: idle_def enqueue_add_simps)
  with e None assms(3) show ?thesis
    by (intro that [of "ei_id i" "enqueue_add ?t (q\<lparr>wal := w\<rparr>)"]) (auto simp: enqueue_add_simps fresh_def less_Suc_eq dedup_def)
next
  case (Some u)
  with assms show ?thesis by (intro that [of u q]) (simp_all add: Enqueue_def)
qed

text \<open>The ids of the tasks that are really added: those whose key is not known yet.\<close>

definition new_ids :: "(string \<times> enqueue_input) list \<Rightarrow> Queue \<Rightarrow> uuid list" where
  "new_ids ks q = map (ei_id \<circ> snd) (filter (\<lambda>ki. dedup (fst ki) q = None) ks)"

lemma enqueue_demo_all:
  "idle clk q \<Longrightarrow> (\<And>n. zeroTime \<le> clk n) \<Longrightarrow> distinct (map fst ks) \<Longrightarrow> distinct (map (ei_id \<circ> snd) ks) \<Longrightarrow>
   (\<And>k i. (k, i) \<in> set ks \<Longrightarrow> fresh (ei_id i) q \<and> ei_io i = io_ok) \<Longrightarrow>
   \<exists>q'. enqueue_demo ks q = Inr q' \<and> idle clk q' \<and> dlq q' = dlq q \<and>
     dom (index q') = dom (index q) \<union> set (new_ids ks q)"
proof (induction ks arbitrary: q)
  case (Cons ki ks)
  obtain k i where ki: "ki = (k, i)" by force
  have i: "fresh (ei_id i) q" "ei_io i = io_ok" using Cons.prems(5) [of k i] ki by simp_all
  obtain u q1 where q1: "Enqueue (ei_id i) (ei_now i) (ei_io i) (string_bytes (''payload for '' @ k)) k q = (Inr u, q1)"
    "idle clk q1" "dlq q1 = dlq q" "dom (index q1) = dom (index q) \<union> (if dedup k q = None then {ei_id i} else {})"
    and f: "\<And>j. fresh j q \<Longrightarrow> j \<noteq> ei_id i \<Longrightarrow> fresh j q1" and d: "\<And>k'. k' \<noteq> k \<Longrightarrow> dedup k' q1 = None \<longleftrightarrow> dedup k' q = None"
    using idle_enqueue [OF Cons.prems(1) i Cons.prems(2), of "string_bytes (''payload for '' @ k)" k] by blast
  have "\<exists>q'. enqueue_demo ks q1 = Inr q' \<and> idle clk q' \<and> dlq q' = dlq q1 \<and>
     dom (index q') = dom (index q1) \<union> set (new_ids ks q1)"
  proof (rule Cons.IH)
    show "fresh (ei_id i') q1 \<and> ei_io i' = io_ok" if "(k', i') \<in> set ks" for k' i'
      using that Cons.prems(4,5) f [of "ei_id i'"] unfolding ki by force
  qed (use Cons.prems q1(2) in simp_all)
  then obtain q' where q': "enqueue_demo ks q1 = Inr q'" "idle clk q'" "dlq q' = dlq q1"
    "dom (index q') = dom (index q1) \<union> set (new_ids ks q1)" by blast
  have "dedup k' q1 = None \<longleftrightarrow> dedup k' q = None" if "(k', i') \<in> set ks" for k' i'
    using that Cons.prems(3) d [of k'] unfolding ki by force
  then have "new_ids ks q1 = new_ids ks q" unfolding new_ids_def by (metis (mono_tags, lifting) filter_cong prod.collapse)
  then have "dom (index q') = dom (index q) \<union> set (new_ids (ki # ks) q)"
    unfolding q'(4) q1(4) ki by (auto simp: new_ids_def)
  with q' q1 ki show ?case by simp
qed (simp add: new_ids_def)



end
