(* ===== verification/Decimal.thy ===== *)
theory Decimal
  imports Prelude
begin

section \<open>Decimal numbers as text\<close>

text \<open>
  What the program uses of \<^verbatim>\<open>strconv\<close> and of the verb \<^verbatim>\<open>%d\<close>: printing an integer in decimal, and \<^verbatim>\<open>strconv.Atoi\<close>, which
  takes an optional sign and at least one digit and refuses everything outside the range of int64.
\<close>

definition digit :: "nat \<Rightarrow> char" where
  "digit d = char_of (48 + d)"

definition is_digit :: "char \<Rightarrow> bool" where
  "is_digit c \<longleftrightarrow> 48 \<le> (of_char c :: nat) \<and> (of_char c :: nat) \<le> 57"

definition digit_val :: "char \<Rightarrow> nat" where
  "digit_val c = of_char c - 48"

fun show_nat :: "nat \<Rightarrow> string" where
  "show_nat n = (if n < 10 then [digit n] else show_nat (n div 10) @ [digit (n mod 10)])"

declare show_nat.simps [simp del]

definition Itoa :: "int \<Rightarrow> string" where
  "Itoa i = (if i < 0 then ''-'' @ show_nat (nat (- i)) else show_nat (nat i))"

definition read_nat :: "string \<Rightarrow> nat" where
  "read_nat s = foldl (\<lambda>a c. a * 10 + digit_val c) 0 s"

definition unsigned_int :: "string \<Rightarrow> nat option" where
  "unsigned_int s = (if s \<noteq> [] \<and> list_all is_digit s then Some (read_nat s) else None)"

fun signed_int :: "string \<Rightarrow> int option" where
  "signed_int (c # s) =
     (if c = CHR ''-'' then map_option (\<lambda>n. - int n) (unsigned_int s)
      else if c = CHR ''+'' then map_option int (unsigned_int s)
      else map_option int (unsigned_int (c # s)))"
| "signed_int [] = None"

definition Atoi :: "string \<Rightarrow> int option" where
  "Atoi s = (case signed_int s of None \<Rightarrow> None
     | Some i \<Rightarrow> if - (2 ^ 63) \<le> i \<and> i < 2 ^ 63 then Some i else None)"

subsection \<open>Printing and reading\<close>

lemma of_char_digit: "d < 10 \<Longrightarrow> of_char (digit d) = 48 + d"
  by (simp add: digit_def)

lemma digit_simps [simp]: "d < 10 \<Longrightarrow> is_digit (digit d)" "d < 10 \<Longrightarrow> digit_val (digit d) = d"
  by (simp_all add: is_digit_def digit_val_def of_char_digit)

lemma show_nat_digits: "list_all is_digit (show_nat n) \<and> show_nat n \<noteq> []"
proof (induction n rule: show_nat.induct)
  case (1 n)
  then show ?case by (subst (1 2) show_nat.simps) auto
qed

lemma read_nat_snoc: "read_nat (s @ [c]) = read_nat s * 10 + digit_val c"
  by (simp add: read_nat_def)

lemma read_show_nat [simp]: "read_nat (show_nat n) = n"
proof (induction n rule: show_nat.induct)
  case (1 n)
  then show ?case by (subst show_nat.simps) (simp add: read_nat_snoc, simp add: read_nat_def)
qed

lemma show_nat_inject [simp]: "show_nat m = show_nat n \<longleftrightarrow> m = n"
  by (metis read_show_nat)

lemma not_digit [simp]: "\<not> is_digit (CHR ''-'')" "\<not> is_digit (CHR ''+'')"
  by (simp_all add: is_digit_def)

lemma unsigned_show_nat [simp]: "unsigned_int (show_nat n) = Some n"
  using show_nat_digits [of n] by (simp add: unsigned_int_def)

lemma signed_Itoa: "signed_int (Itoa i) = Some i"
proof (cases "i < 0")
  case False
  obtain c s where s: "show_nat (nat i) = c # s" using show_nat_digits [of "nat i"] by (cases "show_nat (nat i)") auto
  have "is_digit c" using show_nat_digits [of "nat i"] s by simp
  then have "c \<noteq> CHR ''-''" "c \<noteq> CHR ''+''" using not_digit by metis+
  with False s unsigned_show_nat [of "nat i"] show ?thesis by (simp add: Itoa_def)
qed (simp add: Itoa_def)

lemma Atoi_Itoa: "- (2 ^ 63) \<le> i \<Longrightarrow> i < 2 ^ 63 \<Longrightarrow> Atoi (Itoa i) = Some i"
  by (simp add: Atoi_def signed_Itoa)

lemma Atoi_range: "Atoi s = Some i \<Longrightarrow> - (2 ^ 63) \<le> i \<and> i < 2 ^ 63"
  by (simp add: Atoi_def split: option.splits if_splits)

text \<open>Two numbers printed with a separator that is no digit can be told apart.\<close>

lemma separated_inject:
  assumes "show_nat a @ c # show_nat b = show_nat a' @ c # show_nat b'" "\<not> is_digit c"
  shows "a = a' \<and> b = b'"
proof -
  have t: "takeWhile is_digit (show_nat n @ c # s) = show_nat n" for n s
    using show_nat_digits [of n] assms(2) by (simp add: takeWhile_append list_all_iff)
  from arg_cong [OF assms(1), of "takeWhile is_digit"] have "a = a'" by (simp add: t)
  with assms(1) show ?thesis by simp
qed

end
