(* ===== verification/Config.thy ===== *)
theory Config
  imports Decimal Complex_Main
begin

section \<open>Configuration of the load test (main.go, wizard.go)\<close>

text \<open>
  The knobs of a run, the validation of the command line, and the interactive wizard. Standard input is the list of its
  lines, of ASCII text; an empty list is the end of the input. What the wizard prints is not modelled. The parsers
  \<^verbatim>\<open>time.ParseDuration\<close> and \<^verbatim>\<open>strconv.ParseFloat\<close> are arguments, so what is shown holds whatever they accept; \<^verbatim>\<open>Atoi\<close> is that of
  theory Decimal. A float64 is a number, an infinity or NaN, with which every comparison is false.
\<close>

datatype go_float = NaN | MinusInf | PlusInf | Num rat

fun fless :: "go_float \<Rightarrow> go_float \<Rightarrow> bool" where
  "fless NaN y = False"
| "fless x NaN = False"
| "fless (Num x) (Num y) = (x < y)"
| "fless MinusInf y = (y \<noteq> MinusInf)"
| "fless x PlusInf = (x \<noteq> PlusInf)"
| "fless PlusInf y = False"
| "fless (Num x) MinusInf = False"

record config =
  c_dur :: duration
  producers :: int
  consumers :: int
  failRate :: go_float
  crashShare :: go_float
  c_maxRetries :: int
  c_visibility :: duration
  c_sweep :: duration
  drainTO :: duration
  walPath :: string
  label :: string
  out :: string

definition second :: duration where
  "second = 10 ^ 9"

text \<open>The defaults of the flags. 0.2 is the float64 nearest to it.\<close>

definition default_config :: config where
  "default_config =
     \<lparr>c_dur = 10 * second, producers = 4, consumers = 4, failRate = Num (3602879701896397 / 2 ^ 54),
      crashShare = Num (1 / 2), c_maxRetries = 3, c_visibility = 5 * second, c_sweep = 500 * 10 ^ 6,
      drainTO = 60 * second, walPath = [], label = [], out = ''bench/results.jsonl''\<rparr>"

datatype fatal = BadGoroutines int int | BadFailRate go_float | BadCrashShare go_float

text \<open>\<open>assign\<close> is what \<^verbatim>\<open>flag.Parse\<close> stores into the variables, \<open>tmp\<close> the path of the throwaway log. The result says whether the
  cleanup removes the log.\<close>

definition parseFlags :: "(config \<Rightarrow> config) \<Rightarrow> string \<Rightarrow> fatal + config \<times> bool" where
  "parseFlags assign tmp =
     (let cfg = assign default_config in
      if producers cfg < 1 \<or> consumers cfg < 1 then Inl (BadGoroutines (producers cfg) (consumers cfg))
      else if fless (failRate cfg) (Num 0) \<or> fless (Num 1) (failRate cfg) then Inl (BadFailRate (failRate cfg))
      else if fless (crashShare cfg) (Num 0) \<or> fless (Num 1) (crashShare cfg) then Inl (BadCrashShare (crashShare cfg))
      else if walPath cfg = [] then Inr (cfg\<lparr>walPath := tmp\<rparr>, True)
      else Inr (cfg, False))"

definition shouldRunWizard :: "nat \<Rightarrow> bool option \<Rightarrow> bool" where
  "shouldRunWizard nflag stdin_char_device =
     (if nflag \<noteq> 0 then False else case stdin_char_device of None \<Rightarrow> False | Some b \<Rightarrow> b)"

subsection \<open>The wizard\<close>

definition is_space :: "char \<Rightarrow> bool" where
  "is_space c \<longleftrightarrow> of_char c \<in> {9, 10, 11, 12, 13, 32 :: nat}"

definition TrimSpace :: "string \<Rightarrow> string" where
  "TrimSpace s = rev (dropWhile is_space (rev (dropWhile is_space s)))"

fun prompt :: "string list \<Rightarrow> string \<times> string list" where
  "prompt [] = ([], [])"
| "prompt (l # ls) = (TrimSpace l, ls)"

text \<open>The loop the three \<^verbatim>\<open>ask\<close> functions share: an empty answer keeps the default, an answer that \<open>parse\<close> refuses is asked
  for again.\<close>

fun ask :: "(string \<Rightarrow> 'a option) \<Rightarrow> 'a \<Rightarrow> string list \<Rightarrow> 'a \<times> string list" where
  "ask parse def [] = (def, [])"
| "ask parse def (l # ls) =
     (let s = fst (prompt (l # ls)) in
      if s = [] then (def, ls)
      else case parse s of None \<Rightarrow> ask parse def ls | Some v \<Rightarrow> (v, ls))"

definition accept :: "('a \<Rightarrow> bool) \<Rightarrow> 'a option \<Rightarrow> 'a option" where
  "accept P r = (case r of None \<Rightarrow> None | Some v \<Rightarrow> if P v then Some v else None)"

definition askDuration :: "(string \<Rightarrow> duration option) \<Rightarrow> duration \<Rightarrow> string list \<Rightarrow> duration \<times> string list" where
  "askDuration ParseDuration def = ask (\<lambda>s. accept (\<lambda>d. \<not> d \<le> 0) (ParseDuration s)) def"

definition askInt :: "int \<Rightarrow> int \<Rightarrow> string list \<Rightarrow> int \<times> string list" where
  "askInt def lo = ask (\<lambda>s. accept (\<lambda>n. \<not> n < lo) (Atoi s)) def"

definition askFloat ::
  "(string \<Rightarrow> go_float option) \<Rightarrow> go_float \<Rightarrow> go_float \<Rightarrow> go_float \<Rightarrow> string list \<Rightarrow> go_float \<times> string list" where
  "askFloat ParseFloat def lo hi = ask (\<lambda>s. accept (\<lambda>f. \<not> (fless f lo \<or> fless hi f)) (ParseFloat s)) def"

definition askString :: "string \<Rightarrow> string list \<Rightarrow> string \<times> string list" where
  "askString def ls = (case prompt ls of (s, ls') \<Rightarrow> (if s \<noteq> [] then s else def, ls'))"

definition runWizard ::
  "(string \<Rightarrow> duration option) \<Rightarrow> (string \<Rightarrow> go_float option) \<Rightarrow> string list \<Rightarrow> config \<Rightarrow> config \<times> string list" where
  "runWizard ParseDuration ParseFloat ls cfg =
     (let (d, ls) = askDuration ParseDuration (c_dur cfg) ls;
          (p, ls) = askInt (producers cfg) 1 ls;
          (c, ls) = askInt (consumers cfg) 1 ls;
          (f, ls) = askFloat ParseFloat (failRate cfg) (Num 0) (Num 1) ls;
          (s, ls) = askFloat ParseFloat (crashShare cfg) (Num 0) (Num 1) ls;
          (m, ls) = askInt (c_maxRetries cfg) 0 ls;
          (l, ls) = askString (label cfg) ls
      in (cfg\<lparr>c_dur := d, producers := p, consumers := c, failRate := f, crashShare := s,
               c_maxRetries := m, label := l\<rparr>, ls))"

text \<open>The start of \<^verbatim>\<open>realMain\<close>: the flags, then the wizard when it applies.\<close>

definition configure ::
  "(string \<Rightarrow> duration option) \<Rightarrow> (string \<Rightarrow> go_float option) \<Rightarrow> (config \<Rightarrow> config) \<Rightarrow> string \<Rightarrow> nat \<Rightarrow> bool option \<Rightarrow>
   string list \<Rightarrow> fatal + config \<times> bool" where
  "configure ParseDuration ParseFloat assign tmp nflag tty ls =
     (case parseFlags assign tmp of
        Inl e \<Rightarrow> Inl e
      | Inr (cfg, cleanup) \<Rightarrow>
          Inr (if shouldRunWizard nflag tty then fst (runWizard ParseDuration ParseFloat ls cfg) else cfg, cleanup))"

subsection \<open>What is asked for is what is used\<close>

text \<open>The value the loop ends with: the first line that is empty or acceptable decides.\<close>

lemma ask_result:
  "fst (ask parse def ls) = def \<or> (\<exists>l \<in> set ls. parse (TrimSpace l) = Some (fst (ask parse def ls)))"
  by (induction parse def ls rule: ask.induct) (auto simp: Let_def split: option.splits)

lemma ask_consumes: "\<exists>used. ls = used @ snd (ask parse def ls)"
proof (induction parse def ls rule: ask.induct)
  case (2 parse def l ls)
  show ?case
  proof (cases "TrimSpace l = [] \<or> parse (TrimSpace l) \<noteq> None")
    case True
    then have "snd (ask parse def (l # ls)) = ls" by (auto simp: Let_def split: option.splits)
    then show ?thesis by (intro exI [of _ "[l]"]) simp
  next
    case False
    with 2 obtain used where "ls = used @ snd (ask parse def ls)" by (auto simp: Let_def)
    with False show ?thesis by (intro exI [of _ "l # used"]) (simp add: Let_def)
  qed
qed simp

lemma accept_Some [simp]: "accept P r = Some v \<longleftrightarrow> r = Some v \<and> P v"
  by (auto simp: accept_def split: option.splits)

text \<open>An accepted fraction is in range, or NaN.\<close>

definition fraction_ok :: "go_float \<Rightarrow> bool" where
  "fraction_ok f \<longleftrightarrow> f = NaN \<or> (\<exists>x. f = Num x \<and> 0 \<le> x \<and> x \<le> 1)"

lemma fraction_ok_iff: "fraction_ok f \<longleftrightarrow> \<not> (fless f (Num 0) \<or> fless (Num 1) f)"
  by (cases f) (auto simp: fraction_ok_def)

definition config_ok :: "config \<Rightarrow> bool" where
  "config_ok cfg \<longleftrightarrow> 1 \<le> producers cfg \<and> 1 \<le> consumers cfg \<and> fraction_ok (failRate cfg) \<and> fraction_ok (crashShare cfg)"

lemma askInt_ok: "lo \<le> def \<Longrightarrow> lo \<le> fst (askInt def lo ls)"
  using ask_result [of "\<lambda>s. accept (\<lambda>n. \<not> n < lo) (Atoi s)" def ls] by (auto simp: askInt_def)

lemma askFloat_ok: "fraction_ok def \<Longrightarrow> fraction_ok (fst (askFloat pf def (Num 0) (Num 1) ls))"
  using ask_result [of "\<lambda>s. accept (\<lambda>f. \<not> (fless f (Num 0) \<or> fless (Num 1) f)) (pf s)" def ls]
  by (auto simp: askFloat_def fraction_ok_iff)

lemma askDuration_ok: "0 < def \<Longrightarrow> 0 < fst (askDuration pd def ls)"
  using ask_result [of "\<lambda>s. accept (\<lambda>d. \<not> d \<le> 0) (pd s)" def ls] by (auto simp: askDuration_def)

lemma parseFlags_ok:
  assumes "parseFlags assign tmp = Inr (cfg, b)"
  shows "config_ok cfg" "b = (walPath (assign default_config) = [])"
    "cfg = (if b then (assign default_config)\<lparr>walPath := tmp\<rparr> else assign default_config)"
proof -
  let ?c = "assign default_config"
  have "\<not> (producers ?c < 1 \<or> consumers ?c < 1)" "fraction_ok (failRate ?c)" "fraction_ok (crashShare ?c)"
    and r: "(if walPath ?c = [] then (?c\<lparr>walPath := tmp\<rparr>, True) else (?c, False)) = (cfg, b)"
    using assms by (auto simp: parseFlags_def Let_def fraction_ok_iff split: if_splits)
  then have "config_ok ?c" by (simp add: config_ok_def)
  then show "config_ok cfg" "b = (walPath ?c = [])" "cfg = (if b then ?c\<lparr>walPath := tmp\<rparr> else ?c)"
    using r by (auto simp: config_ok_def split: if_splits)
qed

lemma runWizard_ok:
  assumes "config_ok cfg"
  shows "config_ok (fst (runWizard pd pf ls cfg))"
    "0 < c_dur cfg \<Longrightarrow> 0 < c_dur (fst (runWizard pd pf ls cfg))"
    "0 \<le> c_maxRetries cfg \<Longrightarrow> 0 \<le> c_maxRetries (fst (runWizard pd pf ls cfg))"
  using assms by (simp_all add: runWizard_def Let_def case_prod_unfold config_ok_def askInt_ok askFloat_ok askDuration_ok)

lemma runWizard_keeps:
  "walPath (fst (runWizard pd pf ls cfg)) = walPath cfg" "c_visibility (fst (runWizard pd pf ls cfg)) = c_visibility cfg"
  "c_sweep (fst (runWizard pd pf ls cfg)) = c_sweep cfg" "drainTO (fst (runWizard pd pf ls cfg)) = drainTO cfg"
  "out (fst (runWizard pd pf ls cfg)) = out cfg"
  by (simp_all add: runWizard_def Let_def case_prod_unfold)

text \<open>The default that is shown can be typed back.\<close>

lemma Itoa_chars: "c \<in> set (Itoa i) \<Longrightarrow> is_digit c \<or> c = CHR ''-''"
  using show_nat_digits by (auto simp: Itoa_def list_all_iff split: if_splits)

lemma TrimSpace_Itoa [simp]: "TrimSpace (Itoa i) = Itoa i"
proof -
  have "\<not> is_space c" if "c \<in> set (Itoa i)" for c
    using Itoa_chars [OF that] by (auto simp: is_space_def is_digit_def)
  then have "dropWhile is_space (Itoa i) = Itoa i" "dropWhile is_space (rev (Itoa i)) = rev (Itoa i)"
    by (metis dropWhile_eq_self_iff hd_in_set set_rev)+
  then show ?thesis by (simp add: TrimSpace_def)
qed

lemma Itoa_nonempty [simp]: "Itoa i \<noteq> []"
  using show_nat_digits by (simp add: Itoa_def)

lemma askInt_default: "- (2 ^ 63) \<le> def \<Longrightarrow> def < 2 ^ 63 \<Longrightarrow> lo \<le> def \<Longrightarrow> askInt def lo (Itoa def # ls) = (def, ls)"
  by (simp add: askInt_def Let_def Atoi_Itoa accept_def)

lemma configure_split:
  assumes "configure pd pf assign tmp nflag tty ls = Inr (cfg, cleanup)"
  obtains cfg0 where "parseFlags assign tmp = Inr (cfg0, cleanup)"
    "cfg = (if shouldRunWizard nflag tty then fst (runWizard pd pf ls cfg0) else cfg0)"
  using assms that by (auto simp: configure_def split: sum.splits)

lemma configure_ok: "configure pd pf assign tmp nflag tty ls = Inr (cfg, cleanup) \<Longrightarrow> config_ok cfg"
  by (elim configure_split) (simp add: parseFlags_ok(1) runWizard_ok(1))

text \<open>C33. Whatever flags and answers are given: a configuration that reaches the run has at least one producer and one consumer,
  and its two fractions are in the unit interval or NaN; the wizard changes none of the other knobs, and
  the log is removed at the end only when its path was made up for this run.\<close>

theorem configure_valid:
  assumes "configure pd pf assign tmp nflag tty ls = Inr (cfg, cleanup)"
  shows "config_ok cfg \<and> (cleanup \<longrightarrow> walPath cfg = tmp \<and> walPath (assign default_config) = []) \<and>
    (c_visibility cfg, c_sweep cfg, drainTO cfg, out cfg) =
      (c_visibility (assign default_config), c_sweep (assign default_config), drainTO (assign default_config), out (assign default_config))"
proof -
  from assms obtain cfg0 where p: "parseFlags assign tmp = Inr (cfg0, cleanup)"
    and cfg: "cfg = (if shouldRunWizard nflag tty then fst (runWizard pd pf ls cfg0) else cfg0)"
    by (rule configure_split)
  note p0 = parseFlags_ok [OF p]
  show ?thesis
  proof (cases "shouldRunWizard nflag tty")
    case True
    with cfg have "cfg = fst (runWizard pd pf ls cfg0)" by simp
    then show ?thesis using p0 by (simp add: runWizard_ok runWizard_keeps)
  qed (use cfg p0 in simp)
qed

theorem configure_valid_witness:
  "config_ok (fst (runWizard (\<lambda>s. None) (\<lambda>s. None) [''later'', [], ''0'', '' 12 '', []] (default_config\<lparr>walPath := ''x''\<rparr>)))"
  using configure_valid [of "\<lambda>s. None" "\<lambda>s. None" id "''x''" 0 "Some True" "[''later'', [], ''0'', '' 12 '', []]"
      "fst (runWizard (\<lambda>s. None) (\<lambda>s. None) [''later'', [], ''0'', '' 12 '', []] (default_config\<lparr>walPath := ''x''\<rparr>))" True]
  by (simp add: configure_def parseFlags_def Let_def shouldRunWizard_def default_config_def)

text \<open>NaN passes the range check of the flags and of the wizard, and then no delivery ever fails.\<close>

lemma nan_failrate_accepted:
  "parseFlags (\<lambda>c. c\<lparr>failRate := NaN, walPath := ''w''\<rparr>) tmp =
     Inr (default_config\<lparr>failRate := NaN, walPath := ''w''\<rparr>, False) \<and>
   fst (askFloat (\<lambda>s. if s = ''nan'' then Some NaN else None) (Num (1 / 2)) (Num 0) (Num 1) [''nan'']) = NaN \<and>
   \<not> fless roll NaN"
proof -
  have "TrimSpace ''nan'' = ''nan''" by (simp add: TrimSpace_def is_space_def)
  then show ?thesis by (cases roll) (simp_all add: parseFlags_def default_config_def askFloat_def accept_def Let_def)
qed

end
