(* ===== verification/Metrics.thy ===== *)
theory Metrics
  imports Backoff Complex_Main
begin

section \<open>Latency metrics (metrics.go)\<close>

text \<open>
  \<^verbatim>\<open>summarize\<close> and \<^verbatim>\<open>percentile\<close> of the load test, with their float64 arithmetic. A non-negative float64
  is a dyadic number, a numerator and a power of two: \<open>(m, k)\<close> stands for \<open>m / 2 ^ k\<close>. A product or a
  sum is formed exactly on the numerators and rounded by \<open>round53\<close> (theory Backoff); a quotient is cut
  after more than 53 bits with a last bit that tells whether anything was cut, and then rounded, which rounds the
  exact quotient. The range of float64 is never left: a sample count and a duration are below \<open>2 ^ 63\<close>.

  A probability constant such as 0.95 is the float64 nearest to it, \<open>m / 2 ^ 53\<close>, given by its
  numerator.
\<close>

type_synonym float64 = "nat \<times> nat"

definition fl_val :: "float64 \<Rightarrow> rat" where
  "fl_val x = of_nat (fst x) / 2 ^ snd x"

definition fl_of_nat :: "nat \<Rightarrow> float64" where
  "fl_of_nat n = (round53 n, 0)"

definition fl_mult :: "float64 \<Rightarrow> float64 \<Rightarrow> float64" where
  "fl_mult x y = (round53 (fst x * fst y), snd x + snd y)"

definition fl_add :: "float64 \<Rightarrow> float64 \<Rightarrow> float64" where
  "fl_add x y = (round53 (fst x * 2 ^ snd y + fst y * 2 ^ snd x), snd x + snd y)"

definition fl_ratio :: "nat \<Rightarrow> nat \<Rightarrow> float64" where
  "fl_ratio n d =
     (let s = bit_length d + 55; q = n * 2 ^ s div d; r = n * 2 ^ s mod d
      in (round53 (2 * q + (if r = 0 then 0 else 1)), s + 1))"

definition fl_div :: "float64 \<Rightarrow> float64 \<Rightarrow> float64" where
  "fl_div x y = fl_ratio (fst x * 2 ^ snd y) (fst y * 2 ^ snd x)"

definition fl_Ceil :: "float64 \<Rightarrow> nat" where
  "fl_Ceil x = (fst x + 2 ^ snd x - 1) div 2 ^ snd x"

text \<open>The constants 0.50, 0.95 and 0.99.\<close>

definition fl_hundredths :: "nat \<Rightarrow> float64" where
  "fl_hundredths a = (a * 2 ^ 53 div 100, 53)"

text \<open>\<^verbatim>\<open>time.Duration.Seconds\<close> of a positive duration: whole seconds plus the rest divided by 1e9.\<close>

definition Seconds :: "duration \<Rightarrow> float64" where
  "Seconds d = fl_add (fl_of_nat (nat (d div 10 ^ 9))) (fl_div (fl_of_nat (nat (d mod 10 ^ 9))) (10 ^ 9, 0))"

record opMetrics =
  m_count :: nat
  throughput :: float64
  p50 :: duration
  p95 :: duration
  p99 :: duration

record runMetrics =
  window :: duration
  m_enqueue :: opMetrics
  m_dequeue :: opMetrics
  m_ack :: opMetrics

definition percentile :: "duration list \<Rightarrow> float64 \<Rightarrow> duration" where
  "percentile sorted_ds p =
     (if length sorted_ds = 0 then 0
      else let rank = fl_Ceil (fl_mult p (fl_of_nat (length sorted_ds)));
               rank = (if rank < 1 then 1 else rank);
               rank = (if rank > length sorted_ds then length sorted_ds else rank)
           in sorted_ds ! (rank - 1))"

definition summarize :: "duration list list \<Rightarrow> duration \<Rightarrow> opMetrics" where
  "summarize perGoroutine win =
     (let samples = sort (concat perGoroutine)
      in \<lparr>m_count = length samples,
          throughput = (if win > 0 then fl_div (fl_of_nat (length samples)) (Seconds win) else (0, 0)),
          p50 = percentile samples (fl_hundredths 50),
          p95 = percentile samples (fl_hundredths 95),
          p99 = percentile samples (fl_hundredths 99)\<rparr>)"

subsection \<open>Rounding\<close>

text \<open>Rounding moves a number by at most one part in \<open>2 ^ 53\<close>, and not past a multiple of the spacing.\<close>

lemma two53: "(2::nat) ^ 53 = 9007199254740992" and two52: "(2::nat) ^ 52 = 4503599627370496"
  and two56: "(2::nat) ^ 56 = 72057594037927936"
  by simp_all

lemma round53_eq:
  assumes "53 < bit_length n"
  defines "s \<equiv> bit_length n - 53"
  shows "round53 n = n div 2 ^ s * 2 ^ s \<and> n mod 2 ^ s \<le> 2 ^ (s - 1) \<or>
    round53 n = (n div 2 ^ s + 1) * 2 ^ s \<and> 2 ^ (s - 1) \<le> n mod 2 ^ s"
  using assms(1) by (auto simp: round53_def Let_def s_def)

lemma round53_close: "2 ^ 53 * round53 n \<le> 2 ^ 53 * n + n \<and> 2 ^ 53 * n \<le> 2 ^ 53 * round53 n + n"
proof (cases "53 < bit_length n")
  case True
  define s where "s = bit_length n - 53"
  have n0: "0 < n" using True by (cases "n = 0") (simp_all add: bit_length.simps)
  have s: "2 ^ s = 2 * (2::nat) ^ (s - 1)" using True by (cases s) (simp_all add: s_def)
  have "bit_length n - 1 = 53 + (s - 1)" using True by (simp add: s_def)
  then have h: "2 ^ 53 * 2 ^ (s - 1) \<le> n" using bit_length_bounds [OF n0] by (metis power_add)
  have n: "n div 2 ^ s * 2 ^ s + n mod 2 ^ s = n" by (rule div_mult_mod_eq)
  have m: "n mod 2 ^ s < 2 ^ s" by simp
  have "round53 n \<le> n + 2 ^ (s - 1)" "n \<le> round53 n + 2 ^ (s - 1)"
    using round53_eq [OF True] n s m unfolding s_def [symmetric] add_mult_distrib mult_1 by linarith+
  with h show ?thesis unfolding two53 by (intro conjI) linarith+
next
  case False
  then have "round53 n = n" by (simp add: round53_def)
  then show ?thesis by simp
qed

lemma bit_length_less:
  assumes "n < 2 ^ b"
  shows "bit_length n \<le> b"
proof (cases "n = 0")
  case False
  then have "2 ^ (bit_length n - 1) < (2::nat) ^ b" using bit_length_bounds [of n] assms by linarith
  then have "bit_length n - 1 < b" by (simp add: power_less_imp_less_exp)
  then show ?thesis by simp
qed (simp add: bit_length.simps)

lemma round53_upper:
  assumes "n \<le> c * 2 ^ 53" "n < 2 ^ 106"
  shows "round53 n \<le> c * 2 ^ 53"
proof (cases "53 < bit_length n")
  case True
  define s where "s = bit_length n - 53"
  have "s \<le> 53" using bit_length_less [OF assms(2)] by (simp add: s_def)
  then have c: "c * 2 ^ 53 = c * 2 ^ (53 - s) * 2 ^ s" by (simp add: power_add [symmetric])
  have n: "n div 2 ^ s * 2 ^ s + n mod 2 ^ s = n" by (rule div_mult_mod_eq)
  from round53_eq [OF True] show ?thesis
  proof (elim disjE conjE)
    assume "round53 n = n div 2 ^ (bit_length n - 53) * 2 ^ (bit_length n - 53)"
    with n assms(1) show ?thesis by (simp add: s_def)
  next
    assume r: "round53 n = (n div 2 ^ (bit_length n - 53) + 1) * 2 ^ (bit_length n - 53)"
      "2 ^ (bit_length n - 53 - 1) \<le> n mod 2 ^ (bit_length n - 53)"
    then have "0 < n mod 2 ^ s" unfolding s_def by (metis less_le_trans zero_less_power zero_less_numeral)
    then have "n div 2 ^ s * 2 ^ s < c * 2 ^ (53 - s) * 2 ^ s" using n assms(1) c by linarith
    then have "n div 2 ^ s + 1 \<le> c * 2 ^ (53 - s)" by simp
    then have "(n div 2 ^ s + 1) * 2 ^ s \<le> c * 2 ^ (53 - s) * 2 ^ s" by (rule mult_le_mono1)
    with r(1) show ?thesis unfolding s_def [symmetric] c by simp
  qed
qed (use assms(1) in \<open>simp add: round53_def\<close>)

subsection \<open>The rank\<close>

text \<open>The three constants are the float64 nearest to a hundredth.\<close>

lemma hundredths_nearest:
  "a \<in> {50, 95, 99} \<Longrightarrow> 2 * (100 * fst (fl_hundredths a)) \<le> 2 * (a * 2 ^ 53) \<and> 2 * (a * 2 ^ 53) < 2 * (100 * fst (fl_hundredths a)) + 100"
  by (auto simp: fl_hundredths_def)

definition ceil_div :: "nat \<Rightarrow> nat \<Rightarrow> nat" where
  "ceil_div n d = (n + d - 1) div d"

lemma ceil_div_bounds: "0 < d \<Longrightarrow> n \<le> ceil_div n d * d \<and> (0 < n \<longrightarrow> ceil_div n d * d < n + d)"
proof -
  assume d: "0 < d"
  have m: "(n + d - 1) div d * d + (n + d - 1) mod d = n + d - 1" by (rule div_mult_mod_eq)
  have "(n + d - 1) mod d < d" using d by simp
  with m d show ?thesis unfolding ceil_div_def by linarith
qed

lemma ceil_div_eqI: "0 < d \<Longrightarrow> (c - 1) * d < n \<Longrightarrow> n \<le> c * d \<Longrightarrow> 0 < c \<Longrightarrow> ceil_div n d = c"
proof -
  assume a: "0 < d" "(c - 1) * d < n" "n \<le> c * d" "0 < c"
  obtain k where c: "c = Suc k" using a(4) by (cases c) auto
  have "c * d \<le> n + d - 1" "n + d - 1 < Suc c * d" using a(1,2,3) by (simp_all add: c)
  then show ?thesis unfolding ceil_div_def by (simp add: div_nat_eqI mult.commute)
qed

text \<open>Up to \<open>2 ^ 45\<close> samples the rank computed in floating point is the exact nearest rank.\<close>

lemma float_rank:
  assumes "0 < n" "n \<le> 2 ^ 45" "0 < a" "a \<le> 100"
  shows "fl_Ceil (fl_mult (fl_hundredths a) (fl_of_nat n)) = ceil_div (a * n) 100"
proof -
  define m where "m = a * 2 ^ 53 div 100"
  define c where "c = ceil_div (a * n) 100"
  have an: "0 < a * n" using assms by simp
  have c: "a * n \<le> c * 100" "c * 100 < a * n + 100" using ceil_div_bounds [of 100 "a * n"] an by (simp_all add: c_def)
  have c0: "0 < c" using c(1) an by (cases c) simp_all
  have m: "100 * m \<le> a * 2 ^ 53" "a * 2 ^ 53 < 100 * m + 100" unfolding m_def two53 by linarith+
  have "100 * (m * n) \<le> a * 2 ^ 53 * n" "a * 2 ^ 53 * n \<le> 100 * (m * n) + 100 * n"
    using mult_le_mono1 [OF m(1), of n] mult_le_mono1 [OF less_imp_le [OF m(2)], of n] by (simp_all add: algebra_simps)
  then have N: "100 * (m * n) \<le> 2 ^ 53 * (a * n)" "2 ^ 53 * (a * n) \<le> 100 * (m * n) + 100 * n" by (simp_all add: algebra_simps)
  have up: "m * n \<le> c * 2 ^ 53" using N(1) c(1) unfolding two53 by linarith
  have ml: "m \<le> 2 ^ 53" using m(1) assms(4) unfolding two53 by linarith
  have "m * n \<le> 2 ^ 53 * 2 ^ 45" using mult_le_mono [OF ml assms(2)] .
  then have R: "round53 (m * n) \<le> c * 2 ^ 53" using round53_upper [OF up] by simp
  have "m * n \<le> 2 ^ 53 * n" using mult_le_mono1 [OF ml, of n] .
  with round53_close [of "m * n"] have "m * n \<le> round53 (m * n) + n" unfolding two53 by linarith
  with N(2) c(2) assms(2) have "c * 2 ^ 53 < round53 (m * n) + 2 ^ 53" by simp
  then have low: "(c - 1) * 2 ^ 53 < round53 (m * n)" using c0 by (cases c) simp_all
  have "n < 2 ^ 53" using assms(2) by simp
  then have "fl_mult (fl_hundredths a) (fl_of_nat n) = (round53 (m * n), 53)"
    by (simp add: fl_mult_def fl_hundredths_def fl_of_nat_def m_def round53_small)
  then show ?thesis using ceil_div_eqI [OF _ low R c0] by (simp add: fl_Ceil_def ceil_div_def c_def)
qed

subsection \<open>Percentiles\<close>

text \<open>\<open>v\<close> is the \<open>a\<close>-th percentile of the samples: at least \<open>a\<close> percent of them are at most \<open>v\<close>, and less than \<open>a\<close>
  percent are below \<open>v\<close>.\<close>

definition is_percentile :: "nat \<Rightarrow> duration list \<Rightarrow> duration \<Rightarrow> bool" where
  "is_percentile a xs v \<longleftrightarrow> v \<in> set xs \<and>
     a * length xs \<le> 100 * length (filter (\<lambda>x. x \<le> v) xs) \<and>
     100 * length (filter (\<lambda>x. x < v) xs) < a * length xs"

lemma sorted_nth_count:
  assumes "sorted xs" "k < length xs"
  shows "k < length (filter (\<lambda>x. x \<le> xs ! k) xs)" "length (filter (\<lambda>x. x < xs ! k) xs) \<le> k"
proof -
  have le: "x \<le> xs ! k" if "x \<in> set (take (Suc k) xs)" for x
    using that assms by (auto simp: in_set_conv_nth intro!: sorted_nth_mono)
  have ge: "xs ! k \<le> x" if "x \<in> set (drop k xs)" for x
    using that assms by (auto simp: in_set_conv_nth intro!: sorted_nth_mono)
  have "filter (\<lambda>x. x \<le> xs ! k) (take (Suc k) xs) = take (Suc k) xs" using le by (simp add: filter_id_conv)
  then have "filter (\<lambda>x. x \<le> xs ! k) xs = take (Suc k) xs @ filter (\<lambda>x. x \<le> xs ! k) (drop (Suc k) xs)"
    by (metis append_take_drop_id filter_append)
  then have "length (filter (\<lambda>x. x \<le> xs ! k) xs) \<ge> length (take (Suc k) xs)" by (metis length_append le_add1)
  then show "k < length (filter (\<lambda>x. x \<le> xs ! k) xs)" using assms(2) by simp
  have "filter (\<lambda>x. x < xs ! k) (drop k xs) = []" using ge by (simp add: filter_empty_conv linorder_not_less)
  then have "filter (\<lambda>x. x < xs ! k) xs = filter (\<lambda>x. x < xs ! k) (take k xs)"
    by (metis append_Nil2 append_take_drop_id filter_append)
  then have "length (filter (\<lambda>x. x < xs ! k) xs) \<le> length (take k xs)" by (metis length_filter_le)
  then show "length (filter (\<lambda>x. x < xs ! k) xs) \<le> k" by simp
qed

lemma rank_bounds:
  assumes "0 < n" "0 < a" "a \<le> 100"
  shows "0 < ceil_div (a * n) 100" "ceil_div (a * n) 100 \<le> n"
proof -
  have p: "0 < a * n" "a * n \<le> 100 * n" using assms by simp_all
  show "0 < ceil_div (a * n) 100" using ceil_div_bounds [of 100 "a * n"] p(1) by (cases "ceil_div (a * n) 100") simp_all
  show "ceil_div (a * n) 100 \<le> n" using ceil_div_bounds [of 100 "a * n"] p by linarith
qed

lemma percentile_nth:
  assumes "xs \<noteq> []" "length xs \<le> 2 ^ 45" "0 < a" "a \<le> 100"
  shows "percentile xs (fl_hundredths a) = xs ! (ceil_div (a * length xs) 100 - 1)"
  using assms rank_bounds [of "length xs" a] float_rank [of "length xs" a] by (simp add: percentile_def)

lemma percentile_correct:
  assumes "sorted xs" "xs \<noteq> []" "length xs \<le> 2 ^ 45" "0 < a" "a \<le> 100"
  shows "is_percentile a xs (percentile xs (fl_hundredths a))"
proof -
  let ?c = "ceil_div (a * length xs) 100"
  have c: "0 < ?c" "?c \<le> length xs" using rank_bounds [of "length xs" a] assms by simp_all
  then have k: "?c - 1 < length xs" by linarith
  have b: "a * length xs \<le> ?c * 100" "?c * 100 < a * length xs + 100"
    using ceil_div_bounds [of 100 "a * length xs"] assms by simp_all
  show ?thesis
    unfolding is_percentile_def percentile_nth [OF assms(2-)]
    using sorted_nth_count [OF assms(1) k] b c k by (intro conjI nth_mem) linarith+
qed

lemma percentile_mono:
  assumes "sorted xs" "xs \<noteq> []" "length xs \<le> 2 ^ 45" "0 < a" "a \<le> b" "b \<le> 100"
  shows "percentile xs (fl_hundredths a) \<le> percentile xs (fl_hundredths b)"
proof -
  have "ceil_div (a * length xs) 100 \<le> ceil_div (b * length xs) 100"
    unfolding ceil_div_def using assms(5) by (intro div_le_mono diff_le_mono add_le_mono1 mult_le_mono1)
  moreover have "0 < ceil_div (b * length xs) 100" "ceil_div (b * length xs) 100 \<le> length xs"
    using rank_bounds [of "length xs" b] assms by simp_all
  ultimately show ?thesis using assms percentile_nth [of xs] by (auto intro!: sorted_nth_mono)
qed

lemma is_percentile_sort: "is_percentile a (sort xs) v \<longleftrightarrow> is_percentile a xs v"
  by (simp add: is_percentile_def filter_sort length_sort)

text \<open>C31. Up to \<open>2 ^ 45\<close> samples, the three latencies \<^verbatim>\<open>summarize\<close> reports are exact nearest-rank percentiles of all the samples,
  in spite of the floating-point rank; they are ordered, and the count is the number of samples.\<close>

theorem summarize_percentiles:
  assumes "concat lat \<noteq> []" "length (concat lat) \<le> 2 ^ 45"
  shows "is_percentile 50 (concat lat) (p50 (summarize lat win)) \<and>
    is_percentile 95 (concat lat) (p95 (summarize lat win)) \<and>
    is_percentile 99 (concat lat) (p99 (summarize lat win)) \<and>
    p50 (summarize lat win) \<le> p95 (summarize lat win) \<and> p95 (summarize lat win) \<le> p99 (summarize lat win) \<and>
    m_count (summarize lat win) = length (concat lat)"
proof -
  let ?xs = "sort (concat lat)"
  have xs: "sorted ?xs" "?xs \<noteq> []" "length ?xs \<le> 2 ^ 45"
    using assms by (simp_all only: sorted_sort length_sort) (metis length_0_conv length_sort)
  have "p50 (summarize lat win) = percentile ?xs (fl_hundredths 50)"
    "p95 (summarize lat win) = percentile ?xs (fl_hundredths 95)"
    "p99 (summarize lat win) = percentile ?xs (fl_hundredths 99)" "m_count (summarize lat win) = length (concat lat)"
    by (simp_all add: summarize_def Let_def)
  with percentile_correct [OF xs] percentile_mono [OF xs] show ?thesis
    by (simp add: is_percentile_sort)
qed

theorem summarize_percentiles_witness:
  "is_percentile 95 [30, 10, 20] (p95 (summarize [[30, 10], [20]] 5))"
  using summarize_percentiles [of "[[30, 10], [20]]" 5] by simp

subsection \<open>Throughput\<close>

text \<open>\<open>near e x y\<close>: \<open>x\<close> approximates \<open>y\<close> with relative error \<open>e\<close>.\<close>

definition near :: "rat \<Rightarrow> rat \<Rightarrow> rat \<Rightarrow> bool" where
  "near e x y \<longleftrightarrow> 0 \<le> y \<and> (1 - e) * y \<le> x \<and> x \<le> (1 + e) * y"

lemma near_scale: "near e x y \<Longrightarrow> 0 \<le> c \<Longrightarrow> near e (x * c) (y * c)"
  unfolding near_def by (metis mult.assoc mult_nonneg_nonneg mult_right_mono)

lemma near_add: "near e x y \<Longrightarrow> near e x' y' \<Longrightarrow> near e (x + x') (y + y')"
  by (auto simp: near_def distrib_left)

lemma near_weaken: "near e x y \<Longrightarrow> e \<le> f \<Longrightarrow> near f x y"
proof -
  assume a: "near e x y" "e \<le> f"
  then have "(1 - f) * y \<le> (1 - e) * y" "(1 + e) * y \<le> (1 + f) * y" by (auto simp: near_def intro!: mult_right_mono)
  with a(1) show ?thesis by (auto simp: near_def)
qed

lemma near_trans:
  assumes "near e x y" "near f y z" "0 \<le> e" "e \<le> 1"
  shows "near (e + f + e * f) x z"
proof -
  from assms have "(1 - e) * ((1 - f) * z) \<le> (1 - e) * y" "(1 + e) * y \<le> (1 + e) * ((1 + f) * z)"
    by (auto simp: near_def intro!: mult_left_mono)
  moreover have "(1 - (e + f + e * f)) * z \<le> (1 - e) * ((1 - f) * z)"
  proof -
    have "(1 - e) * ((1 - f) * z) - (1 - (e + f + e * f)) * z = 2 * (e * (f * z))" by (simp add: algebra_simps)
    moreover have "0 \<le> f * z" using assms(2) by (auto simp: near_def algebra_simps)
    then have "0 \<le> 2 * (e * (f * z))" using assms(3) by simp
    ultimately show ?thesis by linarith
  qed
  moreover have "(1 + e) * ((1 + f) * z) = (1 + (e + f + e * f)) * z" by (simp add: algebra_simps)
  ultimately show ?thesis using assms by (auto simp: near_def)
qed

lemma round53_near_rat: "near (1 / 2 ^ 53) (of_nat (round53 n)) (of_nat n)"
proof -
  have "of_nat (2 ^ 53 * round53 n) \<le> (of_nat (2 ^ 53 * n + n) :: rat)" "of_nat (2 ^ 53 * n) \<le> (of_nat (2 ^ 53 * round53 n + n) :: rat)"
    using round53_close [of n] by (simp_all only: of_nat_le_iff)
  then show ?thesis by (simp add: near_def field_simps)
qed

lemma fl_of_nat_near: "near (1 / 2 ^ 53) (fl_val (fl_of_nat n)) (of_nat n)"
  using round53_near_rat by (simp add: fl_val_def fl_of_nat_def)

lemma fl_add_near: "near (1 / 2 ^ 53) (fl_val (fl_add x y)) (fl_val x + fl_val y)"
proof -
  have "fl_val x + fl_val y = of_nat (fst x * 2 ^ snd y + fst y * 2 ^ snd x) * (1 / 2 ^ (snd x + snd y))"
    by (simp add: fl_val_def field_simps power_add)
  then show ?thesis using near_scale [OF round53_near_rat [of "fst x * 2 ^ snd y + fst y * 2 ^ snd x"], of "1 / 2 ^ (snd x + snd y)"]
    by (simp add: fl_val_def fl_add_def)
qed

lemma fl_ratio_near:
  assumes "0 < d"
  shows "near (1 / 2 ^ 52) (fl_val (fl_ratio n d)) (of_nat n / of_nat d)"
proof (cases "n = 0")
  case True
  then show ?thesis by (simp add: near_def fl_ratio_def fl_val_def Let_def round53_small)
next
  case False
  define s where "s = bit_length d + 55"
  define q where "q = n * 2 ^ s div d"
  define r where "r = n * 2 ^ s mod d"
  define V where "V = 2 * q + (if r = 0 then 0 else 1)"
  define T where "T = n * 2 ^ (s + 1)"
  have qr: "d * q + r = n * 2 ^ s" by (simp add: q_def r_def)
  have "r < d" using assms by (simp add: r_def)
  with qr have V: "d * V \<le> T + d" "T \<le> d * V + d" by (auto simp: V_def T_def algebra_simps)
  have "d < 2 ^ bit_length d" using bit_length_bounds [OF assms] by blast
  then have "d * 2 ^ 56 \<le> 2 ^ bit_length d * 2 ^ 56" by (intro mult_le_mono1) simp
  also have "\<dots> = 2 ^ (s + 1)" by (simp add: s_def power_add)
  also have "\<dots> \<le> T" using False by (simp add: T_def)
  finally have dT: "d * 2 ^ 56 \<le> T" .
  have R: "2 ^ 53 * (d * round53 V) \<le> 2 ^ 53 * (d * V) + d * V" "2 ^ 53 * (d * V) \<le> 2 ^ 53 * (d * round53 V) + d * V"
    using round53_close [of V] mult_le_mono2 [of "2 ^ 53 * round53 V" "2 ^ 53 * V + V" d] mult_le_mono2 [of "2 ^ 53 * V" "2 ^ 53 * round53 V + V" d]
    by (simp_all only: distrib_left mult.left_commute)
  have "2 ^ 52 * (d * round53 V) \<le> 2 ^ 52 * T + T" "2 ^ 52 * T \<le> 2 ^ 52 * (d * round53 V) + T"
    using R V dT unfolding two52 two53 two56 by linarith+
  then have "of_nat (2 ^ 52 * (d * round53 V)) \<le> (of_nat (2 ^ 52 * T + T) :: rat)"
    "of_nat (2 ^ 52 * T) \<le> (of_nat (2 ^ 52 * (d * round53 V) + T) :: rat)" by (simp_all only: of_nat_le_iff)
  then have "near (1 / 2 ^ 52) (of_nat (d * round53 V)) (of_nat T)" by (simp add: near_def field_simps)
  from near_scale [OF this, of "1 / (of_nat d * 2 ^ (s + 1))"]
  have "near (1 / 2 ^ 52) (of_nat (round53 V) / 2 ^ (s + 1)) (of_nat n / of_nat d)"
    using assms by (simp add: T_def field_simps)
  moreover have "fl_ratio n d = (round53 V, s + 1)" by (simp add: fl_ratio_def Let_def V_def q_def r_def s_def)
  ultimately show ?thesis by (simp add: fl_val_def)
qed

lemma fl_div_near:
  assumes "0 < fst y"
  shows "near (1 / 2 ^ 52) (fl_val (fl_div x y)) (fl_val x / fl_val y)"
  using fl_ratio_near [of "fst y * 2 ^ snd x" "fst x * 2 ^ snd y"] assms
  by (simp add: fl_div_def fl_val_def field_simps)

lemma Seconds_near:
  assumes "0 < d"
  shows "near (1 / 2 ^ 51) (fl_val (Seconds d)) (of_int d / 10 ^ 9)"
proof -
  let ?s = "nat (d div 10 ^ 9)" and ?n = "nat (d mod 10 ^ 9)"
  have n: "fl_of_nat ?n = (?n, 0)"
  proof -
    have "d mod 10 ^ 9 < 10 ^ 9" by simp
    then have "?n < 2 ^ 53" by simp
    then show ?thesis by (simp add: fl_of_nat_def round53_small)
  qed
  have "near (1 / 2 ^ 52) (fl_val (fl_of_nat ?s)) (of_nat ?s)" using near_weaken [OF fl_of_nat_near] by simp
  moreover have "near (1 / 2 ^ 52) (fl_val (fl_div (fl_of_nat ?n) (10 ^ 9, 0))) (of_nat ?n / 10 ^ 9)"
  proof -
    have "fl_val (fl_of_nat ?n) = of_nat ?n" "fl_val (10 ^ 9, 0) = 10 ^ 9" unfolding n by (simp_all add: fl_val_def)
    with fl_div_near [of "(10 ^ 9, 0)" "fl_of_nat ?n"] show ?thesis by simp
  qed
  ultimately have sum: "near (1 / 2 ^ 52) (fl_val (fl_of_nat ?s) + fl_val (fl_div (fl_of_nat ?n) (10 ^ 9, 0))) (of_nat ?s + of_nat ?n / 10 ^ 9)"
    by (rule near_add)
  have W: "of_nat ?s + of_nat ?n / 10 ^ 9 = (of_int d / 10 ^ 9 :: rat)"
  proof -
    have "(of_int d :: rat) = of_int (d div 10 ^ 9 * 10 ^ 9 + d mod 10 ^ 9)" by (simp only: div_mult_mod_eq)
    then have "(of_int d :: rat) = of_int (d div 10 ^ 9) * 10 ^ 9 + of_int (d mod 10 ^ 9)"
      by (simp only: of_int_add of_int_mult of_int_power of_int_numeral)
    moreover have "0 \<le> d div 10 ^ 9" using assms by (simp add: pos_imp_zdiv_nonneg_iff)
    ultimately show ?thesis by (simp add: field_simps)
  qed
  have "near (1 / 2 ^ 53 + 1 / 2 ^ 52 + 1 / 2 ^ 53 * (1 / 2 ^ 52)) (fl_val (Seconds d)) (of_int d / 10 ^ 9)"
    unfolding Seconds_def by (rule near_trans [OF fl_add_near sum [unfolded W]]) simp_all
  then show ?thesis by (rule near_weaken) simp
qed

lemma near_quotient:
  assumes "near d x y" "0 < y" "0 \<le> d" "d \<le> 1 / 2"
  shows "0 < x" "near (2 * d) (y / x) 1"
proof -
  have x: "(1 - d) * y \<le> x" "x \<le> (1 + d) * y" using assms(1) by (auto simp: near_def)
  have "0 < (1 - d) * y" using assms by (intro mult_pos_pos) auto
  with x(1) show x0: "0 < x" by linarith
  have dd: "d * d \<le> d * (1 / 2)" using assms(3,4) by (intro mult_left_mono)
  have "1 * y \<le> ((1 + 2 * d) * (1 - d)) * y" using dd assms(2) by (intro mult_right_mono) (auto simp: algebra_simps)
  also have "\<dots> \<le> (1 + 2 * d) * x" using x(1) assms(3) by (simp add: mult.assoc mult_left_mono)
  finally have up: "y \<le> (1 + 2 * d) * x" by simp
  have "(1 - 2 * d) * x \<le> ((1 - 2 * d) * (1 + d)) * y" using x(2) assms(4) by (simp add: mult.assoc mult_left_mono)
  also have "\<dots> \<le> 1 * y" using dd assms(2,3) by (intro mult_right_mono) (auto simp: algebra_simps)
  finally have "(1 - 2 * d) * x \<le> y" by simp
  with up x0 show "near (2 * d) (y / x) 1" by (simp add: near_def le_divide_eq divide_le_eq)
qed

text \<open>C32. The reported throughput is, to within one part in \<open>2 ^ 48\<close>, the number of samples per second of the window, for
  every positive window.\<close>

theorem summarize_throughput:
  assumes "0 < win"
  shows "near (1 / 2 ^ 48) (fl_val (throughput (summarize lat win)) * (of_int win / 10 ^ 9)) (of_nat (length (concat lat)))"
proof -
  define C where "C = fl_val (fl_of_nat (length (concat lat)))"
  define S where "S = fl_val (Seconds win)"
  define W where "W = (of_int win / 10 ^ 9 :: rat)"
  have W: "0 < W" using assms by (simp add: W_def)
  note q = near_quotient [OF Seconds_near [OF assms], folded S_def W_def, OF W]
  have "0 < fst (Seconds win)" using q(1) by (simp add: S_def fl_val_def zero_less_divide_iff)
  then have "near (1 / 2 ^ 52) (fl_val (throughput (summarize lat win)) * W) (C / S * W)"
    using near_scale [OF fl_div_near, of "Seconds win" W "fl_of_nat (length (concat lat))"] assms W
    by (simp add: summarize_def Let_def C_def S_def)
  moreover have "near (1 / 2 ^ 50) (C / S * W) C"
  proof -
    have "0 \<le> C" by (simp add: C_def fl_val_def)
    with near_scale [OF q(2), of C] show ?thesis by (simp add: mult.commute)
  qed
  ultimately have "near (1 / 2 ^ 49) (fl_val (throughput (summarize lat win)) * W) C"
    using near_weaken [OF near_trans] by simp
  moreover have "near (1 / 2 ^ 53) C (of_nat (length (concat lat)))" unfolding C_def by (rule fl_of_nat_near)
  ultimately show ?thesis unfolding W_def using near_weaken [OF near_trans] by simp
qed

theorem summarize_throughput_witness:
  "near (1 / 2 ^ 48) (fl_val (throughput (summarize [[30, 10], [20]] 1500000000)) * (1500000000 / 10 ^ 9)) 3"
  using summarize_throughput [of 1500000000 "[[30, 10], [20]]"] by simp

end
