(* ===== verification/Workload.thy ===== *)
theory Workload
  imports System Config Metrics
begin

section \<open>The load test (workload.go, store.go)\<close>

text \<open>
  Producers, consumers, the sweeper and the main goroutine of a run, as one step relation over the queue, the effect store and the
  counters. Every call of the queue that holds the mutex is one step; \<^verbatim>\<open>Enqueue\<close> is three, since it releases
  the mutex while it appends. Updates of a counter that only the goroutine that joins reads are part of the step
  before. What the run-time decides is chosen by the step: clock readings, random draws, disk
  outcomes, latencies, new ids, and when the window ends or the drain times out.
\<close>

subsection \<open>The effect store\<close>

record effectStore =
  applied :: "string \<rightharpoonup> nat"
  total :: nat

definition newEffectStore :: effectStore where
  "newEffectStore = \<lparr>applied = Map.empty, total = 0\<rparr>"

definition apply_effect :: "string \<Rightarrow> effectStore \<Rightarrow> effectStore" where
  "apply_effect key st = st\<lparr>applied := (applied st)(key \<mapsto> (case applied st key of None \<Rightarrow> 0 | Some n \<Rightarrow> n) + 1),
                       total := total st + 1\<rparr>"

definition distinct_effects :: "effectStore \<Rightarrow> nat" where
  "distinct_effects st = card (dom (applied st))"

definition deliveries :: "effectStore \<Rightarrow> nat" where
  "deliveries st = total st"

subsection \<open>The goroutines\<close>

record runStats =
  st_produced :: nat
  st_delivered :: nat
  st_acked :: nat
  st_retried :: nat
  st_crashed :: nat

definition zero_stats :: runStats where
  "zero_stats = \<lparr>st_produced = 0, st_delivered = 0, st_acked = 0, st_retried = 0, st_crashed = 0\<rparr>"

text \<open>A producer is at the head of its loop, about to append the record of a task, about to publish it, or has
  returned; the number is \<^verbatim>\<open>seq\<close>. A consumer is at the head of its loop, holds a delivered task, has applied its effect
  and is about to acknowledge it, or has returned.\<close>

datatype producer_pc = PLoop nat | PAppend nat Task | PPublish nat Task | PReturned nat

datatype consumer_pc = CLoop | CTask ptr | CAcking ptr | CReturned

text \<open>The main goroutine: the load window, \<^verbatim>\<open>wg.Wait\<close>, and the places of \<^verbatim>\<open>drain\<close>, with \<^verbatim>\<open>drainedAny\<close> where it is in scope.\<close>

datatype main_pc = MWindow | MJoin | MDrain | MInner bool | MAcking ptr bool | MList bool
  | MRequeue "uuid list" bool | MDone

record load =
  ld_q :: Queue
  ld_store :: effectStore
  ld_stats :: runStats
  ld_prod :: "nat \<Rightarrow> producer_pc"
  ld_cons :: "nat \<Rightarrow> consumer_pc"
  ld_stop :: bool
  ld_main :: main_pc
  ld_encLat :: "nat \<Rightarrow> duration list"
  ld_deqLat :: "nat \<Rightarrow> duration list"
  ld_ackLat :: "nat \<Rightarrow> duration list"

definition load_init :: "Queue \<Rightarrow> load" where
  "load_init q = \<lparr>ld_q = q, ld_store = newEffectStore, ld_stats = zero_stats, ld_prod = (\<lambda>_. PLoop 0),
     ld_cons = (\<lambda>_. CLoop), ld_stop = False, ld_main = MWindow,
     ld_encLat = (\<lambda>_. []), ld_deqLat = (\<lambda>_. []), ld_ackLat = (\<lambda>_. [])\<rparr>"

text \<open>\<^verbatim>\<open>fmt.Sprintf("p%d-%d", id, seq)\<close>\<close>

definition task_key :: "nat \<Rightarrow> nat \<Rightarrow> string" where
  "task_key i n = ''p'' @ show_nat i @ CHR ''-'' # show_nat n"

fun in_progress :: "producer_pc \<Rightarrow> Task option" where
  "in_progress (PAppend n t) = Some t"
| "in_progress (PPublish n t) = Some t"
| "in_progress _ = None"

text \<open>\<^verbatim>\<open>uuid.New\<close> returns an id that no task has, in the queue or on its way.\<close>

definition new_id :: "uuid \<Rightarrow> load \<Rightarrow> bool" where
  "new_id u s \<longleftrightarrow> fresh u (ld_q s) \<and> (\<forall>i t. in_progress (ld_prod s i) = Some t \<longrightarrow> ID t \<noteq> u)"

definition count_produced :: "nat \<Rightarrow> nat \<Rightarrow> duration \<Rightarrow> load \<Rightarrow> load" where
  "count_produced i n d s = s\<lparr>ld_prod := (ld_prod s)(i := PLoop (Suc n)),
     ld_stats := (ld_stats s)\<lparr>st_produced := st_produced (ld_stats s) + 1\<rparr>,
     ld_encLat := (ld_encLat s)(i := ld_encLat s i @ [d])\<rparr>"

inductive producer_step :: "config \<Rightarrow> nat \<Rightarrow> load \<Rightarrow> load \<Rightarrow> bool" for cfg i where
  p_stop: "ld_prod s i = PLoop n \<Longrightarrow> ld_stop s \<Longrightarrow> producer_step cfg i s (s\<lparr>ld_prod := (ld_prod s)(i := PReturned n)\<rparr>)"
| p_duplicate: "ld_prod s i = PLoop n \<Longrightarrow> \<not> ld_stop s \<Longrightarrow> dedup (task_key i n) (ld_q s) = Some u \<Longrightarrow>
     producer_step cfg i s (count_produced i n d s)"
| p_build: "ld_prod s i = PLoop n \<Longrightarrow> \<not> ld_stop s \<Longrightarrow> dedup (task_key i n) (ld_q s) = None \<Longrightarrow> new_id u s \<Longrightarrow>
     producer_step cfg i s (s\<lparr>ld_prod := (ld_prod s)(i := PAppend n (new_task u now [120] (task_key i n)))\<rparr>)"
| p_append: "ld_prod s i = PAppend n t \<Longrightarrow> enqueue_record t = Inr rec \<Longrightarrow> Append rec io0 (wal (ld_q s)) = (e, w) \<Longrightarrow>
     producer_step cfg i s (s\<lparr>ld_q := (ld_q s)\<lparr>wal := w\<rparr>,
       ld_prod := (ld_prod s)(i := (case e of None \<Rightarrow> PPublish n t | Some _ \<Rightarrow> PReturned n))\<rparr>)"
| p_publish: "ld_prod s i = PPublish n t \<Longrightarrow> enqueue_publish t (ld_q s) = (u, q') \<Longrightarrow>
     producer_step cfg i s (count_produced i n d (s\<lparr>ld_q := q'\<rparr>))"

text \<open>A draw of \<^verbatim>\<open>rand.Float64\<close> below a rate.\<close>

definition below :: "nat \<Rightarrow> go_float \<Rightarrow> bool" where
  "below k rate = fless (Num (of_nat k / 2 ^ 53)) rate"

definition apply_task :: "ptr \<Rightarrow> load \<Rightarrow> load" where
  "apply_task p s = s\<lparr>ld_store := apply_effect (IdempotencyKey (q_tasks (ld_q s) p)) (ld_store s)\<rparr>"

inductive consumer_step :: "config \<Rightarrow> nat \<Rightarrow> load \<Rightarrow> load \<Rightarrow> bool" for cfg i where
  c_stop: "ld_cons s i = CLoop \<Longrightarrow> ld_stop s \<Longrightarrow> consumer_step cfg i s (s\<lparr>ld_cons := (ld_cons s)(i := CReturned)\<rparr>)"
| c_empty: "ld_cons s i = CLoop \<Longrightarrow> \<not> ld_stop s \<Longrightarrow> Dequeue now (ld_q s) = (None, q') \<Longrightarrow>
     consumer_step cfg i s (s\<lparr>ld_q := q'\<rparr>)"
| c_take: "ld_cons s i = CLoop \<Longrightarrow> \<not> ld_stop s \<Longrightarrow> Dequeue now (ld_q s) = (Some p, q') \<Longrightarrow>
     consumer_step cfg i s (s\<lparr>ld_q := q', ld_cons := (ld_cons s)(i := CTask p),
       ld_stats := (ld_stats s)\<lparr>st_delivered := st_delivered (ld_stats s) + 1\<rparr>,
       ld_deqLat := (ld_deqLat s)(i := ld_deqLat s i @ [d])\<rparr>)"
| c_crash: "ld_cons s i = CTask p \<Longrightarrow> below k (failRate cfg) \<Longrightarrow> below k' (crashShare cfg) \<Longrightarrow>
     consumer_step cfg i s ((apply_task p s)\<lparr>ld_cons := (ld_cons s)(i := CLoop),
       ld_stats := (ld_stats s)\<lparr>st_crashed := st_crashed (ld_stats s) + 1\<rparr>\<rparr>)"
| c_retry: "ld_cons s i = CTask p \<Longrightarrow> below k (failRate cfg) \<Longrightarrow> \<not> below k' (crashShare cfg) \<Longrightarrow>
     Retry now rnd io0 (ID (q_tasks (ld_q s) p)) (ld_q s) = (None, q') \<Longrightarrow>
     consumer_step cfg i s (s\<lparr>ld_q := q', ld_cons := (ld_cons s)(i := CLoop),
       ld_stats := (ld_stats s)\<lparr>st_retried := st_retried (ld_stats s) + 1\<rparr>\<rparr>)"
| c_retry_fails: "ld_cons s i = CTask p \<Longrightarrow> below k (failRate cfg) \<Longrightarrow> \<not> below k' (crashShare cfg) \<Longrightarrow>
     Retry now rnd io0 (ID (q_tasks (ld_q s) p)) (ld_q s) = (Some e, q') \<Longrightarrow>
     consumer_step cfg i s (s\<lparr>ld_q := q', ld_cons := (ld_cons s)(i := CReturned)\<rparr>)"
| c_apply: "ld_cons s i = CTask p \<Longrightarrow> \<not> below k (failRate cfg) \<Longrightarrow>
     consumer_step cfg i s ((apply_task p s)\<lparr>ld_cons := (ld_cons s)(i := CAcking p)\<rparr>)"
| c_ack: "ld_cons s i = CAcking p \<Longrightarrow> Ack io0 (ID (q_tasks (ld_q s) p)) (ld_q s) = (None, q') \<Longrightarrow>
     consumer_step cfg i s (s\<lparr>ld_q := q', ld_cons := (ld_cons s)(i := CLoop),
       ld_stats := (ld_stats s)\<lparr>st_acked := st_acked (ld_stats s) + 1\<rparr>,
       ld_ackLat := (ld_ackLat s)(i := ld_ackLat s i @ [d])\<rparr>)"
| c_ack_fails: "ld_cons s i = CAcking p \<Longrightarrow> Ack io0 (ID (q_tasks (ld_q s) p)) (ld_q s) = (Some e, q') \<Longrightarrow>
     consumer_step cfg i s (s\<lparr>ld_q := q', ld_cons := (ld_cons s)(i := CReturned)\<rparr>)"

text \<open>The main goroutine of \<^verbatim>\<open>run\<close>, from the end of the window on. \<^verbatim>\<open>drain\<close> may give up at the head of its loop.\<close>

inductive main_step :: "config \<Rightarrow> load \<Rightarrow> load \<Rightarrow> bool" for cfg where
  m_stop: "ld_main s = MWindow \<Longrightarrow> main_step cfg s (s\<lparr>ld_stop := True, ld_main := MJoin\<rparr>)"
| m_join: "ld_main s = MJoin \<Longrightarrow> \<forall>i < nat (producers cfg). \<exists>n. ld_prod s i = PReturned n \<Longrightarrow>
     \<forall>i < nat (consumers cfg). ld_cons s i = CReturned \<Longrightarrow> main_step cfg s (s\<lparr>ld_main := MDrain\<rparr>)"
| m_done: "ld_main s = MDrain \<Longrightarrow> st_produced (ld_stats s) \<le> st_acked (ld_stats s) \<Longrightarrow> main_step cfg s (s\<lparr>ld_main := MDone\<rparr>)"
| m_timeout: "ld_main s = MDrain \<Longrightarrow> st_acked (ld_stats s) < st_produced (ld_stats s) \<Longrightarrow> main_step cfg s (s\<lparr>ld_main := MDone\<rparr>)"
| m_pass: "ld_main s = MDrain \<Longrightarrow> st_acked (ld_stats s) < st_produced (ld_stats s) \<Longrightarrow> main_step cfg s (s\<lparr>ld_main := MInner False\<rparr>)"
| m_take: "ld_main s = MInner a \<Longrightarrow> Dequeue now (ld_q s) = (Some p, q') \<Longrightarrow>
     main_step cfg s ((apply_task p (s\<lparr>ld_q := q'\<rparr>))\<lparr>ld_main := MAcking p a,
       ld_stats := (ld_stats s)\<lparr>st_delivered := st_delivered (ld_stats s) + 1\<rparr>\<rparr>)"
| m_empty: "ld_main s = MInner a \<Longrightarrow> Dequeue now (ld_q s) = (None, q') \<Longrightarrow> main_step cfg s (s\<lparr>ld_q := q', ld_main := MList a\<rparr>)"
| m_ack: "ld_main s = MAcking p a \<Longrightarrow> Ack io0 (ID (q_tasks (ld_q s) p)) (ld_q s) = (None, q') \<Longrightarrow>
     main_step cfg s (s\<lparr>ld_q := q', ld_main := MInner True,
       ld_stats := (ld_stats s)\<lparr>st_acked := st_acked (ld_stats s) + 1\<rparr>\<rparr>)"
| m_ack_fails: "ld_main s = MAcking p a \<Longrightarrow> Ack io0 (ID (q_tasks (ld_q s) p)) (ld_q s) = (Some e, q') \<Longrightarrow>
     main_step cfg s (s\<lparr>ld_q := q', ld_main := MDone\<rparr>)"
| m_list: "ld_main s = MList a \<Longrightarrow> distinct order \<Longrightarrow> set order = dom (dlq (ld_q s)) \<Longrightarrow>
     main_step cfg s (s\<lparr>ld_main := MRequeue (map ID (ListDeadTasks order (ld_q s))) a\<rparr>)"
| m_requeue: "ld_main s = MRequeue (u # us) a \<Longrightarrow> RequeueDead io0 u (ld_q s) = (r, q') \<Longrightarrow>
     main_step cfg s (s\<lparr>ld_q := q', ld_main := MRequeue us a\<rparr>)"
| m_again: "ld_main s = MRequeue [] a \<Longrightarrow> main_step cfg s (s\<lparr>ld_main := MDrain\<rparr>)"

inductive load_step :: "config \<Rightarrow> load \<Rightarrow> load \<Rightarrow> bool" for cfg where
  ls_producer: "i < nat (producers cfg) \<Longrightarrow> producer_step cfg i s s' \<Longrightarrow> load_step cfg s s'"
| ls_consumer: "i < nat (consumers cfg) \<Longrightarrow> consumer_step cfg i s s' \<Longrightarrow> load_step cfg s s'"
| ls_sweep: "load_step cfg s (s\<lparr>ld_q := snd (Sweeper ss (ld_q s))\<rparr>)"
| ls_main: "main_step cfg s s' \<Longrightarrow> load_step cfg s s'"

text \<open>What \<^verbatim>\<open>run\<close> computes from the final state. The shortfall is an int64 difference.\<close>

record verdict =
  v_distinctEffects :: nat
  v_deliveries :: nat
  v_dlqLen :: nat
  v_pass :: bool
  v_shortfall :: int

definition conclude :: "load \<Rightarrow> verdict" where
  "conclude s =
     (let d = distinct_effects (ld_store s); l = DLQLen (ld_q s); st = ld_stats s;
          ok = (d = st_produced st \<and> st_acked st = st_produced st \<and> l = 0)
      in \<lparr>v_distinctEffects = d, v_deliveries = deliveries (ld_store s), v_dlqLen = l, v_pass = ok,
          v_shortfall = (if ok then 0 else int (st_produced st) - int d)\<rparr>)"

definition window_metrics :: "config \<Rightarrow> duration \<Rightarrow> load \<Rightarrow> runMetrics" where
  "window_metrics cfg win s =
     \<lparr>window = win,
      m_enqueue = summarize (map (ld_encLat s) [0..<nat (producers cfg)]) win,
      m_dequeue = summarize (map (ld_deqLat s) [0..<nat (consumers cfg)]) win,
      m_ack = summarize (map (ld_ackLat s) [0..<nat (consumers cfg)]) win\<rparr>"

text \<open>An enqueue under a key that the queue already knows, as after a run on the same log, counts as produced although it
  adds no task.\<close>

lemma known_key_counted:
  assumes "ld_prod s i = PLoop n" "\<not> ld_stop s" "dedup (task_key i n) (ld_q s) = Some u"
  shows "\<exists>s'. producer_step cfg i s s' \<and> ld_q s' = ld_q s \<and> st_produced (ld_stats s') = st_produced (ld_stats s) + 1"
  using p_duplicate [OF assms, of cfg 0] by (intro exI [of _ "count_produced i n 0 s"]) (simp add: count_produced_def)

subsection \<open>What the calls do to the filed tasks\<close>

text \<open>A task is filed while it is live or dead.\<close>

definition filed :: "Queue \<Rightarrow> uuid set" where
  "filed q = dom (index q) \<union> dom (dlq q)"

lemma finite_points: "points m q \<Longrightarrow> finite (dom m)"
proof -
  assume a: "points m q"
  have "dom m \<subseteq> (\<lambda>p. ID (q_tasks q p)) ` {..<q_next q}"
  proof
    fix u assume "u \<in> dom m"
    then obtain p where "m u = Some p" by blast
    with a have "p < q_next q" "u = ID (q_tasks q p)" by (auto simp: points_def)
    then show "u \<in> (\<lambda>p. ID (q_tasks q p)) ` {..<q_next q}" by blast
  qed
  then show ?thesis by (rule finite_subset) simp
qed

lemma finite_filed: "queue_ok q \<Longrightarrow> finite (filed q)"
  by (simp add: filed_def finite_points queue_okD_points(1,2))

lemma card_filed: "queue_ok q \<Longrightarrow> card (filed q) = card (dom (index q)) + card (dom (dlq q))"
proof -
  assume ok: "queue_ok q"
  then have "live_xor_dead q" by (rule queue_okD_points)
  then have "dom (index q) \<inter> dom (dlq q) = {}" unfolding live_xor_dead_def by (metis disjoint_iff domIff)
  with ok show ?thesis by (simp add: filed_def card_Un_disjoint finite_points queue_okD_points(1,2))
qed

lemma filed_effects [simp]:
  "filed (q\<lparr>wal := w\<rparr>) = filed q" "filed (lease now p (q\<lparr>ready := rest\<rparr>)) = filed q"
  "index q u = Some p \<Longrightarrow> filed (die now u p q) = filed q" "filed (back_to_ready now rnd u p q) = filed q"
  "dlq q u = Some p \<Longrightarrow> filed (revive u p q) = filed q"
  by (auto simp: filed_def effect_defs)

lemma filed_ack: "queue_ok q \<Longrightarrow> index q u = Some p \<Longrightarrow> filed (ack_done u p q) = filed q - {u}"
  using queue_okD(8) [of q u p] by (auto simp: filed_def effect_defs)

lemma filed_add: "filed (enqueue_add t q) = insert (ID t) (filed q)"
  by (auto simp: filed_def enqueue_add_simps)

text \<open>\<open>kept q q'\<close>: the same tasks are allocated and filed.\<close>

definition kept :: "Queue \<Rightarrow> Queue \<Rightarrow> bool" where
  "kept q q' \<longleftrightarrow> queue_ok q' \<and> same_ids q q' \<and> filed q' = filed q"

lemma kept_wal: "queue_ok q \<Longrightarrow> kept q (q\<lparr>wal := w\<rparr>)"
  by (simp add: kept_def)

lemma kept_Dequeue: "queue_ok q \<Longrightarrow> Dequeue now q = (r, q') \<Longrightarrow> kept q q'"
  using queue_ok_Dequeue [of q now] by (auto simp: kept_def elim!: Dequeue_cases) (simp_all add: same_ids_def)

lemma kept_retryLocked:
  assumes "queue_ok q"
  shows "kept q (snd (retryLocked now rnd i u q))"
proof -
  obtain r q' where e: "retryLocked now rnd i u q = (r, q')" by force
  have "filed q' = filed q" using e by (cases rule: retryLocked_cases) auto
  with e queue_ok_retryLocked [OF assms, of now rnd i u] same_ids_retryLocked [of q now rnd i u] show ?thesis
    by (simp add: kept_def)
qed

lemma kept_Sweeper: "queue_ok q \<Longrightarrow> kept q (snd (Sweeper ss q))"
proof (rule Sweeper_invariant [where P = "kept q"])
  show "queue_ok q \<Longrightarrow> kept q q" by (simp add: kept_def same_ids_def)
  show "kept q (snd (retryLocked (sw_now s) (sw_rnd s) (sw_io s) (sw_id s) q1))" if "kept q q1" for s q1
    using kept_retryLocked [of q1] that by (auto simp: kept_def intro: same_ids_trans)
qed

lemma kept_RequeueDead:
  assumes "queue_ok q" "RequeueDead i u q = (r, q')"
  shows "kept q q'"
proof -
  have "queue_ok q'" using queue_ok_RequeueDead [OF assms(1), of i u] assms(2) by simp
  with assms(2) show ?thesis by (cases rule: RequeueDead_cases) (auto simp: kept_def)
qed

lemma kept_Ack_error: "queue_ok q \<Longrightarrow> Ack i u q = (Some e, q') \<Longrightarrow> kept q q'"
  by (erule Ack_cases) (auto simp: kept_def)

lemma Ack_done:
  assumes "queue_ok q" "Ack i u q = (None, q')"
  shows "queue_ok q'" "same_ids q q'" "u \<in> filed q" "filed q' = filed q - {u}"
proof -
  show "queue_ok q'" using queue_ok_Ack [OF assms(1), of i u] assms(2) by simp
  show "same_ids q q'" "u \<in> filed q" "filed q' = filed q - {u}"
    using assms(2)
    by (auto elim!: Ack_cases simp: filed_ack [of "q\<lparr>wal := w\<rparr>" for w] assms(1)) (auto simp: filed_def)
qed

subsection \<open>The invariant of a run\<close>

fun seq_of :: "producer_pc \<Rightarrow> nat" where
  "seq_of (PLoop n) = n"
| "seq_of (PAppend n t) = n"
| "seq_of (PPublish n t) = n"
| "seq_of (PReturned n) = n"

lemma task_key_inject [simp]: "task_key i n = task_key j m \<longleftrightarrow> i = j \<and> n = m"
  using separated_inject [of i "CHR ''-''" n j m] by (auto simp: task_key_def)

lemma task_key_nonempty [simp]: "task_key i n \<noteq> []"
  by (simp add: task_key_def)

abbreviation key_of :: "Queue \<Rightarrow> ptr \<Rightarrow> string" where
  "key_of q p \<equiv> IdempotencyKey (q_tasks q p)"

abbreviation id_of :: "Queue \<Rightarrow> ptr \<Rightarrow> uuid" where
  "id_of q p \<equiv> ID (q_tasks q p)"

text \<open>Every task in memory was published by a producer under a number it has passed; every task on its way is new
  and has the next key of its producer.\<close>

definition keys_known :: "(nat \<Rightarrow> producer_pc) \<Rightarrow> Queue \<Rightarrow> bool" where
  "keys_known pr q \<longleftrightarrow> (\<forall>p < q_next q. \<exists>i n. key_of q p = task_key i n \<and> n < seq_of (pr i))"

definition tasks_new :: "(nat \<Rightarrow> producer_pc) \<Rightarrow> Queue \<Rightarrow> bool" where
  "tasks_new pr q \<longleftrightarrow>
     (\<forall>i t. in_progress (pr i) = Some t \<longrightarrow> fresh (ID t) q \<and> IdempotencyKey t = task_key i (seq_of (pr i))) \<and>
     (\<forall>i j t t'. i \<noteq> j \<and> in_progress (pr i) = Some t \<and> in_progress (pr j) = Some t' \<longrightarrow> ID t \<noteq> ID t')"

text \<open>The counters account for every task, and the effect of a task that is no longer filed has been applied.\<close>

definition counts_ok :: "runStats \<Rightarrow> Queue \<Rightarrow> bool" where
  "counts_ok st q \<longleftrightarrow> st_produced st = q_next q \<and> st_produced st = st_acked st + card (filed q)"

definition store_ok :: "effectStore \<Rightarrow> Queue \<Rightarrow> bool" where
  "store_ok st q \<longleftrightarrow> dom (applied st) \<subseteq> key_of q ` {..<q_next q} \<and>
     (\<forall>p < q_next q. id_of q p \<notin> filed q \<longrightarrow> key_of q p \<in> dom (applied st))"

text \<open>The tasks that the consumers and the drain hold.\<close>

definition held_ok :: "(nat \<Rightarrow> consumer_pc) \<Rightarrow> main_pc \<Rightarrow> effectStore \<Rightarrow> Queue \<Rightarrow> bool" where
  "held_ok co m st q \<longleftrightarrow>
     (\<forall>i p. co i = CTask p \<longrightarrow> p < q_next q) \<and>
     (\<forall>i p. co i = CAcking p \<longrightarrow> p < q_next q \<and> key_of q p \<in> dom (applied st)) \<and>
     (\<forall>p a. m = MAcking p a \<longrightarrow> p < q_next q \<and> key_of q p \<in> dom (applied st))"

definition load_ok :: "load \<Rightarrow> bool" where
  "load_ok s \<longleftrightarrow> queue_ok (ld_q s) \<and> keys_known (ld_prod s) (ld_q s) \<and> tasks_new (ld_prod s) (ld_q s) \<and>
     counts_ok (ld_stats s) (ld_q s) \<and> store_ok (ld_store s) (ld_q s) \<and>
     held_ok (ld_cons s) (ld_main s) (ld_store s) (ld_q s)"

lemmas load_parts = keys_known_def tasks_new_def counts_ok_def store_ok_def held_ok_def

lemma kept_parts:
  assumes "kept q q'"
  shows "queue_ok q'" "keys_known pr q' = keys_known pr q" "tasks_new pr q' = tasks_new pr q" "counts_ok c q' = counts_ok c q"
    "store_ok st q' = store_ok st q" "held_ok co m st q' = held_ok co m st q"
  using assms fresh_same [of q q'] by (simp_all add: kept_def load_parts same_ids_def)

lemma load_ok_kept: "load_ok s \<Longrightarrow> kept (ld_q s) q' \<Longrightarrow> load_ok (s\<lparr>ld_q := q'\<rparr>)"
  by (simp add: load_ok_def kept_parts)

lemma dom_apply [simp]: "dom (applied (apply_effect k st)) = insert k (dom (applied st))"
  by (simp add: apply_effect_def)

lemma load_ok_apply: "load_ok s \<Longrightarrow> p < q_next (ld_q s) \<Longrightarrow> load_ok (apply_task p s)"
  by (auto simp: load_ok_def apply_task_def store_ok_def held_ok_def)

lemma load_ok_ack:
  assumes "load_ok s" "Ack i (id_of (ld_q s) p) (ld_q s) = (None, q')" "p < q_next (ld_q s)" "key_of (ld_q s) p \<in> dom (applied (ld_store s))"
  shows "load_ok (s\<lparr>ld_q := q', ld_stats := (ld_stats s)\<lparr>st_acked := st_acked (ld_stats s) + 1\<rparr>\<rparr>)"
proof -
  let ?q = "ld_q s" and ?u = "id_of (ld_q s) p"
  have ok: "queue_ok ?q" using assms(1) by (simp add: load_ok_def)
  note A = Ack_done [OF ok assms(2)]
  have "card (filed ?q) = card (filed q') + 1"
    using A(3,4) finite_filed [OF ok] by (metis Suc_eq_plus1 card.remove)
  then have "counts_ok ((ld_stats s)\<lparr>st_acked := st_acked (ld_stats s) + 1\<rparr>) q'"
    using assms(1) A(2) by (simp add: load_ok_def counts_ok_def same_ids_def)
  moreover have "store_ok (ld_store s) q'"
  proof -
    have "key_of ?q p' \<in> dom (applied (ld_store s))" if "p' < q_next ?q" "id_of ?q p' = ?u" for p'
      using that assms(3,4) queue_okD(10) [OF ok] by metis
    then show ?thesis using assms(1) A(2,4) by (auto simp: load_ok_def store_ok_def same_ids_def)
  qed
  moreover have "keys_known (ld_prod s) q'" "tasks_new (ld_prod s) q'" "held_ok (ld_cons s) (ld_main s) (ld_store s) q'"
    using assms(1) A(2) fresh_same [OF A(2)] by (simp_all add: load_ok_def load_parts same_ids_def)
  ultimately show ?thesis using A(1) by (simp add: load_ok_def)
qed

lemma next_key_unseen:
  assumes "load_ok s" "seq_of (ld_prod s i) = n"
  shows "dedup (task_key i n) (ld_q s) = None"
proof (rule ccontr)
  assume "dedup (task_key i n) (ld_q s) \<noteq> None"
  then obtain p where "indexOfIdemKeys (ld_q s) (task_key i n) = Some p" by (auto simp: dedup_def)
  moreover have "keys_ok (ld_q s)" using assms(1) queue_okD_points(4) by (simp add: load_ok_def)
  ultimately have "p < q_next (ld_q s)" "key_of (ld_q s) p = task_key i n" by (auto simp: keys_ok_def)
  with assms show False by (auto simp: load_ok_def keys_known_def)
qed

lemma load_ok_prod:
  assumes "load_ok s" "seq_of pc = seq_of (ld_prod s i)"
    "\<And>t. in_progress pc = Some t \<Longrightarrow> in_progress (ld_prod s i) = Some t \<or> new_id (ID t) s \<and> IdempotencyKey t = task_key i (seq_of pc)"
  shows "load_ok (s\<lparr>ld_prod := (ld_prod s)(i := pc)\<rparr>)"
proof -
  have "keys_known ((ld_prod s)(i := pc)) (ld_q s)" using assms(1,2) unfolding load_ok_def keys_known_def by (metis fun_upd_apply)
  moreover have "tasks_new ((ld_prod s)(i := pc)) (ld_q s)"
    using assms unfolding load_ok_def tasks_new_def new_id_def by (auto split: if_splits) metis+
  ultimately show ?thesis using assms(1) by (simp add: load_ok_def)
qed

lemma load_ok_publish:
  assumes "load_ok s" "ld_prod s i = PPublish n t" "enqueue_publish t (ld_q s) = (u, q')"
  shows "load_ok (count_produced i n d (s\<lparr>ld_q := q'\<rparr>))"
proof -
  let ?q = "ld_q s" and ?pr = "(ld_prod s)(i := PLoop (Suc n))"
  have "in_progress (ld_prod s i) = Some t" "seq_of (ld_prod s i) = n" using assms(2) by simp_all
  then have ok: "queue_ok ?q" "fresh (ID t) ?q" "IdempotencyKey t = task_key i n"
    using assms(1) unfolding load_ok_def tasks_new_def by blast+
  have dd: "dedup (IdempotencyKey t) ?q = None" using next_key_unseen [OF assms(1), of i n] assms(2) ok(3) by simp
  then have q': "q' = enqueue_add t ?q" using assms(3) by (simp add: enqueue_publish_eq)
  have unfiled: "ID t \<notin> filed ?q" using fresh_unfiled [OF ok(1,2)] by (auto simp: filed_def)
  have "queue_ok q'" unfolding q' using ok(1,2) dd by (rule queue_ok_add)
  moreover have "keys_known ?pr q'"
    using assms(1,2) ok(3) unfolding q' load_ok_def keys_known_def enqueue_add_simps
    by (auto simp: less_Suc_eq) (metis seq_of.simps(3) less_SucI)
  moreover have "tasks_new ?pr q'"
  proof -
    have n: "ID t' \<noteq> ID t" if "j \<noteq> i" "in_progress (ld_prod s j) = Some t'" for j t'
      using assms(1,2) that unfolding load_ok_def tasks_new_def by (metis in_progress.simps(2))
    have "fresh (ID t') q'" if "j \<noteq> i" "in_progress (ld_prod s j) = Some t'" for j t'
      using n [OF that] assms(1) that unfolding q' load_ok_def tasks_new_def by (simp add: fresh_add)
    with assms(1) show ?thesis unfolding load_ok_def tasks_new_def by auto
  qed
  moreover have "counts_ok ((ld_stats s)\<lparr>st_produced := st_produced (ld_stats s) + 1\<rparr>) q'"
    using assms(1) unfiled finite_filed [OF ok(1)] by (simp add: q' load_ok_def counts_ok_def filed_add enqueue_add_simps)
  moreover have "store_ok (ld_store s) q'" "held_ok (ld_cons s) (ld_main s) (ld_store s) q'"
    using assms(1) by (auto simp: q' load_ok_def store_ok_def held_ok_def filed_add enqueue_add_simps less_Suc_eq lessThan_Suc image_iff)
  ultimately show ?thesis by (simp add: load_ok_def count_produced_def)
qed

lemma load_ok_producer:
  assumes "producer_step cfg i s s'" "load_ok s"
  shows "load_ok s'"
  using assms(1)
proof (cases rule: producer_step.cases)
  case (p_stop n)
  with load_ok_prod [OF assms(2), of "PReturned n" i] show ?thesis by simp
next
  case (p_duplicate n u d)
  with next_key_unseen [OF assms(2), of i n] show ?thesis by simp
next
  case (p_build n u now)
  with load_ok_prod [OF assms(2), of "PAppend n (new_task u now [120] (task_key i n))" i] show ?thesis by simp
next
  case (p_append n t rec io0 e w)
  have "kept (ld_q s) ((ld_q s)\<lparr>wal := w\<rparr>)" using assms(2) kept_wal by (simp add: load_ok_def)
  with load_ok_kept [OF assms(2)] have "load_ok (s\<lparr>ld_q := (ld_q s)\<lparr>wal := w\<rparr>\<rparr>)" (is "load_ok ?s") by blast
  from load_ok_prod [OF this, of "case e of None \<Rightarrow> PPublish n t | Some _ \<Rightarrow> PReturned n" i] p_append show ?thesis
    by (auto split: option.splits)
next
  case (p_publish n t u q' d)
  with load_ok_publish [OF assms(2)] show ?thesis by simp
qed

text \<open>Counters and positions that the invariant does not depend on.\<close>

lemma load_ok_moves:
  "load_ok s \<Longrightarrow> load_ok (s\<lparr>ld_stop := b\<rparr>)"
  "load_ok s \<Longrightarrow> load_ok (s\<lparr>ld_stats := (ld_stats s)\<lparr>st_delivered := d\<rparr>\<rparr>)"
  "load_ok s \<Longrightarrow> load_ok (s\<lparr>ld_stats := (ld_stats s)\<lparr>st_retried := d\<rparr>\<rparr>)"
  "load_ok s \<Longrightarrow> load_ok (s\<lparr>ld_stats := (ld_stats s)\<lparr>st_crashed := d\<rparr>\<rparr>)"
  by (simp_all add: load_ok_def counts_ok_def)

definition consumer_holds :: "consumer_pc \<Rightarrow> load \<Rightarrow> bool" where
  "consumer_holds pc s = (case pc of CTask p \<Rightarrow> p < q_next (ld_q s)
     | CAcking p \<Rightarrow> p < q_next (ld_q s) \<and> key_of (ld_q s) p \<in> dom (applied (ld_store s)) | _ \<Rightarrow> True)"

lemma load_ok_cons: "load_ok s \<Longrightarrow> consumer_holds pc s \<Longrightarrow> load_ok (s\<lparr>ld_cons := (ld_cons s)(i := pc)\<rparr>)"
  by (auto simp: load_ok_def held_ok_def consumer_holds_def)

lemma load_ok_holds: "load_ok s \<Longrightarrow> consumer_holds (ld_cons s i) s"
  by (auto simp: load_ok_def held_ok_def consumer_holds_def split: consumer_pc.splits)

lemma Dequeue_pointer: "queue_ok q \<Longrightarrow> Dequeue now q = (Some p, q') \<Longrightarrow> p < q_next q'"
proof -
  assume a: "queue_ok q" "Dequeue now q = (Some p, q')"
  from a(2) have "p \<in> set (ready q)" by (cases rule: Dequeue_cases) auto
  with a(1) have "p < q_next q" by (rule queue_okD(7))
  moreover have "same_ids q q'" using kept_Dequeue [OF a] by (simp add: kept_def)
  ultimately show ?thesis by (simp add: same_ids_def)
qed

lemma load_ok_consumer:
  assumes "consumer_step cfg i s s'" "load_ok s"
  shows "load_ok s'"
proof -
  have ok: "queue_ok (ld_q s)" using assms(2) by (simp add: load_ok_def)
  note held = load_ok_holds [OF assms(2), of i]
  from assms(1) show ?thesis
  proof (cases rule: consumer_step.cases)
    case (c_take now p q' d)
    have "load_ok (s\<lparr>ld_q := q'\<rparr>)" using load_ok_kept [OF assms(2) kept_Dequeue [OF ok c_take(4)]] .
    from load_ok_moves(2) [OF load_ok_cons [OF this, of "CTask p" i]] Dequeue_pointer [OF ok c_take(4)] c_take(1)
    show ?thesis by (simp add: consumer_holds_def load_ok_def)
  next
    case (c_empty now q')
    with load_ok_kept [OF assms(2) kept_Dequeue [OF ok c_empty(4)]] show ?thesis by simp
  next
    case (c_crash p k k')
    with held have "load_ok (apply_task p s)" using assms(2) by (simp add: consumer_holds_def load_ok_apply)
    from load_ok_moves(4) [OF load_ok_cons [OF this, of CLoop i]] c_crash(1) show ?thesis
      by (simp add: consumer_holds_def load_ok_def apply_task_def)
  next
    case (c_apply p k)
    with held have p: "p < q_next (ld_q s)" by (simp add: consumer_holds_def)
    with assms(2) have "load_ok (apply_task p s)" by (rule load_ok_apply)
    from load_ok_cons [OF this, of "CAcking p" i] c_apply(1) p show ?thesis
      by (simp add: consumer_holds_def apply_task_def)
  next
    case (c_retry p k k' now rnd io0 q')
    have "kept (ld_q s) q'" using kept_retryLocked [OF ok] c_retry(5) by (metis Retry_def snd_conv)
    from load_ok_moves(3) [OF load_ok_cons [OF load_ok_kept [OF assms(2) this], of CLoop i]] c_retry(1) show ?thesis
      by (simp add: consumer_holds_def load_ok_def)
  next
    case (c_retry_fails p k k' now rnd io0 e q')
    have "kept (ld_q s) q'" using kept_retryLocked [OF ok] c_retry_fails(5) by (metis Retry_def snd_conv)
    from load_ok_cons [OF load_ok_kept [OF assms(2) this], of CReturned i] c_retry_fails(1) show ?thesis
      by (simp add: consumer_holds_def)
  next
    case (c_ack p io0 q' d)
    with held have "load_ok (s\<lparr>ld_q := q', ld_stats := (ld_stats s)\<lparr>st_acked := st_acked (ld_stats s) + 1\<rparr>\<rparr>)"
      by (intro load_ok_ack [OF assms(2)]) (auto simp: consumer_holds_def)
    from load_ok_cons [OF this, of CLoop i] c_ack(1) show ?thesis by (simp add: consumer_holds_def load_ok_def)
  next
    case (c_ack_fails p io0 e q')
    from load_ok_cons [OF load_ok_kept [OF assms(2) kept_Ack_error [OF ok c_ack_fails(3)]], of CReturned i] c_ack_fails(1)
    show ?thesis by (simp add: consumer_holds_def)
  next
    case c_stop
    with load_ok_cons [OF assms(2), of CReturned i] show ?thesis by (simp add: consumer_holds_def)
  qed
qed

lemma load_ok_position:
  "load_ok s \<Longrightarrow> (\<And>p a. m = MAcking p a \<Longrightarrow> p < q_next (ld_q s) \<and> key_of (ld_q s) p \<in> dom (applied (ld_store s))) \<Longrightarrow>
   load_ok (s\<lparr>ld_main := m\<rparr>)"
  by (auto simp: load_ok_def held_ok_def)

lemma load_ok_main:
  assumes "main_step cfg s s'" "load_ok s"
  shows "load_ok s'"
proof -
  have ok: "queue_ok (ld_q s)" using assms(2) by (simp add: load_ok_def)
  from assms(1) show ?thesis
  proof (cases rule: main_step.cases)
    case (m_take a now p q')
    note p = Dequeue_pointer [OF ok m_take(3)]
    have "load_ok (apply_task p (s\<lparr>ld_q := q'\<rparr>))"
      using load_ok_apply [OF load_ok_kept [OF assms(2) kept_Dequeue [OF ok m_take(3)]]] p by simp
    then have "load_ok ((apply_task p (s\<lparr>ld_q := q'\<rparr>))\<lparr>ld_main := MAcking p a\<rparr>)"
      using p by (intro load_ok_position) (auto simp: apply_task_def)
    from load_ok_moves(2) [OF this] m_take(1) show ?thesis by (simp add: apply_task_def)
  next
    case (m_ack p a io0 q')
    with assms(2) have "load_ok (s\<lparr>ld_q := q', ld_stats := (ld_stats s)\<lparr>st_acked := st_acked (ld_stats s) + 1\<rparr>\<rparr>)"
      by (intro load_ok_ack [OF assms(2)]) (auto simp: load_ok_def held_ok_def)
    from load_ok_position [OF this, of "MInner True"] m_ack(1) show ?thesis by (simp add: load_ok_def)
  next
    case (m_ack_fails p a io0 e q')
    with load_ok_position [OF load_ok_kept [OF assms(2) kept_Ack_error [OF ok m_ack_fails(3)]], of MDone] show ?thesis by simp
  next
    case (m_empty a now q')
    with load_ok_position [OF load_ok_kept [OF assms(2) kept_Dequeue [OF ok m_empty(3)]], of "MList a"] show ?thesis by simp
  next
    case (m_requeue u us a io0 r q')
    with load_ok_position [OF load_ok_kept [OF assms(2) kept_RequeueDead [OF ok m_requeue(3)]], of "MRequeue us a"] show ?thesis by simp
  next
    case m_stop
    with load_ok_position [OF load_ok_moves(1) [OF assms(2)], of MJoin True] show ?thesis by simp
  qed (use assms(2) in \<open>auto intro!: load_ok_position\<close>)
qed

lemma load_ok_step: "load_step cfg s s' \<Longrightarrow> load_ok s \<Longrightarrow> load_ok s'"
proof (induction rule: load_step.induct)
  case (ls_sweep s ss)
  then have "kept (ld_q s) (snd (Sweeper ss (ld_q s)))" by (intro kept_Sweeper) (simp add: load_ok_def)
  with ls_sweep show ?case by (rule load_ok_kept)
qed (auto intro: load_ok_producer load_ok_consumer load_ok_main)

interpretation loadinv: step_invariant "load_step cfg" load_ok for cfg
  by unfold_locales (rule load_ok_step)

lemmas load_ok_steps = loadinv.steps

lemma load_ok_init: "load_ok (load_init (empty_queue w v sw m))"
proof -
  have "filed (empty_queue w v sw m) = {}" "q_next (empty_queue w v sw m) = 0" by (simp_all add: filed_def empty_queue_def)
  then show ?thesis
    by (simp add: load_ok_def load_init_def queue_ok_empty load_parts zero_stats_def newEffectStore_def)
qed

subsection \<open>The verdict\<close>

lemma keys_inj: "load_ok s \<Longrightarrow> inj_on (key_of (ld_q s)) {..<q_next (ld_q s)}"
proof (rule inj_onI)
  fix p p' assume a: "load_ok s" "p \<in> {..<q_next (ld_q s)}" "p' \<in> {..<q_next (ld_q s)}" "key_of (ld_q s) p = key_of (ld_q s) p'"
  then have "key_of (ld_q s) p \<noteq> []" unfolding load_ok_def keys_known_def by (metis lessThan_iff task_key_nonempty)
  moreover have "keys_ok (ld_q s)" using a(1) queue_okD_points(4) by (simp add: load_ok_def)
  ultimately show "p = p'" using a(2-) unfolding keys_ok_def by (metis lessThan_iff option.inject)
qed

lemma effects_bounds:
  assumes "load_ok s"
  shows "st_acked (ld_stats s) \<le> distinct_effects (ld_store s)" "distinct_effects (ld_store s) \<le> st_produced (ld_stats s)"
proof -
  let ?q = "ld_q s"
  have ok: "queue_ok ?q" and st: "store_ok (ld_store s) ?q" and ct: "counts_ok (ld_stats s) ?q" using assms by (simp_all add: load_ok_def)
  have sub: "dom (applied (ld_store s)) \<subseteq> key_of ?q ` {..<q_next ?q}" using st by (simp add: store_ok_def)
  from card_mono [OF _ this] have "distinct_effects (ld_store s) \<le> q_next ?q"
    using card_image_le [of "{..<q_next ?q}" "key_of ?q"] by (simp add: distinct_effects_def)
  with ct show "distinct_effects (ld_store s) \<le> st_produced (ld_stats s)" by (simp add: counts_ok_def)
  let ?gone = "{p. p < q_next ?q \<and> id_of ?q p \<notin> filed ?q}" and ?here = "{p. p < q_next ?q \<and> id_of ?q p \<in> filed ?q}"
  have img: "id_of ?q ` ?here = filed ?q"
  proof (intro equalityI subsetI)
    fix u assume u: "u \<in> filed ?q"
    then obtain p where "index ?q u = Some p \<or> dlq ?q u = Some p" by (auto simp: filed_def)
    then have "p < q_next ?q \<and> id_of ?q p = u" using queue_okD(1-4) [OF ok] by metis
    with u show "u \<in> id_of ?q ` ?here" by blast
  qed blast
  have "inj_on (id_of ?q) ?here" by (intro inj_onI queue_okD(10) [OF ok]) simp_all
  from card_image [OF this] have "card ?here = card (filed ?q)" by (simp only: img)
  moreover have "card {..<q_next ?q} = card ?gone + card ?here"
  proof -
    have e: "{..<q_next ?q} = ?gone \<union> ?here" by auto
    have "card (?gone \<union> ?here) = card ?gone + card ?here" by (rule card_Un_disjoint) auto
    then show ?thesis by (simp only: e)
  qed
  ultimately have "card ?gone = st_acked (ld_stats s)" using ct by (simp add: counts_ok_def)
  moreover have "card (key_of ?q ` ?gone) = card ?gone" by (rule card_image, rule inj_on_subset [OF keys_inj [OF assms]]) auto
  moreover have "key_of ?q ` ?gone \<subseteq> dom (applied (ld_store s))" using st by (auto simp: store_ok_def)
  moreover have "finite (dom (applied (ld_store s)))" using sub by (rule finite_subset) simp
  ultimately show "st_acked (ld_stats s) \<le> distinct_effects (ld_store s)"
    using card_mono [of "dom (applied (ld_store s))" "key_of ?q ` ?gone"] by (simp only: distinct_effects_def)
qed

lemma acked_all_empty:
  assumes "load_ok s" "st_acked (ld_stats s) = st_produced (ld_stats s)"
  shows "filed (ld_q s) = {}"
  using assms finite_filed [of "ld_q s"] by (simp add: load_ok_def counts_ok_def)

lemma conclude_pass:
  assumes "load_ok s"
  shows "v_pass (conclude s) \<longleftrightarrow> st_acked (ld_stats s) = st_produced (ld_stats s)"
proof
  assume a: "st_acked (ld_stats s) = st_produced (ld_stats s)"
  from acked_all_empty [OF assms this] have "DLQLen (ld_q s) = 0" by (simp add: DLQLen_def filed_def)
  with a effects_bounds [OF assms] show "v_pass (conclude s)" by (simp add: conclude_def Let_def)
qed (simp add: conclude_def Let_def)



text \<open>One task produced, delivered and acknowledged.\<close>

lemma Append_io_ok: "\<exists>w'. Append rec io_ok w = (None, w')"
  using Append_None [of rec io_ok w] by (metis prod.collapse)

lemma demo_produce:
  fixes vis sweep maxr
  defines "q0 \<equiv> empty_queue \<lparr>wal_file = [], wal_synced = 0, wal_offset = 0\<rparr> vis sweep maxr"
  shows "\<exists>s w. (producer_step cfg 0)\<^sup>*\<^sup>* (load_init q0) s \<and> ld_q s = enqueue_add (new_task 7 100 [120] (task_key 0 0)) (q0\<lparr>wal := w\<rparr>) \<and>
    st_produced (ld_stats s) = 1 \<and> st_acked (ld_stats s) = 0 \<and> ld_cons s = (\<lambda>_. CLoop) \<and> ld_prod s 0 = PLoop 1 \<and>
    ld_main s = MWindow \<and> \<not> ld_stop s"
proof -
  let ?t = "new_task 7 100 [120] (task_key 0 0)" and ?s0 = "load_init q0"
  obtain rec where rec: "enqueue_record ?t = Inr rec"
    by (auto simp: enqueue_record_def encodeEnqueuePayload_def)
  obtain w where w: "Append rec io_ok (wal q0) = (None, w)" using Append_io_ok by blast
  let ?s1 = "?s0\<lparr>ld_prod := (ld_prod ?s0)(0 := PAppend 0 ?t)\<rparr>"
  let ?s2 = "?s1\<lparr>ld_q := q0\<lparr>wal := w\<rparr>, ld_prod := (ld_prod ?s1)(0 := PPublish 0 ?t)\<rparr>"
  let ?s3 = "count_produced 0 0 1 (?s2\<lparr>ld_q := enqueue_add ?t (q0\<lparr>wal := w\<rparr>)\<rparr>)"
  have dd: "dedup k (q0\<lparr>wal := w'\<rparr>) = None" "dedup k q0 = None" for k w' by (simp_all add: dedup_def q0_def empty_queue_def)
  have "producer_step cfg 0 ?s0 ?s1"
    using p_build [of ?s0 0 0 7 cfg 100] dd by (simp add: load_init_def new_id_def fresh_def q0_def empty_queue_def)
  moreover have "producer_step cfg 0 ?s1 ?s2"
    using p_append [of ?s1 0 0 ?t rec io_ok None w cfg] rec w by (simp add: load_init_def)
  moreover have "producer_step cfg 0 ?s2 ?s3"
    using p_publish [of ?s2 0 0 ?t "7" "enqueue_add ?t (q0\<lparr>wal := w\<rparr>)" cfg 1] dd
    by (simp add: enqueue_publish_eq load_init_def)
  ultimately have "(producer_step cfg 0)\<^sup>*\<^sup>* ?s0 ?s3"
    by (meson converse_rtranclp_into_rtranclp rtranclp.rtrancl_refl)
  then show ?thesis by (intro exI [of _ ?s3] exI [of _ w]) (simp add: count_produced_def load_init_def zero_stats_def)
qed

lemma producer_steps: "(producer_step cfg i)\<^sup>*\<^sup>* s s' \<Longrightarrow> i < nat (producers cfg) \<Longrightarrow> (load_step cfg)\<^sup>*\<^sup>* s s'"
  by (induction rule: rtranclp_induct) (auto intro: rtranclp.rtrancl_into_rtrancl ls_producer)

lemma demo_produced:
  fixes vis sweep maxr
  defines "q0 \<equiv> empty_queue \<lparr>wal_file = [], wal_synced = 0, wal_offset = 0\<rparr> vis sweep maxr"
  shows "\<exists>s w. (load_step default_config)\<^sup>*\<^sup>* (load_init q0) s \<and> ld_q s = enqueue_add (new_task 7 100 [120] (task_key 0 0)) (q0\<lparr>wal := w\<rparr>) \<and>
    st_produced (ld_stats s) = 1 \<and> st_acked (ld_stats s) = 0 \<and> ld_cons s = (\<lambda>_. CLoop) \<and> \<not> ld_stop s"
proof -
  have "0 < nat (producers default_config)" by (simp add: default_config_def)
  from demo_produce [of default_config vis sweep maxr, folded q0_def] producer_steps [OF _ this] show ?thesis by blast
qed

lemma demo_Dequeue:
  assumes "q = enqueue_add (new_task 7 100 [120] k) ((empty_queue w0 vis sweep maxr)\<lparr>wal := w\<rparr>)"
  shows "\<exists>q'. Dequeue 200 q = (Some 0, q') \<and> index q' 7 = Some 0 \<and> ID (q_tasks q' 0) = 7 \<and> q_next q' = 1"
proof -
  obtain r q' where e: "Dequeue 200 q = (r, q')" by force
  have q: "ready q = [0]" "q_tasks q 0 = new_task 7 100 [120] k" "index q = [7 \<mapsto> 0]" "q_next q = 1"
    by (simp_all add: assms enqueue_add_def Let_def heapPush_def heap_Push_def heap_up.simps [of _ _ 0] parent_def empty_queue_def)
  from e show ?thesis
  proof (cases rule: Dequeue_cases)
    case nothing
    then show ?thesis by (simp add: q zeroTime_def)
  next
    case (success p rest)
    with e show ?thesis by (simp add: q effect_defs)
  qed
qed

lemma demo_run:
  fixes vis sweep maxr
  defines "q0 \<equiv> empty_queue \<lparr>wal_file = [], wal_synced = 0, wal_offset = 0\<rparr> vis sweep maxr"
  shows "\<exists>s. (load_step default_config)\<^sup>*\<^sup>* (load_init q0) s \<and> st_produced (ld_stats s) = 1 \<and> st_acked (ld_stats s) = 1"
proof -
  obtain s w where s: "(load_step default_config)\<^sup>*\<^sup>* (load_init q0) s"
    "ld_q s = enqueue_add (new_task 7 100 [120] (task_key 0 0)) (q0\<lparr>wal := w\<rparr>)"
    "st_produced (ld_stats s) = 1" "st_acked (ld_stats s) = 0" "ld_cons s = (\<lambda>_. CLoop)" "\<not> ld_stop s"
    using demo_produced unfolding q0_def by blast
  from demo_Dequeue s(2) obtain q' where q': "Dequeue 200 (ld_q s) = (Some 0, q')" "index q' 7 = Some 0" "ID (q_tasks q' 0) = 7"
    unfolding q0_def by metis
  obtain q'' where q'': "Ack io_ok 7 q' = (None, q'')"
    using logged_ok q'(2) by (force simp: Ack_def encodeAckPayload_def)
  have n: "0 < nat (consumers default_config)" by (simp add: default_config_def)
  let ?s1 = "s\<lparr>ld_q := q', ld_cons := (ld_cons s)(0 := CTask 0),
       ld_stats := (ld_stats s)\<lparr>st_delivered := st_delivered (ld_stats s) + 1\<rparr>, ld_deqLat := (ld_deqLat s)(0 := ld_deqLat s 0 @ [1])\<rparr>"
  let ?s2 = "(apply_task 0 ?s1)\<lparr>ld_cons := (ld_cons ?s1)(0 := CAcking 0)\<rparr>"
  let ?s3 = "?s2\<lparr>ld_q := q'', ld_cons := (ld_cons ?s2)(0 := CLoop),
       ld_stats := (ld_stats ?s2)\<lparr>st_acked := st_acked (ld_stats ?s2) + 1\<rparr>, ld_ackLat := (ld_ackLat ?s2)(0 := ld_ackLat ?s2 0 @ [1])\<rparr>"
  have a: "consumer_step default_config 0 s ?s1" using s(5,6) q'(1) by (intro c_take) auto
  have b: "consumer_step default_config 0 ?s1 ?s2"
    by (rule c_apply [of ?s1 0 0 "2 ^ 53 - 1"]) (simp_all add: below_def default_config_def)
  have c: "consumer_step default_config 0 ?s2 ?s3" using q'' q'(3) by (intro c_ack) (auto simp: apply_task_def)
  have "(load_step default_config)\<^sup>*\<^sup>* s ?s3"
    using ls_consumer [OF n a] ls_consumer [OF n b] ls_consumer [OF n c]
    by (meson converse_rtranclp_into_rtranclp rtranclp.rtrancl_refl)
  with s(1) have "(load_step default_config)\<^sup>*\<^sup>* (load_init q0) ?s3" by (rule rtranclp_trans)
  then show ?thesis using s(3,4) by (intro exI [of _ ?s3]) (simp add: apply_task_def)
qed



end
