(* ===== verification/Results.thy ===== *)
theory Results
  imports Workload
begin

section \<open>The record of a run and the exit code (results.go, realMain)\<close>

text \<open>
  The record that is appended to the results file, field by field, and the exit code. Git is an argument: \<open>git args\<close> is the
  output of the command, \<open>None\<close> when it fails. The text of a duration and of the current time are arguments, and the
  encoding as a JSON line is the library's. A float64 field holds the dyadic number of theory Metrics.
\<close>

record gitRecord =
  git_SHA :: string
  git_Branch :: string
  git_Dirty :: bool

record cfgRecord =
  cf_Dur :: string
  cf_Producers :: int
  cf_Consumers :: int
  cf_FailRate :: go_float
  cf_CrashShare :: go_float
  cf_MaxRetries :: int
  cf_Visibility :: string
  cf_Sweep :: string

record cntRecord =
  cn_Produced :: int
  cn_Delivered :: int
  cn_Redeliveries :: int
  cn_Acked :: int
  cn_Retried :: int
  cn_Crashed :: int
  cn_DistinctEffects :: int
  cn_DedupedReapplies :: int
  cn_DLQLen :: int

record opReportJSON =
  op_Count :: nat
  op_OpsPerSec :: float64
  op_P50us :: int
  op_P95us :: int
  op_P99us :: int

record opsRecord =
  ops_Enqueue :: opReportJSON
  ops_Dequeue :: opReportJSON
  ops_Ack :: opReportJSON

record resultRecord =
  rr_Timestamp :: string
  rr_Label :: string
  rr_Git :: gitRecord
  rr_Config :: cfgRecord
  rr_Counters :: cntRecord
  rr_WindowSec :: float64
  rr_Ops :: opsRecord
  rr_Pass :: bool
  rr_Shortfall :: int

text \<open>\<^verbatim>\<open>time.Duration.Microseconds\<close> divides by 1000, truncating.\<close>

definition Microseconds :: "duration \<Rightarrow> int" where
  "Microseconds d = (if d < 0 then - ((- d) div 1000) else d div 1000)"

definition opReport :: "opMetrics \<Rightarrow> opReportJSON" where
  "opReport m = \<lparr>op_Count = m_count m, op_OpsPerSec = throughput m, op_P50us = Microseconds (p50 m),
     op_P95us = Microseconds (p95 m), op_P99us = Microseconds (p99 m)\<rparr>"

definition runGit :: "(string list \<Rightarrow> string option) \<Rightarrow> string list \<Rightarrow> string" where
  "runGit git args = (case git args of None \<Rightarrow> [] | Some out0 \<Rightarrow> TrimSpace out0)"

definition gitInfo :: "(string list \<Rightarrow> string option) \<Rightarrow> string \<times> string \<times> bool" where
  "gitInfo git = (runGit git [''rev-parse'', ''--short'', ''HEAD''], runGit git [''rev-parse'', ''--abbrev-ref'', ''HEAD''],
     runGit git [''status'', ''--porcelain''] \<noteq> [])"

definition buildRecord ::
  "(string list \<Rightarrow> string option) \<Rightarrow> string \<Rightarrow> (duration \<Rightarrow> string) \<Rightarrow> config \<Rightarrow> runStats \<Rightarrow> verdict \<Rightarrow> runMetrics \<Rightarrow> resultRecord" where
  "buildRecord git timestamp dur_str cfg st v m =
     (case gitInfo git of (sha, branch, dirty) \<Rightarrow>
      \<lparr>rr_Timestamp = timestamp, rr_Label = label cfg,
       rr_Git = \<lparr>git_SHA = sha, git_Branch = branch, git_Dirty = dirty\<rparr>,
       rr_Config = \<lparr>cf_Dur = dur_str (c_dur cfg), cf_Producers = producers cfg, cf_Consumers = consumers cfg,
          cf_FailRate = failRate cfg, cf_CrashShare = crashShare cfg, cf_MaxRetries = c_maxRetries cfg,
          cf_Visibility = dur_str (c_visibility cfg), cf_Sweep = dur_str (c_sweep cfg)\<rparr>,
       rr_Counters = \<lparr>cn_Produced = int (st_produced st), cn_Delivered = int (st_delivered st),
          cn_Redeliveries = int (st_delivered st) - int (st_produced st), cn_Acked = int (st_acked st),
          cn_Retried = int (st_retried st), cn_Crashed = int (st_crashed st),
          cn_DistinctEffects = int (v_distinctEffects v),
          cn_DedupedReapplies = int (v_deliveries v) - int (v_distinctEffects v), cn_DLQLen = int (v_dlqLen v)\<rparr>,
       rr_WindowSec = Seconds (window m),
       rr_Ops = \<lparr>ops_Enqueue = opReport (m_enqueue m), ops_Dequeue = opReport (m_dequeue m), ops_Ack = opReport (m_ack m)\<rparr>,
       rr_Pass = v_pass v, rr_Shortfall = v_shortfall v\<rparr>)"

text \<open>\<^verbatim>\<open>appendResult\<close>: \<open>dir\<close> is the directory of the path; \<open>mkdir\<close> and \<open>opn\<close> are the errors of creating it and of opening the file,
  \<open>encode\<close> gives the line or an error. The result is the error, if any, and the new content of the file.\<close>

definition appendResult ::
  "string \<Rightarrow> go_error option \<Rightarrow> go_error option \<Rightarrow> (resultRecord \<Rightarrow> string result) \<Rightarrow> resultRecord \<Rightarrow> string \<Rightarrow> go_error option \<times> string" where
  "appendResult dir mkdir opn encode rec contents =
     (if dir \<noteq> [] \<and> dir \<noteq> ''.'' \<and> mkdir \<noteq> None then (mkdir, contents)
      else case opn of
             Some e \<Rightarrow> (Some e, contents)
           | None \<Rightarrow> (case encode rec of Inl e \<Rightarrow> (Some e, contents) | Inr line \<Rightarrow> (None, contents @ line)))"

definition exit_code :: "verdict \<Rightarrow> int" where
  "exit_code v = (if \<not> v_pass v then 1 else 0)"

subsection \<open>The counters of the record\<close>

text \<open>Every application of an effect is counted once for its key and once in total; every produced task has one latency
  sample.\<close>

definition tally_ok :: "effectStore \<Rightarrow> bool" where
  "tally_ok st \<longleftrightarrow> finite (dom (applied st)) \<and> total st = (\<Sum>k \<in> dom (applied st). the (applied st k)) \<and>
     (\<forall>k n. applied st k = Some n \<longrightarrow> 0 < n)"

lemma tally_ok_apply: "tally_ok st \<Longrightarrow> tally_ok (apply_effect k st)"
proof -
  assume a: "tally_ok st"
  let ?D = "dom (applied st)"
  let ?g = "\<lambda>j. the (applied (apply_effect k st) j)"
  have other: "(\<Sum>j \<in> ?D - {k}. ?g j) = (\<Sum>j \<in> ?D - {k}. the (applied st j))"
    by (rule sum.cong) (auto simp: apply_effect_def)
  have "(\<Sum>j \<in> insert k ?D. ?g j) = ?g k + (\<Sum>j \<in> ?D - {k}. ?g j)" using a by (simp add: tally_ok_def sum.insert_remove)
  moreover have "?g k = (case applied st k of None \<Rightarrow> 0 | Some n \<Rightarrow> n) + 1" by (simp add: apply_effect_def)
  moreover have "(\<Sum>j \<in> ?D. the (applied st j)) = (case applied st k of None \<Rightarrow> 0 | Some n \<Rightarrow> n) + (\<Sum>j \<in> ?D - {k}. the (applied st j))"
  proof (cases "applied st k")
    case None
    then have "?D - {k} = ?D" by (auto simp: domIff)
    with None show ?thesis by simp
  next
    case (Some n)
    then have "k \<in> ?D" by blast
    with Some a show ?thesis by (simp add: tally_ok_def sum.remove [of ?D k])
  qed
  ultimately have "(\<Sum>j \<in> insert k ?D. ?g j) = total st + 1" using a other by (simp add: tally_ok_def)
  then show ?thesis using a by (auto simp: tally_ok_def apply_effect_def split: if_splits)
qed

lemma tally_distinct: "tally_ok st \<Longrightarrow> distinct_effects st \<le> deliveries st"
proof -
  assume a: "tally_ok st"
  have "(\<Sum>k \<in> dom (applied st). 1) \<le> (\<Sum>k \<in> dom (applied st). the (applied st k))"
    using a by (intro sum_mono) (auto simp: tally_ok_def Suc_le_eq)
  with a show ?thesis by (simp add: distinct_effects_def deliveries_def tally_ok_def)
qed

definition sampled :: "config \<Rightarrow> load \<Rightarrow> bool" where
  "sampled cfg s \<longleftrightarrow> st_produced (ld_stats s) = (\<Sum>i < nat (producers cfg). length (ld_encLat s i))"

lemma sampled_produced: "sampled cfg s \<Longrightarrow> i < nat (producers cfg) \<Longrightarrow> sampled cfg (count_produced i n d s)"
proof -
  assume a: "sampled cfg s" "i < nat (producers cfg)"
  let ?g = "\<lambda>j. length (((ld_encLat s)(i := ld_encLat s i @ [d])) j)"
  have "(\<Sum>j < nat (producers cfg). ?g j) = ?g i + (\<Sum>j \<in> {..<nat (producers cfg)} - {i}. ?g j)"
    using a(2) by (subst sum.remove) auto
  moreover have "(\<Sum>j < nat (producers cfg). length (ld_encLat s j)) =
      length (ld_encLat s i) + (\<Sum>j \<in> {..<nat (producers cfg)} - {i}. length (ld_encLat s j))"
    using a(2) by (subst sum.remove) auto
  moreover have "(\<Sum>j \<in> {..<nat (producers cfg)} - {i}. ?g j) = (\<Sum>j \<in> {..<nat (producers cfg)} - {i}. length (ld_encLat s j))"
    by (rule sum.cong) auto
  ultimately show ?thesis using a(1) by (simp add: sampled_def count_produced_def)
qed

lemma sampled_step: "load_step cfg s s' \<Longrightarrow> sampled cfg s \<Longrightarrow> sampled cfg s'"
proof (induction rule: load_step.induct)
  case (ls_producer i s s')
  from ls_producer(2) show ?case
  proof (cases rule: producer_step.cases)
    case (p_publish n t u q' d)
    with ls_producer sampled_produced [of cfg "s\<lparr>ld_q := q'\<rparr>" i n d] show ?thesis by (simp add: sampled_def)
  next
    case (p_duplicate n u d)
    with ls_producer sampled_produced [of cfg s i n d] show ?thesis by simp
  qed (use ls_producer in \<open>simp_all add: sampled_def\<close>)
next
  case (ls_consumer i s s')
  then show ?case by (auto elim!: consumer_step.cases simp: sampled_def apply_task_def)
next
  case (ls_main s s')
  then show ?case by (auto elim!: main_step.cases simp: sampled_def apply_task_def)
qed (simp add: sampled_def)

lemma tally_step: "load_step cfg s s' \<Longrightarrow> tally_ok (ld_store s) \<Longrightarrow> tally_ok (ld_store s')"
proof (induction rule: load_step.induct)
  case (ls_producer i s s')
  then show ?case by (auto elim!: producer_step.cases simp: count_produced_def)
next
  case (ls_consumer i s s')
  then show ?case by (auto elim!: consumer_step.cases simp: apply_task_def tally_ok_apply)
next
  case (ls_main s s')
  then show ?case by (auto elim!: main_step.cases simp: apply_task_def tally_ok_apply)
qed simp

interpretation counters: step_invariant "load_step cfg" "\<lambda>s. tally_ok (ld_store s) \<and> sampled cfg s" for cfg
  by unfold_locales (auto intro: tally_step sampled_step)

lemma counters_init: "tally_ok (ld_store (load_init q))" "sampled cfg (load_init q)"
  by (simp_all add: load_init_def tally_ok_def newEffectStore_def sampled_def zero_stats_def)

lemma length_concat_lat: "length (concat (map lat [0..<n])) = (\<Sum>i < n. length (lat i))"
  by (induction n) simp_all

text \<open>The record of a finished run is consistent with the run: the number of enqueue samples is the number of produced
  tasks, the deduplicated re-applications are the applications beyond the first of each key, the run is recorded
  as passed exactly when all produced tasks were acknowledged, and exactly then the exit code is 0.\<close>

lemma report_consistent:
  assumes "(load_step cfg)\<^sup>*\<^sup>* (load_init (empty_queue w vis sweep maxr)) s"
    "r = buildRecord git timestamp dur_str cfg (ld_stats s) (conclude s) (window_metrics cfg win s)"
  shows "int (op_Count (ops_Enqueue (rr_Ops r))) = cn_Produced (rr_Counters r) \<and>
    cn_DedupedReapplies (rr_Counters r) = (\<Sum>k \<in> dom (applied (ld_store s)). int (the (applied (ld_store s) k)) - 1) \<and>
    0 \<le> cn_DedupedReapplies (rr_Counters r) \<and>
    (rr_Pass r \<longleftrightarrow> cn_Acked (rr_Counters r) = cn_Produced (rr_Counters r)) \<and>
    (rr_Pass r \<longleftrightarrow> exit_code (conclude s) = 0)"
proof -
  have ok: "load_ok s" using load_ok_steps [OF assms(1) load_ok_init] .
  have t: "tally_ok (ld_store s)" "sampled cfg s" using counters.steps [OF assms(1)] counters_init by simp_all
  have r: "op_Count (ops_Enqueue (rr_Ops r)) = (\<Sum>i < nat (producers cfg). length (ld_encLat s i))"
    "cn_Produced (rr_Counters r) = int (st_produced (ld_stats s))" "cn_Acked (rr_Counters r) = int (st_acked (ld_stats s))"
    "cn_DedupedReapplies (rr_Counters r) = int (deliveries (ld_store s)) - int (distinct_effects (ld_store s))"
    "rr_Pass r = v_pass (conclude s)"
    by (simp_all add: assms(2) buildRecord_def opReport_def window_metrics_def summarize_def Let_def length_concat_lat
        conclude_def case_prod_unfold del: length_concat)
  have "int (deliveries (ld_store s)) - int (distinct_effects (ld_store s)) =
      (\<Sum>k \<in> dom (applied (ld_store s)). int (the (applied (ld_store s) k)) - 1)"
    using t(1) by (simp add: tally_ok_def deliveries_def distinct_effects_def sum_subtractf)
  moreover have "int (op_Count (ops_Enqueue (rr_Ops r))) = cn_Produced (rr_Counters r)"
    using r(1,2) t(2) by (simp only: sampled_def)
  moreover have "0 \<le> cn_DedupedReapplies (rr_Counters r)" using r(4) tally_distinct [OF t(1)] by simp
  moreover have "rr_Pass r \<longleftrightarrow> cn_Acked (rr_Counters r) = cn_Produced (rr_Counters r)"
    using r(2,3,5) conclude_pass [OF ok] by simp
  ultimately show ?thesis using r(4,5) by (simp add: exit_code_def)
qed

end
