(* ===== verification/Text_Format.thy ===== *)
theory Text_Format
  imports Decimal Complex_Main
begin

section \<open>Text for the terminal\<close>

text \<open>
  What the output of the load test uses of \<^verbatim>\<open>unicode/utf8\<close>, \<^verbatim>\<open>fmt\<close>, \<^verbatim>\<open>time\<close> and \<^verbatim>\<open>text/tabwriter\<close>. A string is a sequence of
  bytes, in UTF-8 where it is not ASCII. A number for \<^verbatim>\<open>%f\<close> is rational, so the sign of a zero is not represented. The
  \<^verbatim>\<open>tabwriter\<close> is the one the program makes: no minimal width, padding 3 with blanks, no flags; its escape byte 0xFF is
  not interpreted, and the program writes none of its own.
\<close>

subsection \<open>Runes\<close>

text \<open>\<open>conts lo hi k bs\<close>: \<open>bs\<close> starts with \<open>k\<close> continuation bytes, the first of them between \<open>lo\<close> and \<open>hi\<close>.\<close>

definition conts :: "nat \<Rightarrow> nat \<Rightarrow> nat \<Rightarrow> nat list \<Rightarrow> bool" where
  "conts lo hi k bs \<longleftrightarrow> k \<le> length bs \<and> lo \<le> hd bs \<and> hd bs \<le> hi \<and> list_all (\<lambda>b. 128 \<le> b \<and> b \<le> 191) (take k bs)"

text \<open>The number of bytes of the first rune after its first byte \<open>b\<close>; a byte that starts no valid sequence is a rune of its
  own.\<close>

definition rune_rest :: "nat \<Rightarrow> nat list \<Rightarrow> nat" where
  "rune_rest b bs =
     (if 194 \<le> b \<and> b \<le> 223 \<and> conts 128 191 1 bs then 1
      else if b = 224 \<and> conts 160 191 2 bs then 2
      else if b = 237 \<and> conts 128 159 2 bs then 2
      else if 225 \<le> b \<and> b \<le> 239 \<and> b \<noteq> 237 \<and> conts 128 191 2 bs then 2
      else if b = 240 \<and> conts 144 191 3 bs then 3
      else if b = 244 \<and> conts 128 143 3 bs then 3
      else if 241 \<le> b \<and> b \<le> 243 \<and> conts 128 191 3 bs then 3
      else 0)"

fun rune_count :: "nat list \<Rightarrow> nat" where
  "rune_count [] = 0"
| "rune_count (b # bs) = Suc (rune_count (drop (rune_rest b bs) bs))"

definition RuneCountInString :: "string \<Rightarrow> nat" where
  "RuneCountInString s = rune_count (map of_char s)"

definition bytes_string :: "nat list \<Rightarrow> string" where
  "bytes_string bs = map char_of bs"

subsection \<open>Widths, numbers and durations\<close>

definition pad_left :: "nat \<Rightarrow> string \<Rightarrow> string" where
  "pad_left n s = replicate (n - RuneCountInString s) (CHR '' '') @ s"

definition pad_right :: "nat \<Rightarrow> string \<Rightarrow> string" where
  "pad_right n s = s @ replicate (n - RuneCountInString s) (CHR '' '')"

definition round_half_even :: "rat \<Rightarrow> int" where
  "round_half_even x =
     (let f = \<lfloor>x\<rfloor>; r = x - of_int f
      in if r < 1 / 2 \<or> r = 1 / 2 \<and> even f then f else f + 1)"

definition pad_zeros :: "nat \<Rightarrow> string \<Rightarrow> string" where
  "pad_zeros n s = replicate (n - length s) (CHR ''0'') @ s"

text \<open>\<^verbatim>\<open>%.nf\<close> of a number: the nearest decimal with \<open>n\<close> digits after the point, ties to even.\<close>

definition fixed :: "nat \<Rightarrow> rat \<Rightarrow> string" where
  "fixed n x =
     (let v = nat (round_half_even (\<bar>x\<bar> * 10 ^ n))
      in (if x < 0 then ''-'' else []) @ show_nat (v div 10 ^ n) @ (if n = 0 then [] else CHR ''.'' # pad_zeros n (show_nat (v mod 10 ^ n))))"

text \<open>\<^verbatim>\<open>time.Duration.Round\<close> of an int64; a result outside its range is cut to the end of the range.\<close>

definition Round :: "duration \<Rightarrow> duration \<Rightarrow> duration" where
  "Round d m =
     (if m \<le> 0 then d
      else if d < 0 then
        (let r = (- d) mod m in
         if 2 * r < m then d + r else if - (2 ^ 63) \<le> d - m + r then d - m + r else - (2 ^ 63))
      else
        (let r = d mod m in
         if 2 * r < m then d - r else if d + m - r < 2 ^ 63 then d + m - r else 2 ^ 63 - 1))"

definition strip_zeros :: "string \<Rightarrow> string" where
  "strip_zeros s = rev (dropWhile (\<lambda>c. c = CHR ''0'') (rev s))"

text \<open>\<^verbatim>\<open>fmtFrac\<close>: \<open>v / 10 ^ prec\<close> with its fraction, without trailing zeros; here preceded by the whole part in \<open>whole\<close>.\<close>

definition frac_text :: "nat \<Rightarrow> nat \<Rightarrow> string" where
  "frac_text v prec =
     (let ds = strip_zeros (pad_zeros prec (show_nat (v mod 10 ^ prec)))
      in if v mod 10 ^ prec = 0 then [] else CHR ''.'' # ds)"

definition micro :: string where
  "micro = bytes_string [194, 181]"

definition Duration_String :: "duration \<Rightarrow> string" where
  "Duration_String d =
     (let u = nat \<bar>d\<bar>; sgn = (if d < 0 then ''-'' else []) in
      if u = 0 then ''0s''
      else if u < 10 ^ 3 then sgn @ show_nat u @ ''ns''
      else if u < 10 ^ 6 then sgn @ show_nat (u div 10 ^ 3) @ frac_text u 3 @ micro @ ''s''
      else if u < 10 ^ 9 then sgn @ show_nat (u div 10 ^ 6) @ frac_text u 6 @ ''ms''
      else let secs = u div 10 ^ 9; mins = secs div 60; hrs = mins div 60 in
        sgn @ (if hrs > 0 then show_nat hrs @ ''h'' else []) @ (if mins > 0 then show_nat (mins mod 60) @ ''m'' else []) @
        show_nat (secs mod 60) @ frac_text u 9 @ ''s'')"

subsection \<open>The tab writer\<close>

definition nl :: string where
  "nl = [CHR 0x0A]"

definition tab :: string where
  "tab = [CHR 0x09]"

fun splits :: "(char \<Rightarrow> bool) \<Rightarrow> string \<Rightarrow> string list" where
  "splits P [] = [[]]"
| "splits P (c # s) = (if P c then [] # splits P s else (c # hd (splits P s)) # tl (splits P s))"

fun join :: "string \<Rightarrow> string list \<Rightarrow> string" where
  "join sep [] = []"
| "join sep [x] = x"
| "join sep (x # y # xs) = x @ sep @ join sep (y # xs)"

definition tab_padding :: nat where
  "tab_padding = 3"

text \<open>A line is the list of its cells; the last cell is not terminated by a tab and belongs to no column. \<open>write_line\<close> writes the
  cells, those in a column filled up to its width. \<open>format_lines\<close> with the widths of the columns so far: a maximal block
  of lines that have a cell in the next column shares the width of that column.\<close>

fun write_line :: "nat list \<Rightarrow> string list \<Rightarrow> string" where
  "write_line ws [] = []"
| "write_line [] (c # cs) = c @ write_line [] cs"
| "write_line (w # ws) (c # cs) = pad_right w c @ write_line ws cs"

definition col_width :: "nat \<Rightarrow> string list list \<Rightarrow> nat" where
  "col_width j ls = foldr max (map (\<lambda>l. RuneCountInString (l ! j) + tab_padding) ls) 0"

definition has_cell :: "nat \<Rightarrow> string list \<Rightarrow> bool" where
  "has_cell j l \<longleftrightarrow> Suc j < length l"

function format_lines :: "nat list \<Rightarrow> string list list \<Rightarrow> string list" where
  "format_lines ws [] = []"
| "format_lines ws (l # ls) =
     (if has_cell (length ws) l
      then let block = l # takeWhile (has_cell (length ws)) ls
           in format_lines (ws @ [col_width (length ws) block]) block @ format_lines ws (dropWhile (has_cell (length ws)) ls)
      else write_line ws l # format_lines ws ls)"
  by pat_completeness auto

definition cells_left :: "nat \<Rightarrow> string list list \<Rightarrow> nat" where
  "cells_left n ls = sum_list (map (\<lambda>l. Suc (length l - n)) ls)"

lemma cells_left_simps [simp]:
  "cells_left n [] = 0" "cells_left n (l # ls) = Suc (length l - n) + cells_left n ls"
  "cells_left n (ls @ ls') = cells_left n ls + cells_left n ls'"
  by (simp_all add: cells_left_def)

lemma cells_left_block: "cells_left (Suc n) (takeWhile P ls) \<le> cells_left n ls"
  by (induction ls) auto

lemma cells_left_rest: "cells_left n (dropWhile P ls) \<le> cells_left n ls"
  by (induction ls) auto

termination format_lines
proof (relation "measure (\<lambda>(ws, ls). cells_left (length ws) ls)", goal_cases)
  case (2 ws l ls block)
  then show ?case using cells_left_block [of "length ws" "has_cell (length ws)" ls] by (auto simp: has_cell_def)
next
  case (3 ws l ls block)
  then show ?case using cells_left_rest [of "length ws" "has_cell (length ws)" ls] by simp
qed simp_all

lemma format_lines_cell:
  "has_cell (length ws) l \<Longrightarrow> block = l # takeWhile (has_cell (length ws)) ls \<Longrightarrow>
   format_lines ws (l # ls) = format_lines (ws @ [col_width (length ws) block]) block @ format_lines ws (dropWhile (has_cell (length ws)) ls)"
  "\<not> has_cell (length ws) l \<Longrightarrow> format_lines ws (l # ls) = write_line ws l # format_lines ws ls"
  by (subst format_lines.simps(2), simp only: if_True if_False Let_def)+

declare format_lines.simps(2) [simp del]

text \<open>What is flushed for the text written: a form feed ends a line and all column blocks.\<close>

definition tab_flush :: "string \<Rightarrow> string" where
  "tab_flush s =
     join nl (map (\<lambda>part. join nl (format_lines [] (map (splits (\<lambda>c. c = CHR 0x09 \<or> c = CHR 0x0B)) (splits (\<lambda>c. c = CHR 0x0A) part))))
       (splits (\<lambda>c. c = CHR 0x0C) s))"

subsection \<open>Counting runes\<close>

text \<open>An ASCII byte is a rune and never continues one, so ASCII text before or after any other text adds its length.\<close>

lemma rune_rest_ascii [simp]: "b < 128 \<Longrightarrow> rune_rest b bs = 0"
  by (simp add: rune_rest_def)

lemma rune_count_ascii: "list_all (\<lambda>b. b < 128) xs \<Longrightarrow> rune_count (xs @ ys) = length xs + rune_count ys"
  by (induction xs) simp_all

lemma conts_append:
  assumes "ys = [] \<or> hd ys < 128" "0 < k"
  shows "conts lo hi k (bs @ ys) = conts lo hi k bs"
proof (cases "k \<le> length bs")
  case True
  with assms(2) have "bs \<noteq> []" by auto
  with True show ?thesis by (simp add: conts_def)
next
  case False
  have "\<not> conts lo hi k (bs @ ys)"
  proof
    assume c: "conts lo hi k (bs @ ys)"
    with False have n: "ys \<noteq> []" "length bs < k" "k \<le> length bs + length ys" by (auto simp: conts_def)
    then have "take k (bs @ ys) ! length bs = hd ys" by (simp add: nth_append hd_conv_nth)
    moreover have "128 \<le> take k (bs @ ys) ! length bs"
      using c n by (auto simp: conts_def list_all_length simp del: take_append)
    ultimately show False using assms(1) n(1) by simp
  qed
  with False show ?thesis by (simp add: conts_def)
qed

lemma rune_rest_append: "ys = [] \<or> hd ys < 128 \<Longrightarrow> rune_rest b (bs @ ys) = rune_rest b bs"
  by (simp add: rune_rest_def conts_append)

lemma rune_rest_le: "rune_rest b bs \<le> length bs"
  by (simp add: rune_rest_def conts_def)

lemma rune_count_append: "ys = [] \<or> hd ys < 128 \<Longrightarrow> rune_count (xs @ ys) = rune_count xs + rune_count ys"
proof (induction xs rule: rune_count.induct)
  case (2 b bs)
  then show ?case using rune_rest_le [of b bs] by (simp add: rune_rest_append)
qed simp

definition ascii :: "string \<Rightarrow> bool" where
  "ascii s \<longleftrightarrow> list_all (\<lambda>c. (of_char c :: nat) < 128) s"

lemma ascii_simps [simp]: "ascii []" "ascii (c # s) \<longleftrightarrow> (of_char c :: nat) < 128 \<and> ascii s" "ascii (s @ t) \<longleftrightarrow> ascii s \<and> ascii t"
  by (simp_all add: ascii_def)

lemma ascii_bytes: "ascii s \<longleftrightarrow> list_all (\<lambda>b. b < 128) (map (of_char :: char \<Rightarrow> nat) s)"
  by (simp add: ascii_def list_all_iff)

lemma runes_simps [simp]:
  "RuneCountInString [] = 0"
  "(of_char c :: nat) < 128 \<Longrightarrow> RuneCountInString (c # s) = Suc (RuneCountInString s)"
  "(of_char c :: nat) < 128 \<Longrightarrow> RuneCountInString (s @ c # t) = RuneCountInString s + Suc (RuneCountInString t)"
  using rune_count_append [of "map of_char (c # t)" "map of_char s"] by (simp_all add: RuneCountInString_def)

lemma runes_ascii: "ascii s \<Longrightarrow> RuneCountInString (s @ t) = length s + RuneCountInString t"
  using rune_count_ascii [of "map of_char s" "map of_char t"] by (simp add: RuneCountInString_def ascii_bytes)

lemma runes_length: "ascii s \<Longrightarrow> RuneCountInString s = length s"
  using runes_ascii [of s "[]"] by simp

lemma runes_append_ascii: "ascii t \<Longrightarrow> RuneCountInString (s @ t) = RuneCountInString s + length t"
proof (cases t)
  case (Cons c t')
  moreover assume "ascii t"
  ultimately show ?thesis by (simp add: runes_length)
qed simp

lemma ascii_blanks [simp]: "ascii (replicate n (CHR '' ''))"
  by (simp add: ascii_def list_all_iff)

lemma runes_pad [simp]:
  "RuneCountInString (pad_right n s) = max n (RuneCountInString s)"
  "RuneCountInString (pad_left n s) = max n (RuneCountInString s)"
  by (simp_all add: pad_right_def pad_left_def runes_append_ascii runes_ascii)

subsection \<open>Rounding\<close>

text \<open>A rounded duration is a multiple of the unit, at most half a unit away, unless the range of int64 ends before.\<close>

lemma Round_nearest:
  assumes "0 < m" "- (2 ^ 63) + m \<le> d" "d + m < 2 ^ 63"
  shows "m dvd Round d m \<and> 2 * \<bar>Round d m - d\<bar> \<le> m"
proof (cases "d < 0")
  case True
  define r where "r = (- d) mod m"
  have r: "0 \<le> r" "r < m" using assms(1) by (simp_all add: r_def)
  have "m dvd - d - r" by (simp add: r_def dvd_minus_mod)
  then have "m dvd d + r" by (metis add_uminus_conv_diff dvd_minus_iff minus_add_distrib)
  moreover from this have "m dvd d - m + r" by (metis diff_add_eq dvd_diff dvd_refl)
  ultimately show ?thesis using True assms r by (simp add: Round_def Let_def r_def [symmetric])
next
  case False
  define r where "r = d mod m"
  have r: "0 \<le> r" "r < m" using assms(1) by (simp_all add: r_def)
  have "m dvd d - r" by (simp add: r_def dvd_minus_mod)
  moreover from this have "m dvd d + m - r" by (metis add.commute add_diff_eq dvd_add dvd_refl)
  ultimately show ?thesis using False assms r by (simp add: Round_def Let_def r_def [symmetric])
qed

lemma round_half_even_nearest: "\<bar>of_int (round_half_even x) - x\<bar> \<le> 1 / 2"
proof -
  have "of_int \<lfloor>x\<rfloor> \<le> x" "x < of_int \<lfloor>x\<rfloor> + 1" by linarith+
  then show ?thesis by (auto simp: round_half_even_def Let_def)
qed

subsection \<open>Tables\<close>

definition plain :: "string \<Rightarrow> bool" where
  "plain s \<longleftrightarrow> list_all (\<lambda>c. c \<notin> {CHR 0x09, CHR 0x0A, CHR 0x0B, CHR 0x0C}) s"

lemma splits_none: "list_all (\<lambda>c. \<not> P c) s \<Longrightarrow> splits P s = [s]"
  by (induction s) simp_all

lemma splits_sep: "list_all (\<lambda>c. \<not> P c) s \<Longrightarrow> P c \<Longrightarrow> splits P (s @ c # t) = s # splits P t"
  by (induction s) simp_all

lemma splits_lines:
  "P c \<Longrightarrow> \<forall>l \<in> set ls. list_all (\<lambda>c. \<not> P c) l \<Longrightarrow> splits P (concat (map (\<lambda>l. l @ [c]) ls)) = ls @ [[]]"
  by (induction ls) (simp_all add: splits_sep)

lemma splits_join:
  "P c \<Longrightarrow> cs \<noteq> [] \<Longrightarrow> \<forall>x \<in> set cs. list_all (\<lambda>c. \<not> P c) x \<Longrightarrow> splits P (join [c] cs) = cs"
  by (induction "[c]" cs rule: join.induct) (simp_all add: splits_sep splits_none)

lemma list_all_join: "list_all Q sep \<Longrightarrow> \<forall>x \<in> set cs. list_all Q x \<Longrightarrow> list_all Q (join sep cs)"
  by (induction sep cs rule: join.induct) simp_all

lemma join_nl: "join sep (xs @ [[]]) = concat (map (\<lambda>x. x @ sep) xs)"
proof (induction xs)
  case (Cons x xs)
  then show ?case by (cases "xs @ [[]]") simp_all
qed simp

text \<open>A block of lines with the same number of cells is a table: every column has one width.\<close>

lemma format_table:
  assumes "\<forall>l \<in> set ls. length l = Suc m" "length ws \<le> m"
  shows "format_lines ws ls = map (write_line (ws @ map (\<lambda>j. col_width j ls) [length ws..<m])) ls"
  using assms(2)
proof (induction "m - length ws" arbitrary: ws)
  case 0
  then have "\<not> has_cell (length ws) l" if "l \<in> set ls" for l using assms(1) that by (simp add: has_cell_def)
  then have "format_lines ws ls = map (write_line ws) ls" by (induction ls) (simp_all add: format_lines_cell(2))
  with 0 show ?case by simp
next
  case (Suc n)
  show ?case
  proof (cases ls)
    case (Cons l0 ls0)
    have has: "\<forall>l \<in> set ls. has_cell (length ws) l" using assms(1) Suc(2,3) by (auto simp: has_cell_def)
    with Cons have "takeWhile (has_cell (length ws)) ls0 = ls0" "dropWhile (has_cell (length ws)) ls0 = []"
      by (simp_all add: takeWhile_eq_all_conv)
    with Cons has have "format_lines ws ls = format_lines (ws @ [col_width (length ws) ls]) ls"
      using format_lines_cell(1) [of ws l0 ls ls0] by (simp only: list.set_intros format_lines.simps(1) append_Nil2)
    with Suc.hyps(1) [of "ws @ [col_width (length ws) ls]"] Suc.hyps(2) show ?thesis by (simp add: upt_conv_Cons)
  qed simp
qed

lemma format_table_end:
  assumes "\<forall>l \<in> set ls. length l = Suc (Suc m)"
  shows "format_lines [] (ls @ [[[]]]) = map (write_line (map (\<lambda>j. col_width j ls) [0..<Suc m])) ls @ [[]]"
proof (cases ls)
  case (Cons l0 ls0)
  have "\<forall>l \<in> set ls. has_cell 0 l" using assms by (auto simp: has_cell_def)
  then have "takeWhile (has_cell 0) (ls0 @ [[[]]]) = ls0" "dropWhile (has_cell 0) (ls0 @ [[[]]]) = [[[]]]" "has_cell 0 l0"
    using Cons by (auto simp: takeWhile_append dropWhile_append has_cell_def)
  then have "format_lines [] (ls @ [[[]]]) = format_lines [col_width 0 ls] ls @ [[]]"
    using Cons format_lines_cell(1) [of "[]" l0 ls "ls0 @ [[[]]]"] format_lines_cell(2) [of "[]" "[[]]" "[]"] by (simp add: has_cell_def)
  with format_table [OF assms, of "[col_width 0 ls]"] show ?thesis by (simp add: upt_conv_Cons del: upt_Suc)
qed (simp add: has_cell_def format_lines_cell(2))

definition table_text :: "string list list \<Rightarrow> string" where
  "table_text rows = concat (map (\<lambda>r. join tab r @ nl) rows)"

lemma tab_flush_table:
  assumes "\<forall>r \<in> set rows. length r = Suc (Suc m) \<and> list_all plain r"
  shows "tab_flush (table_text rows) =
    concat (map (\<lambda>r. write_line (map (\<lambda>j. col_width j rows) [0..<Suc m]) r @ nl) rows)"
proof -
  have free: "list_all (\<lambda>c. c \<noteq> CHR 0x0A \<and> c \<noteq> CHR 0x0C) (join tab r)" if "r \<in> set rows" for r
    using assms that by (intro list_all_join) (auto simp: tab_def list_all_iff plain_def)
  have "splits (\<lambda>c. c = CHR 0x0C) (table_text rows) = [table_text rows]"
    using free by (intro splits_none) (auto simp: table_text_def nl_def list_all_iff)
  moreover have "splits (\<lambda>c. c = CHR 0x0A) (table_text rows) = map (join tab) rows @ [[]]"
    using splits_lines [of "\<lambda>c. c = CHR 0x0A" "CHR 0x0A" "map (join tab) rows"] free
    by (auto simp: table_text_def nl_def list_all_iff comp_def)
  moreover have "map (splits (\<lambda>c. c = CHR 0x09 \<or> c = CHR 0x0B)) (map (join tab) rows) = rows"
  proof -
    have "splits (\<lambda>c. c = CHR 0x09 \<or> c = CHR 0x0B) (join tab r) = r" if "r \<in> set rows" for r
      unfolding tab_def using assms that by (intro splits_join) (auto simp: list_all_iff plain_def)
    then show ?thesis by (simp add: map_idI)
  qed
  moreover have "format_lines [] (rows @ [[[]]]) = map (write_line (map (\<lambda>j. col_width j rows) [0..<Suc m])) rows @ [[]]"
    using assms by (intro format_table_end) blast
  ultimately show ?thesis by (simp add: tab_flush_def join_nl comp_def del: upt_Suc)
qed

text \<open>In a table every cell but the last is followed by at least the padding.\<close>

lemma col_width_ge: "l \<in> set ls \<Longrightarrow> RuneCountInString (l ! j) + tab_padding \<le> col_width j ls"
  unfolding col_width_def by (induction ls) (auto simp: max_def)

end
