(* ===== verification/Output.thy ===== *)
theory Output
  imports Results Text_Format
begin

section \<open>Terminal output and the whole load test (output.go, realMain)\<close>

text \<open>
  What \<^verbatim>\<open>output.go\<close> prints, byte for byte, and \<^verbatim>\<open>realMain\<close> as a relation between what the process finds (flags, input, log,
  results file, git) and what it leaves: its output from the configuration on, the results file, the exit code, and whether the
  throwaway log is removed.
\<close>

subsection \<open>output.go\<close>

definition sectionWidth :: nat where
  "sectionWidth = 52"

text \<open>The horizontal double line, U+2550.\<close>

definition rule :: string where
  "rule = bytes_string [226, 149, 144]"

definition header :: "string \<Rightarrow> string" where
  "header title =
     (let prefix = rule @ rule @ '' '' @ title @ '' '';
          pad = int sectionWidth - int (RuneCountInString prefix);
          pad = (if pad < 0 then 0 else pad)
      in prefix @ concat (replicate (nat pad) rule))"

definition section_text :: "string \<Rightarrow> string" where
  "section_text title = nl @ header title @ nl"

definition kv :: "(string \<times> string) list \<Rightarrow> string" where
  "kv rows = tab_flush (table_text (map (\<lambda>(k, v). [''  '' @ k, v]) rows))"

text \<open>\<^verbatim>\<open>%.nf\<close>\<close>

fun fmt_float :: "nat \<Rightarrow> go_float \<Rightarrow> string" where
  "fmt_float n NaN = ''NaN''"
| "fmt_float n MinusInf = ''-Inf''"
| "fmt_float n PlusInf = ''+Inf''"
| "fmt_float n (Num x) = fixed n x"

definition renderConfig :: "config \<Rightarrow> string" where
  "renderConfig cfg = section_text ''config'' @ kv
     [(''duration'', Duration_String (c_dur cfg)),
      (''producers'', Itoa (producers cfg)),
      (''consumers'', Itoa (consumers cfg)),
      (''failrate'', fmt_float 2 (failRate cfg)),
      (''crashshare'', fmt_float 2 (crashShare cfg)),
      (''maxretries'', Itoa (c_maxRetries cfg)),
      (''visibility'', Duration_String (c_visibility cfg)),
      (''sweep'', Duration_String (c_sweep cfg)),
      (''draintimeout'', Duration_String (drainTO cfg)),
      (''wal'', walPath cfg),
      (''label'', label cfg),
      (''out'', out cfg)]"

definition op_row :: "string \<Rightarrow> string \<Rightarrow> string \<Rightarrow> string \<Rightarrow> string \<Rightarrow> string \<Rightarrow> string" where
  "op_row a b c d e f = ''  '' @ pad_right 8 a @ '' '' @ pad_left 7 b @ '' '' @ pad_left 9 c @ '' '' @ pad_left 9 d @ '' '' @
     pad_left 9 e @ '' '' @ pad_left 9 f @ nl"

definition printOp :: "string \<Rightarrow> opMetrics \<Rightarrow> string" where
  "printOp name m = op_row name (Itoa (int (m_count m))) (fixed 1 (fl_val (throughput m)))
     (Duration_String (Round (p50 m) (10 ^ 3))) (Duration_String (Round (p95 m) (10 ^ 3))) (Duration_String (Round (p99 m) (10 ^ 3)))"

definition ok_mark :: "bool \<Rightarrow> string" where
  "ok_mark b = (if b then ''ok'' else ''BAD'')"

definition conservation_rows :: "runStats \<Rightarrow> verdict \<Rightarrow> string list list" where
  "conservation_rows st v =
     (let n = Itoa (int (st_produced st)); d = Itoa (int (v_distinctEffects v)); a = Itoa (int (st_acked st)) in
      [[''  effects applied == produced'', d @ '' == '' @ n, ok_mark (v_distinctEffects v = st_produced st)],
       [''  tasks completed == produced'', a @ '' == '' @ n, ok_mark (st_acked st = st_produced st)],
       [''  dlq drained'', Itoa (int (v_dlqLen v)), ok_mark (v_dlqLen v = 0)]])"

definition verdict_line :: "verdict \<Rightarrow> string" where
  "verdict_line v = (if v_pass v then ''  => PASS'' @ nl else ''  => FAIL (effect shortfall '' @ Itoa (v_shortfall v) @ '')'' @ nl)"

definition renderResults :: "runStats \<Rightarrow> verdict \<Rightarrow> runMetrics \<Rightarrow> string" where
  "renderResults st v m = section_text ''results'' @ kv
     [(''produced'', Itoa (int (st_produced st))),
      (''delivered'', Itoa (int (st_delivered st)) @ ''  ('' @ Itoa (int (st_delivered st) - int (st_produced st)) @ '' redeliveries)''),
      (''acked'', Itoa (int (st_acked st))),
      (''retried (pre-effect)'', Itoa (int (st_retried st))),
      (''crashed (post-effect)'', Itoa (int (st_crashed st))),
      (''distinct effects'', Itoa (int (v_distinctEffects v))),
      (''effect applies'', Itoa (int (v_deliveries v)) @ ''  ('' @ Itoa (int (v_deliveries v) - int (v_distinctEffects v)) @ '' deduped re-applies)''),
      (''dlq length'', Itoa (int (v_dlqLen v)))] @
     section_text ''throughput & latency'' @
     ''  window '' @ Duration_String (Round (window m) (10 ^ 6)) @ nl @
     op_row ''op'' ''count'' ''ops/sec'' ''p50'' ''p95'' ''p99'' @
     printOp ''enqueue'' (m_enqueue m) @ printOp ''dequeue'' (m_dequeue m) @ printOp ''ack'' (m_ack m) @
     section_text ''conservation'' @ tab_flush (table_text (conservation_rows st v)) @ verdict_line v"

subsection \<open>The layout\<close>

lemma runes_rule [simp]: "RuneCountInString (rule @ s) = Suc (RuneCountInString s)"
  by (simp add: RuneCountInString_def rule_def bytes_string_def rune_rest_def conts_def)

lemma runes_rules: "RuneCountInString (concat (replicate n rule) @ s) = n + RuneCountInString s"
  by (induction n) simp_all

text \<open>A header rule is exactly \<open>sectionWidth\<close> runes wide when its title has at most 48 runes, as all titles of the program
  have.\<close>

lemma header_width:
  assumes "ascii title" "length title \<le> 48"
  shows "RuneCountInString (header title) = sectionWidth"
  using assms runes_rules [of _ "[]"] by (simp add: header_def Let_def sectionWidth_def runes_ascii)

text \<open>\<^verbatim>\<open>sectionWidth\<close> does not span the widest block, as its comment says: the rows of the metrics table are wider.\<close>

lemma op_row_wider: "sectionWidth + 7 \<le> RuneCountInString (op_row a b c d e f)"
  by (simp add: op_row_def sectionWidth_def nl_def)

text \<open>\<^verbatim>\<open>kv\<close> aligns its values: every row is its label, filled up to one common width that leaves at least three blanks, and then
  its value. The labels and values must not contain the characters that the tab writer treats as
  separators.\<close>

lemma kv_aligned:
  fixes rows :: "(string \<times> string) list"
  assumes "\<forall>(k, v) \<in> set rows. plain k \<and> plain v"
  shows "\<exists>w. (\<forall>(k, v) \<in> set rows. RuneCountInString k + 5 \<le> w) \<and>
    kv rows = concat (map (\<lambda>(k, v). pad_right w (''  '' @ k) @ v @ nl) rows)"
proof (intro exI conjI)
  let ?rows = "map (\<lambda>(k, v). [''  '' @ k, v]) rows"
  let ?w = "col_width 0 ?rows"
  show "\<forall>(k, v) \<in> set rows. RuneCountInString k + 5 \<le> ?w"
    using col_width_ge [of _ ?rows 0] by (fastforce simp: runes_ascii [of "''  ''", simplified] tab_padding_def)
  have "\<forall>r \<in> set ?rows. length r = Suc (Suc 0) \<and> list_all plain r" using assms by (auto simp: plain_def)
  from tab_flush_table [OF this] show "kv rows = concat (map (\<lambda>(k, v). pad_right ?w (''  '' @ k) @ v @ nl) rows)"
    by (simp add: kv_def comp_def case_prod_unfold)
qed

text \<open>The three marks and the last line agree.\<close>

lemma marks_agree:
  assumes "v = conclude s"
  shows "v_pass v \<longleftrightarrow> (\<forall>r \<in> set (conservation_rows (ld_stats s) v). last r = ''ok'')"
  by (simp add: assms conclude_def conservation_rows_def ok_mark_def Let_def)

subsection \<open>realMain\<close>

text \<open>What a run of the program finds. \<open>e_disk p\<close> is the log under the path \<open>p\<close>; \<open>e_dir p\<close> is \<^verbatim>\<open>filepath.Dir\<close>; \<open>e_results\<close> is
  the content of the results file; \<open>e_remove\<close> is the error of removing the log. The other fields are arguments of the
  definitions they are passed to.\<close>

record env =
  e_ParseDuration :: "string \<Rightarrow> duration option"
  e_ParseFloat :: "string \<Rightarrow> go_float option"
  e_assign :: "config \<Rightarrow> config"
  e_tmp :: string
  e_nflag :: nat
  e_tty :: "bool option"
  e_stdin :: "string list"
  e_disk :: "string \<Rightarrow> disk"
  e_clk :: "nat \<Rightarrow> time"
  e_git :: "string list \<Rightarrow> string option"
  e_timestamp :: string
  e_dir :: "string \<Rightarrow> string"
  e_mkdir :: "go_error option"
  e_opn :: "go_error option"
  e_encode :: "resultRecord \<Rightarrow> string result"
  e_results :: string
  e_remove :: "go_error option"

record outcome =
  o_stdout :: string
  o_results :: string
  o_exit :: int
  o_removed :: bool

definition env_config :: "env \<Rightarrow> fatal + config \<times> bool" where
  "env_config env = configure (e_ParseDuration env) (e_ParseFloat env) (e_assign env) (e_tmp env) (e_nflag env) (e_tty env) (e_stdin env)"

definition env_queue :: "(bytes \<Rightarrow> uuid result) \<Rightarrow> env \<Rightarrow> config \<Rightarrow> Queue result" where
  "env_queue fb env cfg = NewQueue fb (e_clk env) (e_disk env (walPath cfg)) (c_visibility cfg) (c_sweep cfg) (c_maxRetries cfg)"

definition env_record :: "env \<Rightarrow> config \<Rightarrow> duration \<Rightarrow> load \<Rightarrow> resultRecord" where
  "env_record env cfg win s =
     buildRecord (e_git env) (e_timestamp env) Duration_String cfg (ld_stats s) (conclude s) (window_metrics cfg win s)"

text \<open>The errors by which a Go program panics.\<close>

definition is_panic :: "go_error \<Rightarrow> bool" where
  "is_panic e \<longleftrightarrow> e = NilDeref \<or> e = TypeAssertion"

definition finish :: "env \<Rightarrow> config \<Rightarrow> bool \<Rightarrow> duration \<Rightarrow> load \<Rightarrow> outcome" where
  "finish env cfg cleanup win s =
     (case appendResult (e_dir env (out cfg)) (e_mkdir env) (e_opn env) (e_encode env) (env_record env cfg win s) (e_results env) of
        (err, contents) \<Rightarrow>
          \<lparr>o_stdout = renderConfig cfg @ renderResults (ld_stats s) (conclude s) (window_metrics cfg win s) @
             (case err of None \<Rightarrow> nl @ ''results appended to '' @ out cfg @ nl | Some _ \<Rightarrow> []),
           o_results = contents, o_exit = exit_code (conclude s), o_removed = (cleanup \<and> e_remove env = None)\<rparr>)"

text \<open>\<^verbatim>\<open>log.Fatalf\<close> exits with code 1 without running the deferred functions. A panic of the main goroutine runs them and exits with
  code 2. A panic of the sweeper, which an interval that is not positive causes, exits with code 2 without running them,
  when at most the configuration has been printed.\<close>

inductive realMain :: "(bytes \<Rightarrow> uuid result) \<Rightarrow> env \<Rightarrow> outcome \<Rightarrow> bool" for fb env where
  rm_bad_flags: "env_config env = Inl e \<Longrightarrow>
     realMain fb env \<lparr>o_stdout = [], o_results = e_results env, o_exit = 1, o_removed = False\<rparr>"
| rm_no_queue: "env_config env = Inr (cfg, cleanup) \<Longrightarrow> env_queue fb env cfg = Inl e \<Longrightarrow> \<not> is_panic e \<Longrightarrow>
     realMain fb env \<lparr>o_stdout = [], o_results = e_results env, o_exit = 1, o_removed = False\<rparr>"
| rm_replay_panics: "env_config env = Inr (cfg, cleanup) \<Longrightarrow> env_queue fb env cfg = Inl e \<Longrightarrow> is_panic e \<Longrightarrow>
     realMain fb env \<lparr>o_stdout = [], o_results = e_results env, o_exit = 2, o_removed = (cleanup \<and> e_remove env = None)\<rparr>"
| rm_sweeper_panics: "env_config env = Inr (cfg, cleanup) \<Longrightarrow> env_queue fb env cfg = Inr q \<Longrightarrow> c_sweep cfg \<le> 0 \<Longrightarrow>
     realMain fb env \<lparr>o_stdout = take n (renderConfig cfg), o_results = e_results env, o_exit = 2, o_removed = False\<rparr>"
| rm_finishes: "env_config env = Inr (cfg, cleanup) \<Longrightarrow> env_queue fb env cfg = Inr q \<Longrightarrow> 0 < c_sweep cfg \<Longrightarrow>
     (load_step cfg)\<^sup>*\<^sup>* (load_init q) s \<Longrightarrow> ld_main s = MDone \<Longrightarrow>
     realMain fb env (finish env cfg cleanup win s)"

text \<open>The results file gets at most one line more, the encoded record.\<close>

lemma finish_simps:
  "o_exit (finish env cfg cleanup win s) = exit_code (conclude s)"
  "o_removed (finish env cfg cleanup win s) \<longleftrightarrow> cleanup \<and> e_remove env = None"
  "o_results (finish env cfg cleanup win s) \<in> {e_results env} \<union>
     {e_results env @ line |line. e_encode env (env_record env cfg win s) = Inr line}"
  by (auto simp: finish_def appendResult_def split: prod.splits if_splits option.splits sum.splits)


text \<open>The shortest run: the window closes before anything is produced.\<close>

lemma idle_run:
  assumes "producers cfg = 1" "consumers cfg = 1"
  shows "\<exists>s. (load_step cfg)\<^sup>*\<^sup>* (load_init q) s \<and> ld_main s = MDone \<and> ld_stats s = zero_stats"
proof -
  let ?s0 = "load_init q"
  let ?s1 = "?s0\<lparr>ld_stop := True, ld_main := MJoin\<rparr>"
  let ?s2 = "?s1\<lparr>ld_prod := (ld_prod ?s1)(0 := PReturned 0)\<rparr>"
  let ?s3 = "?s2\<lparr>ld_cons := (ld_cons ?s2)(0 := CReturned)\<rparr>"
  let ?s4 = "?s3\<lparr>ld_main := MDrain\<rparr>"
  let ?s5 = "?s4\<lparr>ld_main := MDone\<rparr>"
  have "load_step cfg ?s0 ?s1" by (intro ls_main m_stop) (simp add: load_init_def)
  moreover have "load_step cfg ?s1 ?s2" using assms by (intro ls_producer [of 0] p_stop) (simp_all add: load_init_def)
  moreover have "load_step cfg ?s2 ?s3" using assms by (intro ls_consumer [of 0] c_stop) (simp_all add: load_init_def)
  moreover have "load_step cfg ?s3 ?s4" using assms by (intro ls_main m_join) (simp_all add: load_init_def)
  moreover have "load_step cfg ?s4 ?s5" by (intro ls_main m_done) (simp_all add: load_init_def zero_stats_def)
  ultimately have "(load_step cfg)\<^sup>*\<^sup>* ?s0 ?s5" by (meson converse_rtranclp_into_rtranclp rtranclp.rtrancl_refl)
  then show ?thesis by (intro exI [of _ ?s5]) (simp add: load_init_def)
qed

definition demo_env :: env where
  "demo_env = \<lparr>e_ParseDuration = (\<lambda>_. None), e_ParseFloat = (\<lambda>_. None), e_assign = (\<lambda>c. c\<lparr>producers := 1, consumers := 1\<rparr>),
     e_tmp = ''/tmp/loadtest-1.wal'', e_nflag = 2, e_tty = None, e_stdin = [], e_disk = (\<lambda>_. disk_ok []), e_clk = (\<lambda>_. 0),
     e_git = (\<lambda>_. None), e_timestamp = ''t'', e_dir = (\<lambda>_. ''bench''), e_mkdir = None, e_opn = None, e_encode = (\<lambda>_. Inr ''{}''),
     e_results = ''[]'', e_remove = None\<rparr>"


end
