(* ===== verification/Drain.thy ===== *)
theory Drain
  imports Workload
begin

section \<open>The drain can finish (workload.go, drain)\<close>

text \<open>
  The phase after the load window. As long as no lease ran out in the hands of a consumer, the queue is well formed when the drain
  starts, and then the drain can always still acknowledge every task that was produced: leases left by crashed deliveries expire
  and are swept, ready tasks are delivered and acknowledged, dead tasks are listed and revived.
\<close>

subsection \<open>Timely runs\<close>

text \<open>Every task that a consumer or the drain holds is still leased.\<close>

definition held_leased :: "load \<Rightarrow> bool" where
  "held_leased s \<longleftrightarrow>
     (\<forall>i p. ld_cons s i = CTask p \<or> ld_cons s i = CAcking p \<longrightarrow> indexOfInflight (ld_q s) (id_of (ld_q s) p) \<noteq> None) \<and>
     (\<forall>p a. ld_main s = MAcking p a \<longrightarrow> indexOfInflight (ld_q s) (id_of (ld_q s) p) \<noteq> None)"

definition timely_step :: "config \<Rightarrow> load \<Rightarrow> load \<Rightarrow> bool" where
  "timely_step cfg s s' \<longleftrightarrow> held_leased s \<and> load_step cfg s s'"

definition run_wf :: "load \<Rightarrow> bool" where
  "run_wf s \<longleftrightarrow> load_ok s \<and> queue_wf (ld_q s) \<and> (\<forall>i t. in_progress (ld_prod s i) = Some t \<longrightarrow> Status t = StateReady)"

lemma run_wf_producer:
  assumes "producer_step cfg i s s'" "run_wf s"
  shows "run_wf s'"
proof -
  have ok: "load_ok s'" using load_ok_producer [OF assms(1)] assms(2) by (simp add: run_wf_def)
  from assms(1) show ?thesis
  proof (cases rule: producer_step.cases)
    case (p_publish n t u q' d)
    have p: "in_progress (ld_prod s i) = Some t" "seq_of (ld_prod s i) = n" using p_publish(2) by simp_all
    have t: "fresh (ID t) (ld_q s)" "IdempotencyKey t = task_key i n" "Status t = StateReady"
      using assms(2) p unfolding run_wf_def load_ok_def tasks_new_def by blast+
    have "dedup (IdempotencyKey t) (ld_q s) = None"
      using next_key_unseen [of s i n] assms(2) p(2) t(2) by (simp add: run_wf_def)
    then have "queue_wf q'"
      using queue_wf_add [of "ld_q s" t] t assms(2) p_publish(3) by (simp add: run_wf_def enqueue_publish_eq)
    with ok assms(2) p_publish(1) show ?thesis by (auto simp: run_wf_def count_produced_def)
  next
    case (p_append n t rec io0 e w)
    have "in_progress (ld_prod s i) = Some t" using p_append(2) by simp
    with ok assms(2) p_append(1) show ?thesis by (auto simp: run_wf_def split: option.splits)
  qed (use ok assms(2) in \<open>auto simp: run_wf_def count_produced_def new_task_def\<close>)
qed

lemma run_wf_consumer:
  assumes "consumer_step cfg i s s'" "run_wf s" "held_leased s"
  shows "run_wf s'"
proof -
  have ok: "load_ok s'" using load_ok_consumer [OF assms(1)] assms(2) by (simp add: run_wf_def)
  have wf: "queue_wf (ld_q s)" using assms(2) by (simp add: run_wf_def)
  have prod: "ld_prod s' = ld_prod s" using assms(1) by (cases rule: consumer_step.cases) (simp_all add: apply_task_def)
  have lease: "indexOfInflight (ld_q s) (id_of (ld_q s) p) \<noteq> None" if "ld_cons s i = CTask p \<or> ld_cons s i = CAcking p" for p
    using assms(3) that unfolding held_leased_def by blast
  have "queue_wf (ld_q s')"
    using assms(1)
  proof (cases rule: consumer_step.cases)
    case (c_take now p q' d)
    with queue_wf_Dequeue [OF wf, of now] show ?thesis by simp
  next
    case (c_empty now q')
    with queue_wf_Dequeue [OF wf, of now] show ?thesis by simp
  next
    case (c_retry p k k' now rnd io0 q')
    with queue_wf_retryLocked [OF wf, of "id_of (ld_q s) p" now rnd io0] lease [of p] show ?thesis by (simp add: Retry_def)
  next
    case (c_retry_fails p k k' now rnd io0 e q')
    with queue_wf_retryLocked [OF wf, of "id_of (ld_q s) p" now rnd io0] lease [of p] show ?thesis by (simp add: Retry_def)
  next
    case (c_ack p io0 q' d)
    with queue_wf_Ack [OF wf, of "id_of (ld_q s) p" io0] lease [of p] show ?thesis by simp
  next
    case (c_ack_fails p io0 e q')
    with queue_wf_Ack [OF wf, of "id_of (ld_q s) p" io0] lease [of p] show ?thesis by simp
  qed (use wf in \<open>simp_all add: apply_task_def\<close>)
  with ok prod assms(2) show ?thesis by (simp add: run_wf_def)
qed

lemma run_wf_main:
  assumes "main_step cfg s s'" "run_wf s"
    and lease: "\<And>p a. ld_main s = MAcking p a \<Longrightarrow> indexOfInflight (ld_q s) (id_of (ld_q s) p) \<noteq> None"
  shows "run_wf s'"
proof -
  have ok: "load_ok s'" using load_ok_main [OF assms(1)] assms(2) by (simp add: run_wf_def)
  have wf: "queue_wf (ld_q s)" using assms(2) by (simp add: run_wf_def)
  have prod: "ld_prod s' = ld_prod s" using assms(1) by (cases rule: main_step.cases) (simp_all add: apply_task_def)
  have "queue_wf (ld_q s')"
    using assms(1)
  proof (cases rule: main_step.cases)
    case (m_take a now p q')
    with queue_wf_Dequeue [OF wf, of now] show ?thesis by (simp add: apply_task_def)
  next
    case (m_empty a now q')
    with queue_wf_Dequeue [OF wf, of now] show ?thesis by simp
  next
    case (m_ack p a io0 q')
    with queue_wf_Ack [OF wf, of "id_of (ld_q s) p" io0] lease [of p a] show ?thesis by simp
  next
    case (m_ack_fails p a io0 e q')
    with queue_wf_Ack [OF wf, of "id_of (ld_q s) p" io0] lease [of p a] show ?thesis by simp
  next
    case (m_requeue u us a io0 r q')
    with queue_wf_RequeueDead [OF wf, of io0 u] show ?thesis by simp
  qed (use wf in simp_all)
  with ok prod assms(2) show ?thesis by (simp add: run_wf_def)
qed

lemma run_wf_sweep:
  assumes "run_wf s"
  shows "run_wf (s\<lparr>ld_q := snd (Sweeper ss (ld_q s))\<rparr>)"
proof -
  have "load_ok (s\<lparr>ld_q := snd (Sweeper ss (ld_q s))\<rparr>)"
    by (rule load_ok_step [OF ls_sweep]) (use assms in \<open>simp add: run_wf_def\<close>)
  then show ?thesis using assms by (simp add: run_wf_def queue_wf_Sweeper)
qed

lemma run_wf_step: "load_step cfg s s' \<Longrightarrow> held_leased s \<Longrightarrow> run_wf s \<Longrightarrow> run_wf s'"
  by (induction rule: load_step.induct) (auto simp: held_leased_def intro: run_wf_producer run_wf_consumer run_wf_main run_wf_sweep)

interpretation timely: step_invariant "timely_step cfg" run_wf for cfg
  by unfold_locales (auto simp: timely_step_def intro: run_wf_step)

lemma run_wf_init: "run_wf (load_init (empty_queue w v sw m))"
  by (simp add: run_wf_def load_ok_init) (simp add: load_init_def queue_wf_empty)

subsection \<open>Progress\<close>

text \<open>\<open>can cfg s P\<close>: steps of the run lead from \<open>s\<close> to a well-formed state with \<open>P\<close>.\<close>

definition can :: "config \<Rightarrow> load \<Rightarrow> (load \<Rightarrow> bool) \<Rightarrow> bool" where
  "can cfg s P \<longleftrightarrow> (\<exists>s'. (load_step cfg)\<^sup>*\<^sup>* s s' \<and> run_wf s' \<and> P s')"

lemma can_here: "run_wf s \<Longrightarrow> P s \<Longrightarrow> can cfg s P"
  by (auto simp: can_def)

lemma can_step: "load_step cfg s s' \<Longrightarrow> can cfg s' P \<Longrightarrow> can cfg s P"
  unfolding can_def by (meson converse_rtranclp_into_rtranclp)

lemma can_trans: "can cfg s P \<Longrightarrow> (\<And>s'. run_wf s' \<Longrightarrow> P s' \<Longrightarrow> can cfg s' Q) \<Longrightarrow> can cfg s Q"
  unfolding can_def by (meson rtranclp_trans)

lemma main_can:
  assumes "main_step cfg s s'" "run_wf s" "\<And>p a. ld_main s \<noteq> MAcking p a" "run_wf s' \<Longrightarrow> can cfg s' P"
  shows "can cfg s P"
proof -
  have "run_wf s'" using run_wf_main [OF assms(1,2)] assms(3) by blast
  with can_step [OF ls_main [OF assms(1)]] assms(4) show ?thesis by blast
qed

abbreviation unfinished :: "load \<Rightarrow> nat" where
  "unfinished s \<equiv> card (filed (ld_q s))"

text \<open>A ready task is delivered when it is due, and the acknowledgement that follows succeeds.\<close>

lemma can_ack:
  assumes "run_wf s" "ld_main s = MInner a" "ready (ld_q s) \<noteq> []"
  shows "can cfg s (\<lambda>s'. ld_main s' = MInner True \<and> unfinished s' < unfinished s)"
proof -
  let ?q = "ld_q s"
  have wf: "queue_wf ?q" and ok: "queue_ok ?q" using assms(1) by (simp_all add: run_wf_def queue_wfD)
  obtain r q' where e: "Dequeue (AvailableAt (q_tasks ?q (hd (ready ?q)))) ?q = (r, q')" by force
  then obtain p where r: "r = Some p" and l: "indexOfInflight q' (id_of q' p) = Some p"
    by (cases rule: Dequeue_cases) (use assms(3) in \<open>auto simp: effect_defs\<close>)
  have wf': "queue_wf q'" using queue_wf_Dequeue [OF wf] e by (metis snd_conv)
  have same: "filed q' = filed ?q" using kept_Dequeue [OF ok e] by (simp add: kept_def)
  obtain q'' where a: "Ack io_ok (id_of q' p) q' = (None, q'')"
    using leased_live [OF wf' l] logged_ok by (force simp: Ack_def encodeAckPayload_def)
  note A = Ack_done [OF queue_wfD(1) [OF wf'] a]
  let ?s1 = "(apply_task p (s\<lparr>ld_q := q'\<rparr>))\<lparr>ld_main := MAcking p a, ld_stats := (ld_stats s)\<lparr>st_delivered := st_delivered (ld_stats s) + 1\<rparr>\<rparr>"
  let ?s2 = "?s1\<lparr>ld_q := q'', ld_main := MInner True, ld_stats := (ld_stats ?s1)\<lparr>st_acked := st_acked (ld_stats ?s1) + 1\<rparr>\<rparr>"
  have 1: "main_step cfg s ?s1" using assms(2) e r by (intro m_take) simp_all
  have 2: "main_step cfg ?s1 ?s2" using a by (intro m_ack) (simp_all add: apply_task_def)
  have "card (filed q'') < card (filed ?q)"
    using A(3,4) same finite_filed [OF ok] by (metis card_Diff1_less)
  moreover have "run_wf ?s1" using run_wf_main [OF 1 assms(1)] assms(2) by simp
  then have "run_wf ?s2" by (rule run_wf_main [OF 2]) (use l in \<open>simp add: apply_task_def\<close>)
  ultimately have "can cfg ?s2 (\<lambda>s'. ld_main s' = MInner True \<and> unfinished s' < unfinished s)" by (intro can_here) simp_all
  then show ?thesis by (rule can_step [OF ls_main [OF 1] can_step [OF ls_main [OF 2]]])
qed

text \<open>A lease that was left expires and is swept; the task is ready again or dead.\<close>

lemma ready_waiting: "queue_wf q \<Longrightarrow> p \<in> set (ready q) \<longleftrightarrow> (\<exists>i. index q i = Some p \<and> indexOfInflight q i = None)"
  using queue_wfD(2) by (simp add: ready_exact_def waiting_def)

lemma can_sweep:
  assumes "run_wf s" "indexOfInflight (ld_q s) i = Some p"
  shows "can cfg s (\<lambda>s'. ld_main s' = ld_main s \<and> filed (ld_q s') = filed (ld_q s) \<and> (ready (ld_q s') \<noteq> [] \<or> dlq (ld_q s') \<noteq> Map.empty))"
proof -
  let ?q = "ld_q s"
  let ?in = "\<lparr>sw_id = i, sw_check = LeaseUntil (q_tasks ?q p) + 1, sw_now = 0, sw_rnd = 0, sw_io = io_ok\<rparr>"
  let ?q' = "snd (Sweeper [?in] ?q)"
  have wf: "queue_wf ?q" using assms(1) by (simp add: run_wf_def)
  have "expired ?in ?q" using assms(2) by (simp add: expired_def)
  with Sweeper_retried [OF wf, of "[?in]" ?in] have "retried i ?q ?q'" by simp
  then have "ready ?q' \<noteq> [] \<or> dlq ?q' \<noteq> Map.empty"
    using ready_waiting [OF queue_wf_Sweeper [OF wf], of _ "[?in]"] unfolding retried_def
    by (metis empty_iff list.set(1) option.distinct(1))
  moreover have "filed ?q' = filed ?q" using kept_Sweeper [OF queue_wfD(1) [OF wf], of "[?in]"] by (simp add: kept_def)
  ultimately show ?thesis
    by (intro can_step [OF ls_sweep [of cfg s "[?in]"]] can_here run_wf_sweep assms(1)) simp_all
qed

text \<open>Reviving the listed tasks.\<close>

lemma revive_ready: "ready (revive u p q) \<noteq> []"
proof -
  have "p \<in> set (ready (revive u p q))" by (simp add: effect_defs)
  then show ?thesis by auto
qed

lemma RequeueDead_ready:
  assumes "RequeueDead i u q = (r, q')" "ready q \<noteq> []"
  shows "ready q' \<noteq> []"
  using assms(1) by (cases rule: RequeueDead_cases) (use assms(2) revive_ready in auto)

lemma can_requeue:
  assumes "run_wf s" "ld_main s = MRequeue us a" "ready (ld_q s) \<noteq> [] \<or> (\<exists>u \<in> set us. dlq (ld_q s) u \<noteq> None)"
  shows "can cfg s (\<lambda>s'. ld_main s' = MRequeue [] a \<and> ready (ld_q s') \<noteq> [] \<and> filed (ld_q s') = filed (ld_q s))"
  using assms
proof (induction us arbitrary: s)
  case Nil
  then show ?case by (intro can_here) simp_all
next
  case (Cons u us)
  let ?q = "ld_q s"
  have wf: "queue_wf ?q" using Cons.prems(1) by (simp add: run_wf_def)
  obtain r q' where e: "RequeueDead io_ok u ?q = (r, q')" by force
  have same: "filed q' = filed ?q" using kept_RequeueDead [OF queue_wfD(1) [OF wf] e] by (simp add: kept_def)
  have "ready q' \<noteq> [] \<or> (\<exists>u \<in> set us. dlq q' u \<noteq> None)"
  proof (cases "ready ?q \<noteq> []")
    case True
    with RequeueDead_ready [OF e] show ?thesis by blast
  next
    case False
    show ?thesis
    proof (cases "dlq ?q u")
      case None
      with e have "q' = ?q" by (simp add: RequeueDead_def)
      with False None Cons.prems(3) show ?thesis by auto
    next
      case (Some p)
      with e logged_ok [of "uuid_bytes u" OperationRequeue "revive u p" ?q] obtain w where "q' = revive u p (?q\<lparr>wal := w\<rparr>)"
        by (auto simp: RequeueDead_def encodeRequeuePayload_def)
      then show ?thesis using revive_ready by blast
    qed
  qed
  let ?s = "s\<lparr>ld_q := q', ld_main := MRequeue us a\<rparr>"
  have "main_step cfg s ?s" using Cons.prems(2) e by (intro m_requeue)
  then show ?case
  proof (rule main_can)
    assume "run_wf ?s"
    with Cons.IH [of ?s] \<open>ready q' \<noteq> [] \<or> _\<close> same
    show "can cfg ?s (\<lambda>s'. ld_main s' = MRequeue [] a \<and> ready (ld_q s') \<noteq> [] \<and> filed (ld_q s') = filed (ld_q s))" by simp
  qed (use Cons.prems in simp_all)
qed

lemma ListDeadTasks_ids:
  assumes "queue_ok q" "set order = dom (dlq q)"
  shows "set (map ID (ListDeadTasks order q)) = dom (dlq q)"
proof -
  have "id_of q (the (dlq q i)) = i" if "dlq q i \<noteq> None" for i using queue_okD(4) [OF assms(1)] that by auto
  then show ?thesis using assms(2) by (force simp: ListDeadTasks_def image_iff dom_def)
qed

text \<open>When nothing is ready the drain lists the dead tasks, revives them and starts over.\<close>

lemma can_revive:
  assumes "run_wf s" "ld_main s = MInner a" "ready (ld_q s) = []" "dlq (ld_q s) \<noteq> Map.empty"
  shows "can cfg s (\<lambda>s'. ld_main s' = MInner False \<and> ready (ld_q s') \<noteq> [] \<and> filed (ld_q s') = filed (ld_q s))"
proof -
  let ?q = "ld_q s"
  let ?P = "\<lambda>s'. ld_main s' = MInner False \<and> ready (ld_q s') \<noteq> [] \<and> filed (ld_q s') = filed ?q"
  have ok: "queue_ok ?q" using assms(1) by (simp add: run_wf_def queue_wfD)
  obtain order where o: "set order = dom (dlq ?q)" "distinct order"
    using finite_distinct_list [OF finite_points [OF queue_okD_points(2) [OF ok]]] by blast
  let ?ids = "map ID (ListDeadTasks order ?q)"
  let ?s1 = "s\<lparr>ld_q := ?q, ld_main := MList a\<rparr>" and ?s2 = "s\<lparr>ld_q := ?q, ld_main := MRequeue ?ids a\<rparr>"
  have "Dequeue 0 ?q = (None, ?q)" using assms(3) by (simp add: Dequeue_def)
  then have 1: "main_step cfg s ?s1" using assms(2) by (intro m_empty)
  have "main_step cfg ?s1 (?s1\<lparr>ld_main := MRequeue (map ID (ListDeadTasks order (ld_q ?s1))) a\<rparr>)"
    using o by (intro m_list) simp_all
  then have 2: "main_step cfg ?s1 ?s2" by simp
  have w2: "run_wf ?s2" using run_wf_main [OF 2 run_wf_main [OF 1 assms(1)]] assms(2) by simp
  have "\<exists>u \<in> set ?ids. dlq ?q u \<noteq> None"
    using ListDeadTasks_ids [OF ok o(1)] assms(4) by (metis domIff ex_in_conv dom_eq_empty_conv)
  then have "can cfg ?s2 (\<lambda>s'. ld_main s' = MRequeue [] a \<and> ready (ld_q s') \<noteq> [] \<and> filed (ld_q s') = filed (ld_q ?s2))"
    using can_requeue [of ?s2 ?ids a cfg, OF w2] by simp
  then have "can cfg ?s2 ?P"
  proof (rule can_trans)
    fix s' assume s': "run_wf s'" "ld_main s' = MRequeue [] a \<and> ready (ld_q s') \<noteq> [] \<and> filed (ld_q s') = filed (ld_q ?s2)"
    have "filed (ld_q s') \<noteq> {}"
      using s' ready_waiting [of "ld_q s'" "hd (ready (ld_q s'))"] by (auto simp: run_wf_def filed_def)
    moreover have "finite (filed (ld_q s'))" "counts_ok (ld_stats s') (ld_q s')"
      using s'(1) finite_filed by (auto simp: run_wf_def load_ok_def)
    ultimately have "0 < unfinished s'" "st_produced (ld_stats s') = st_acked (ld_stats s') + unfinished s'"
      by (simp_all add: counts_ok_def card_gt_0_iff)
    then have less: "st_acked (ld_stats s') < st_produced (ld_stats s')" by linarith
    let ?t1 = "s'\<lparr>ld_main := MDrain\<rparr>"
    have "main_step cfg s' ?t1" "main_step cfg ?t1 (?t1\<lparr>ld_main := MInner False\<rparr>)"
      using m_again [of s' a cfg] m_pass [of ?t1 cfg] s'(2) less by simp_all
    then show "can cfg s' ?P" using s' 
      by (intro main_can [of cfg s' ?t1] main_can [of cfg ?t1 "?t1\<lparr>ld_main := MInner False\<rparr>"] can_here) auto
  qed
  then show ?thesis by (intro can_step [OF ls_main [OF 1]] can_step [OF ls_main [OF 2]])
qed

text \<open>As long as a task is live or dead, one more can be acknowledged.\<close>

lemma can_progress:
  assumes "run_wf s" "ld_main s = MInner a" "filed (ld_q s) \<noteq> {}"
  shows "can cfg s (\<lambda>s'. (\<exists>b. ld_main s' = MInner b) \<and> unfinished s' < unfinished s)"
proof -
  have one: "can cfg t (\<lambda>s'. (\<exists>b. ld_main s' = MInner b) \<and> unfinished s' < unfinished t)"
    if t: "run_wf t" "ld_main t = MInner b" "ready (ld_q t) \<noteq> []" for t b
    by (rule can_trans [OF can_ack [OF t]]) (auto intro: can_here)
  have two: "can cfg t (\<lambda>s'. (\<exists>b. ld_main s' = MInner b) \<and> unfinished s' < unfinished t)"
    if t: "run_wf t" "ld_main t = MInner b" "ready (ld_q t) \<noteq> [] \<or> dlq (ld_q t) \<noteq> Map.empty" for t b
  proof (cases "ready (ld_q t) = []")
    case True
    with t have d: "dlq (ld_q t) \<noteq> Map.empty" by blast
    show ?thesis by (rule can_trans [OF can_revive [OF t(1,2) True d]]) (use one in force)
  qed (use one t in blast)
  show ?thesis
  proof (cases "ready (ld_q s) \<noteq> [] \<or> dlq (ld_q s) \<noteq> Map.empty")
    case False
    then have "index (ld_q s) \<noteq> Map.empty" using assms(3) by (auto simp: filed_def)
    then obtain i p where "index (ld_q s) i = Some p" by (metis ext option.exhaust)
    moreover have "queue_wf (ld_q s)" using assms(1) by (simp add: run_wf_def)
    ultimately obtain p' where "indexOfInflight (ld_q s) i = Some p'" using ready_waiting [of "ld_q s" p] False by fastforce
    from can_sweep [OF assms(1) this] show ?thesis by (rule can_trans) (use two assms(2) in force)
  qed (use two assms in blast)
qed

lemma can_finish:
  assumes "run_wf s" "ld_main s = MInner a" "filed (ld_q s) = {}"
  shows "can cfg s (\<lambda>s'. ld_main s' = MDone \<and> st_acked (ld_stats s') = st_produced (ld_stats s'))"
proof -
  let ?q = "ld_q s"
  have wf: "queue_wf ?q" and ct: "counts_ok (ld_stats s) ?q" using assms(1) by (simp_all add: run_wf_def load_ok_def)
  have empty: "index ?q = Map.empty" "dlq ?q = Map.empty" using assms(3) by (simp_all add: filed_def)
  have "ready ?q = []" using ready_waiting [OF wf, of "hd (ready ?q)"] empty by (cases "ready ?q") auto
  then have d: "Dequeue 0 ?q = (None, ?q)" by (simp add: Dequeue_def)
  let ?s1 = "s\<lparr>ld_q := ?q, ld_main := MList a\<rparr>"
  let ?s2 = "?s1\<lparr>ld_main := MRequeue (map ID (ListDeadTasks [] (ld_q ?s1))) a\<rparr>"
  let ?s3 = "?s2\<lparr>ld_main := MDrain\<rparr>"
  have acked: "st_acked (ld_stats s) = st_produced (ld_stats s)" using ct assms(3) by (simp add: counts_ok_def)
  have "main_step cfg s ?s1" using assms(2) d by (intro m_empty)
  moreover have "main_step cfg ?s1 ?s2" using empty by (intro m_list) simp_all
  moreover have "main_step cfg ?s2 ?s3" by (intro m_again [of _ a]) (simp add: ListDeadTasks_def)
  moreover have "main_step cfg ?s3 (?s3\<lparr>ld_main := MDone\<rparr>)" using acked by (intro m_done) simp_all
  ultimately show ?thesis using acked assms(2)
    by (intro main_can [of cfg s ?s1] main_can [of cfg ?s1 ?s2] main_can [of cfg ?s2 ?s3] main_can [of cfg ?s3 "?s3\<lparr>ld_main := MDone\<rparr>"] can_here assms(1)) simp_all
qed

lemma can_complete:
  assumes "run_wf s" "ld_main s = MInner a"
  shows "can cfg s (\<lambda>s'. ld_main s' = MDone \<and> st_acked (ld_stats s') = st_produced (ld_stats s'))"
  using assms
proof (induction "unfinished s" arbitrary: s a rule: less_induct)
  case less
  show ?case
  proof (cases "filed (ld_q s) = {}")
    case True
    with less.prems show ?thesis by (intro can_finish)
  next
    case False
    from can_progress [OF less.prems False] show ?thesis by (rule can_trans) (use less.hyps in blast)
  qed
qed


text \<open>A run that produces one task, which its consumer never gets to see before the window ends.\<close>

definition idle_hands :: "load \<Rightarrow> bool" where
  "idle_hands s \<longleftrightarrow> ld_main s = MWindow \<and> ld_cons s = (\<lambda>_. CLoop)"

lemma producer_timely:
  assumes "(producer_step cfg i)\<^sup>*\<^sup>* s s'" "idle_hands s" "i < nat (producers cfg)"
  shows "(timely_step cfg)\<^sup>*\<^sup>* s s'"
proof -
  have "(timely_step cfg)\<^sup>*\<^sup>* s s' \<and> idle_hands s'"
    using assms(1)
  proof (induction rule: rtranclp_induct)
    case (step t t')
    have "held_leased t" using step.IH by (simp add: idle_hands_def held_leased_def)
    then have "timely_step cfg t t'" using step.hyps(2) assms(3) by (simp add: timely_step_def ls_producer)
    moreover have "idle_hands t'" using step.hyps(2) step.IH
      by (cases rule: producer_step.cases) (simp_all add: idle_hands_def count_produced_def)
    ultimately show ?case using step.IH by (auto intro: rtranclp.rtrancl_into_rtrancl)
  qed (use assms(2) in simp)
  then show ?thesis ..
qed

lemma demo_drain:
  assumes "producers cfg = 1" "consumers cfg = 1"
  shows "\<exists>s. (timely_step cfg)\<^sup>*\<^sup>* (load_init (empty_queue \<lparr>wal_file = [], wal_synced = 0, wal_offset = 0\<rparr> vis sweep maxr)) s \<and>
    ld_main s = MDrain \<and> st_produced (ld_stats s) = 1 \<and> st_acked (ld_stats s) = 0"
proof -
  let ?i = "load_init (empty_queue \<lparr>wal_file = [], wal_synced = 0, wal_offset = 0\<rparr> vis sweep maxr)"
  obtain s where s: "(producer_step cfg 0)\<^sup>*\<^sup>* ?i s" "st_produced (ld_stats s) = 1" "st_acked (ld_stats s) = 0"
    "ld_cons s = (\<lambda>_. CLoop)" "ld_prod s 0 = PLoop 1" "ld_main s = MWindow"
    using demo_produce [of cfg vis sweep maxr] by blast
  let ?s1 = "s\<lparr>ld_stop := True, ld_main := MJoin\<rparr>"
  let ?s2 = "?s1\<lparr>ld_prod := (ld_prod ?s1)(0 := PReturned 1)\<rparr>"
  let ?s3 = "?s2\<lparr>ld_cons := (ld_cons ?s2)(0 := CReturned)\<rparr>"
  let ?s4 = "?s3\<lparr>ld_main := MDrain\<rparr>"
  have "held_leased s" "held_leased ?s1" "held_leased ?s2" "held_leased ?s3" using s by (simp_all add: held_leased_def)
  moreover have "load_step cfg s ?s1" using s by (intro ls_main m_stop)
  moreover have "load_step cfg ?s1 ?s2" using s assms by (intro ls_producer [of 0] p_stop) simp_all
  moreover have "load_step cfg ?s2 ?s3" using s assms by (intro ls_consumer [of 0] c_stop) simp_all
  moreover have "load_step cfg ?s3 ?s4" using assms by (intro ls_main m_join) simp_all
  ultimately have "timely_step cfg s ?s1" "timely_step cfg ?s1 ?s2" "timely_step cfg ?s2 ?s3" "timely_step cfg ?s3 ?s4"
    by (simp_all only: timely_step_def)
  moreover have "(timely_step cfg)\<^sup>*\<^sup>* ?i s"
    using producer_timely [OF s(1)] assms by (simp add: idle_hands_def load_init_def)
  ultimately have "(timely_step cfg)\<^sup>*\<^sup>* ?i ?s4" by (meson rtranclp.rtrancl_into_rtrancl)
  then show ?thesis using s by (intro exI [of _ ?s4]) simp
qed


end
