(* ===== verification/Task_String.thy ===== *)
theory Task_String
  imports Task Decimal
begin

section \<open>Tasks as text (Task.String, fmtTime)\<close>

text \<open>
  How a task is rendered. The text of a UUID and the RFC 3339 text of an instant belong to the libraries and are arguments.
\<close>

definition fmtTime :: "(time \<Rightarrow> string) \<Rightarrow> time \<Rightarrow> string" where
  "fmtTime rfc3339 ts = (if ts = zeroTime then ''-'' else rfc3339 ts)"

definition nl :: string where
  "nl = [CHR 0x0A]"

definition Task_String :: "(uuid \<Rightarrow> string) \<Rightarrow> (time \<Rightarrow> string) \<Rightarrow> Task \<Rightarrow> string" where
  "Task_String uuid_str rfc3339 t =
     (let owner = (if Owner t = [] then ''-'' else Owner t)
      in ''Task '' @ uuid_str (ID t) @ nl @
         ''  Status:       '' @ TaskState_String (Status t) @ nl @
         ''  Retries:      '' @ Itoa (Retries t) @ nl @
         ''  Priority:     '' @ Itoa (Priority t) @ nl @
         ''  Payload:      '' @ Itoa (int (length (Payload t))) @ '' bytes'' @ nl @
         ''  IdempKey:     '' @ IdempotencyKey t @ nl @
         ''  Owner:        '' @ owner @ nl @
         ''  EnqueuedAt:   '' @ fmtTime rfc3339 (EnqueuedAt t) @ nl @
         ''  AvailableAt:  '' @ fmtTime rfc3339 (AvailableAt t) @ nl @
         ''  LeaseUntil:   '' @ fmtTime rfc3339 (LeaseUntil t) @ nl @
         ''  FailedAt:     '' @ fmtTime rfc3339 (FailedAt t))"

text \<open>An unset time is never shown as a date, and never as nothing.\<close>

lemma fmtTime_dash: "(\<And>x. rfc3339 x \<noteq> ''-'') \<Longrightarrow> fmtTime rfc3339 ts = ''-'' \<longleftrightarrow> ts = zeroTime"
  by (simp add: fmtTime_def)

end
