(* ===== verification/Spec2Isabelle.thy ===== *)
theory Spec2Isabelle
  imports Scenario Lifecycle Taskq Output Drain Task_String
begin

text \<open>
  \<^bold>\<open>A verified model of the durable task queue\<close>

  The program is a task queue whose state is rebuilt from a write-ahead log, written in Go. Producers
  enqueue tasks under idempotency keys; consumers dequeue them under a lease and acknowledge or retry them; a
  background sweeper retries tasks whose lease expired; a task that fails too often moves to a dead-letter queue. Every
  mutation except the lease is appended to the log and synced before it changes the memory. A load test and a demo program
  drive the queue.

  \<^bold>\<open>Parts and theories.\<close> Definitions carry the names of the source; each theory opens with how its model reads.

  \<^item> \<^verbatim>\<open>Prelude\<close>: machine types, the errors the code returns, the big-endian codec of \<^verbatim>\<open>encoding/binary\<close>, strings as bytes,
    instants, generic lemmas. \<^verbatim>\<open>Crc32\<close>: the table-driven CRC-32 the frames use, and that it detects a changed byte.
    \<^verbatim>\<open>Bin_Heap\<close>: \<^verbatim>\<open>container/heap\<close> (Init, Push, Pop with their sift loops) over an order given as a locale.
  \<^item> \<^verbatim>\<open>Task\<close>, \<^verbatim>\<open>Task_String\<close>, \<^verbatim>\<open>Decimal\<close>: \<^verbatim>\<open>internal/queue/task.go\<close> and the decimal text it and the load test use.
  \<^item> \<^verbatim>\<open>Ready_Heap\<close>: \<^verbatim>\<open>heap.go\<close>, the interpretation of the heap interface by \<^verbatim>\<open>readyHeap.Less\<close>.
  \<^item> \<^verbatim>\<open>Log_Record\<close>: \<^verbatim>\<open>record.go\<close>, every encoder and decoder byte for byte.
  \<^item> \<^verbatim>\<open>Wal\<close>: frames, batches, fsync and replay of \<^verbatim>\<open>wal.go\<close>, with the outcome of each disk call as an input. \<^verbatim>\<open>Writer\<close>: the
    goroutine \<^verbatim>\<open>run\<close>, \<^verbatim>\<open>Append\<close> and \<^verbatim>\<open>Close\<close> as a step relation over the request channel.
  \<^item> \<^verbatim>\<open>Backoff\<close>, \<^verbatim>\<open>Queue\<close>: \<^verbatim>\<open>queue.go\<close>. The state is a record with the tasks in an explicit memory, because the heap and
    the maps share pointers; one function per operation, with ids, clock readings, random draws, disk outcomes and map iteration orders
    as arguments. \<^verbatim>\<open>Lifecycle\<close>: \<^verbatim>\<open>runSweeper\<close> and \<^verbatim>\<open>Queue.Close\<close> as steps together with the writer.
  \<^item> \<^verbatim>\<open>Queue_Inv\<close>, \<^verbatim>\<open>Delivery\<close>: the invariants of the queue, for all clients and for clients that acknowledge only what they hold.
    \<^verbatim>\<open>Ledger\<close>: the abstract specification, what is live, dead, and known by key, with one operation per kind of
    record. \<^verbatim>\<open>Recovery\<close>: replay implements the ledger. \<^verbatim>\<open>System\<close>: interleaved phases of enqueues, all other calls, crashes and
    restarts. \<^verbatim>\<open>Anomalies\<close>: behaviours that break what the comments promise. \<^verbatim>\<open>Scenario\<close>: a small run the witnesses use.
  \<^item> \<^verbatim>\<open>Config\<close>: \<^verbatim>\<open>cmd/loadtest/main.go\<close> and \<^verbatim>\<open>wizard.go\<close>. \<^verbatim>\<open>Metrics\<close>: \<^verbatim>\<open>metrics.go\<close> with its float64 arithmetic.
    \<^verbatim>\<open>Workload\<close>: \<^verbatim>\<open>store.go\<close> and \<^verbatim>\<open>workload.go\<close>, all goroutines of a run as one step relation. \<^verbatim>\<open>Drain\<close>: that
    the drain can finish. \<^verbatim>\<open>Results\<close>: \<^verbatim>\<open>results.go\<close> and the exit code. \<^verbatim>\<open>Text_Format\<close>: what is used of \<^verbatim>\<open>utf8\<close>, \<^verbatim>\<open>fmt\<close>,
    \<^verbatim>\<open>time.Duration\<close> and \<^verbatim>\<open>text/tabwriter\<close>. \<^verbatim>\<open>Output\<close>: \<^verbatim>\<open>output.go\<close> byte for byte, and \<^verbatim>\<open>realMain\<close>, which composes configuration,
    \<^verbatim>\<open>NewQueue\<close>, the run, its output, the record and the exit code. \<^verbatim>\<open>Taskq\<close>: \<^verbatim>\<open>cmd/taskq\<close>.

  \<^bold>\<open>Interfaces\<close> are locales, interpreted on the model: the strict weak order a heap needs and the priority queue it gives
  (\<open>weak_order\<close>, \<open>prio_queue\<close>), the codecs and the UUID library (\<open>codec\<close>, \<open>uuid_lib\<close>), the durable log the queue relies on
  (\<open>durable_log\<close>), and invariants and simulations of step relations (\<open>step_invariant\<close>, \<open>step_simulation\<close>), with which the shutdown
  inherits what the writer guarantees.

  \<^bold>\<open>What is shown.\<close>

  \<^item> Durability. In every reachable state the log is a history of the memory; opening it rebuilds the ledger, also after a torn last
    frame. Replay is a fold over the appended records; a cut log replays as a prefix; a changed byte is detected; records round-trip.
    The operations and \<^verbatim>\<open>applyRecord\<close> refine the ledger.
  \<^item> The queue. Ids and keys are unique and no task is lost under any calls and disk faults; errors leave the memory alone;
    delivery takes a minimal due task; a sweep ends exactly the expired leases; retries are bounded; enqueues are idempotent also when
    they race; dead tasks can be listed, revived and purged.
  \<^item> The goroutines. An append that reports success is durable, answers come in order, every append on the open log is
    answered; the shutdown closes in order and a quiet one cannot get stuck.
  \<^item> The load test. Conservation of tasks in every interleaving, and a verdict that passes exactly when every produced task was
    acknowledged; a drain that can always finish when no lease ran out in a consumer's hands; exact percentiles in spite of
    floating point; a throughput accurate to \<open>2 ^ -48\<close>; valid configurations; an exit code, a record and printed marks that agree with the
    run; aligned tables. The demo program ends and processes every task once.
  \<^item> Where the code falls short, a theorem exhibits it: a torn frame that is appended after, a failed fsync whose frame stays, two
    enqueues racing on a key, an acknowledgement after a sweep, and \<^verbatim>\<open>Close\<close> while a request is queued.

  \<^bold>\<open>Inputs, bounds, recursion.\<close> No fuel is used: every loop of the code is a structural or well-founded recursion (replay shortens
  its input, the heap loops move towards the root or a leaf, the demo's loop empties the heap) or a step relation. Integers of the
  wire format are words; counters and retries are unbounded, with the range the format needs as an invariant. Float64
  is exact dyadic arithmetic with rounding to 53 bits. The percentile theorem holds up to \<open>2 ^ 45\<close> samples, where the rank cannot be off by one. The
  UUID library appears as an argument (\<^verbatim>\<open>uuid.FromBytes\<close>, with the contract \<open>uuid_lib\<close>) and as new ids in the steps.

  \<^bold>\<open>Not modelled.\<close> What the wizard, the demo program and the log package print. The JSON encoding of a result, the git commands, the
  parsing of flags, durations and floats are library code and appear as arguments. The sign of a zero in a printed fraction, and
  the escape byte of \<^verbatim>\<open>tabwriter\<close>, are not represented. A run of the load test in which the drain does not end has no outcome. Memory
  exhaustion and the scheduling of goroutines beyond interleaving are outside the model.
\<close>

section \<open>Durability\<close>

text \<open>C1. Recovery. Take any state the system can reach by interleaving any number of enqueues, the other
  calls of any clients (disciplined or not), sweeps, failed appends that wrote nothing, crashes and
  restarts, as long as no two enqueues in progress compete for a key. Opening the queue on the log file
  of that state succeeds, for every configuration and every clock; the rebuilt queue is well formed with
  every live task ready and nothing leased; and its live tasks, dead tasks, retry counts, keys and used
  ids are exactly those of the memory, plus the tasks whose record was written and that were about to be
  published.\<close>

theorem recovery:
  assumes "uuid_lib fb" "reachable fb s"
  shows "\<exists>q. NewQueue fb clk (disk_ok (wal_file (wal (sys_q s)))) vis sweep maxr = Inr q \<and> queue_wf q \<and>
    indexOfInflight q = Map.empty \<and> abs_ledger q = add_tasks (written s) (abs_ledger (sys_q s))"
proof -
  have "history (wal (sys_q s)) (add_tasks (written s) (abs_ledger (sys_q s)))"
    using uuid_lib.reachable_sys_ok [OF assms] by (simp add: sys_ok_def tracks_def)
  from uuid_lib.history_recovers [OF assms(1) this, of clk vis sweep maxr] show ?thesis by blast
qed

theorem recovery_witness:
  "\<exists>q. NewQueue FromBytes_copy (\<lambda>_. 400) (disk_ok (wal_file (wal demo2))) 5 1 3 = Inr q \<and> queue_wf q \<and>
    indexOfInflight q = Map.empty \<and> abs_ledger q = abs_ledger demo2"
  using recovery [OF uuid_copy.uuid_lib_axioms demo_reachable(3), of "\<lambda>_. 400" 5 1 3] by simp

text \<open>C2. A crash in the middle of an append. When the file of a reachable state is followed by any proper
  prefix of any frame, opening the queue still succeeds and recovers the same ledger: a torn last record
  is dropped and nothing else is lost.\<close>

theorem recovery_torn:
  assumes "uuid_lib fb" "reachable fb s" "fits rec" "n < length (frame_of rec)"
  shows "\<exists>q. NewQueue fb clk (disk_ok (wal_file (wal (sys_q s)) @ take n (frame_of rec))) vis sweep maxr = Inr q \<and>
    queue_wf q \<and> abs_ledger q = add_tasks (written s) (abs_ledger (sys_q s))"
proof -
  have "history (wal (sys_q s)) (add_tasks (written s) (abs_ledger (sys_q s)))"
    using uuid_lib.reachable_sys_ok [OF assms(1,2)] by (simp add: sys_ok_def tracks_def)
  from uuid_lib.history_recovers_torn [OF assms(1) this assms(3,4), of clk vis sweep maxr] show ?thesis by blast
qed

theorem recovery_torn_witness:
  "\<exists>q. NewQueue FromBytes_copy (\<lambda>_. 400) (disk_ok (wal_file (wal demo1) @ take 11 (frame_of (OperationAck # uuid_bytes 7)))) 5 1 3 = Inr q \<and>
    queue_wf q \<and> abs_ledger q = abs_ledger demo1"
  using recovery_torn [OF uuid_copy.uuid_lib_axioms demo_reachable(2), of "OperationAck # uuid_bytes 7" 11 "\<lambda>_. 400" 5 1 3]
  by (simp add: fits_def)

text \<open>C3. \<^verbatim>\<open>applyRecord\<close> refines the ledger: on a queue under replay, a record that has a meaning for the ledger
  is applied without an error or a panic, keeps the invariant of replay, and changes the ledger exactly as
  the record says.\<close>

theorem applyRecord_refines:
  assumes "uuid_lib fb" "record_of pl = Inr r" "payload_ok pl" "replay_wf q" "ledger_apply pl (abs_ledger q) = Some l"
  shows "\<exists>q'. applyRecord fb now r q = Inr q' \<and> replay_wf q' \<and> abs_ledger q' = l"
  using uuid_lib.applyRecord_implements [OF assms(1-4), of now] assms(5) unfolding implements_def by blast

theorem applyRecord_refines_witness:
  "\<exists>q'. applyRecord FromBytes_copy 1 (OperationEnqueue # uuid_bytes 7 @ putUint32 0 @ putUint32 0 @ putUint64 9 @ putUint32 0)
      demo0 = Inr q' \<and> replay_wf q' \<and>
    abs_ledger q' = \<lparr>l_live = [7 \<mapsto> \<lparr>dt_Payload = [], dt_Key = [], dt_EnqueuedAt = 9, dt_Priority = 0, dt_Retries = 0\<rparr>],
      l_dead = Map.empty, l_keys = Map.empty, l_used = {7}\<rparr>"
proof -
  let ?p = "\<lparr>enq_ID = 7, enq_IdempotencyKey = [], enq_Payload = [], enq_EnqueuedAt = 9, enq_Priority = 0\<rparr>"
  have "record_of (PEnqueue ?p) = Inr (OperationEnqueue # uuid_bytes 7 @ putUint32 0 @ putUint32 0 @ putUint64 9 @ putUint32 0)"
    by (simp add: record_of_def encodeRecord_def encodeEnqueuePayload_def UnixNano_def string_bytes_def)
  moreover have "payload_ok (PEnqueue ?p)" by (simp add: EnqueuePayload_ok_def in_int64_def)
  moreover have "replay_wf demo0" by (simp add: demo0_def start_def replay_wf_empty)
  moreover have "ledger_apply (PEnqueue ?p) (abs_ledger demo0) = Some \<lparr>l_live = [7 \<mapsto> \<lparr>dt_Payload = [], dt_Key = [],
      dt_EnqueuedAt = 9, dt_Priority = 0, dt_Retries = 0\<rparr>], l_dead = Map.empty, l_keys = Map.empty, l_used = {7}\<rparr>"
    by (simp add: demo0_def start_def abs_ledger_empty) (simp add: empty_ledger_def)
  ultimately show ?thesis using applyRecord_refines [OF uuid_copy.uuid_lib_axioms] by blast
qed



section \<open>Invariants\<close>

text \<open>C5. Whatever sequence of calls any clients make on a new queue, with any disk behaviour, any clock and any
  random draws: the maps point to allocated tasks filed under their own id; no id is live and dead at
  once; every live task is in the ready heap or leased; no two tasks share an id or a non-empty
  idempotency key; and a live task never has more retries than the limit.\<close>

theorem run_invariant:
  assumes "run cs (empty_queue w vis sweep maxr) q"
  shows "queue_ok q \<and> retry_bound q"
proof -
  have "queue_ok q \<and> retry_bound q" if "run cs q0 q" "queue_ok q0 \<and> retry_bound q0" for q0
    using that by (induction rule: run.induct) (simp_all add: queue_ok_exec retry_bound_exec)
  moreover have "retry_bound (empty_queue w vis sweep maxr)" by (simp add: retry_bound_def empty_queue_def)
  ultimately show ?thesis using assms by (simp add: queue_ok_empty)
qed

theorem run_invariant_witness: "queue_ok demo2 \<and> retry_bound demo2"
proof -
  have "run [CEnqueue 7 100 io_ok [1, 2] ''k'', CDequeue 200] demo0 demo2"
    by (simp add: run_Cons_iff run_Nil_iff demo0_wf demo1_def demo2_def)
  then show ?thesis unfolding demo0_def start_def by (intro run_invariant) simp
qed

text \<open>C6. When clients acknowledge and retry only tasks they hold on lease, every call also keeps the stronger
  invariant: the ready heap holds exactly the live tasks without a lease, each once and in heap order,
  leases are held on live tasks only, and the status of every task agrees with the collection it is in.\<close>

theorem disciplined_invariant:
  assumes "queue_wf q" "mints_fresh c q" "disciplined c q"
  shows "queue_wf (exec c q)"
  using assms by (rule queue_wf_exec)

theorem disciplined_invariant_witness: "queue_wf (exec (CAck io_ok 7) demo2)"
  by (rule disciplined_invariant) (simp_all add: demo2_simps)

section \<open>Delivery\<close>







text \<open>C10. A retry of a live task on a working disk always succeeds and ends its lease. Up to the limit the task
  stays live and goes back to the ready heap with one more retry, available between now and 30 seconds
  from now; beyond the limit it leaves the live tasks for the dead-letter queue, with the failure time
  and the final count recorded.\<close>

theorem retry_outcome:
  assumes "index q i = Some p" "0 \<le> Retries (q_tasks q p)" "rnd < 2 ^ 53"
  shows "\<exists>q'. Retry now rnd io_ok i q = (None, q') \<and> indexOfInflight q' i = None \<and>
    Retries (q_tasks q' p) = Retries (q_tasks q p) + 1 \<and>
    (if Retries (q_tasks q p) + 1 > maxRetries q
     then index q' i = None \<and> dlq q' i = Some p \<and> Status (q_tasks q' p) = StateDead \<and> FailedAt (q_tasks q' p) = now
     else index q' i = Some p \<and> p \<in> set (ready q') \<and> Status (q_tasks q' p) = StateReady \<and>
       now \<le> AvailableAt (q_tasks q' p) \<and> AvailableAt (q_tasks q' p) < now + 30 * 10 ^ 9)"
proof -
  have "0 \<le> generateBackoff (Retries (q_tasks q p)) rnd" "generateBackoff (Retries (q_tasks q p)) rnd < 30 * 10 ^ 9"
    using generateBackoff_bounds [OF assms(2,3)] backoff_ceiling_le [of "nat (Retries (q_tasks q p))"]
    by (simp_all add: maxDelay_def)
  moreover obtain w where "Retry now rnd io_ok i q =
      (None, if Retries (q_tasks q p) + 1 > maxRetries q then die now i p (q\<lparr>wal := w\<rparr>)
             else back_to_ready now rnd i p (q\<lparr>wal := w\<rparr>))"
    using retryLocked_ok [OF assms(1)] unfolding Retry_def by metis
  ultimately show ?thesis using assms(1) by (simp add: effect_defs)
qed

theorem retry_outcome_witness:
  "\<exists>q'. Retry 300 12345 io_ok 7 demo2 = (None, q') \<and> index q' 7 = Some 0 \<and> 0 \<in> set (ready q') \<and>
     Retries (q_tasks q' 0) = 1"
  using retry_outcome [of demo2 7 0 12345 300] by (auto simp: demo2_simps)

section \<open>Errors\<close>

text \<open>C11. Every logged operation fails closed: when it reports an error, whether the task is unknown or the
  log could not be written or synced, the memory is exactly as before. What was durable in the log is
  still there, and the file has at most grown.\<close>

theorem operations_fail_closed:
  "(Enqueue new now i pl k q = (Inl e, q') \<longrightarrow> fails_closed q q') \<and>
   (Ack i id0 q = (Some e, q') \<longrightarrow> fails_closed q q') \<and>
   (Retry now rnd i id0 q = (Some e, q') \<longrightarrow> fails_closed q q') \<and>
   (RequeueDead i id0 q = (Some e, q') \<longrightarrow> fails_closed q q') \<and>
   (PurgeDeadTask i id0 q = (Some e, q') \<longrightarrow> fails_closed q q')"
  unfolding Retry_def
  by (auto elim!: Enqueue_cases Ack_cases retryLocked_cases RequeueDead_cases PurgeDeadTask_cases intro: fails_closedI)

theorem operations_fail_closed_witness:
  "\<exists>q'. Ack \<lparr>io_write = WriteErr 3 (ErrOS 5), io_sync = None\<rparr> 7 demo2 = (Some (ErrOS 5), q') \<and> fails_closed demo2 q'"
proof -
  obtain q' where "Ack \<lparr>io_write = WriteErr 3 (ErrOS 5), io_sync = None\<rparr> 7 demo2 = (Some (ErrOS 5), q')"
    by (simp add: Ack_def demo2_simps encodeAckPayload_def logged_def Append_def run_batch_def encodeFrame_frame_of)
  with operations_fail_closed show ?thesis by blast
qed

section \<open>Deduplication\<close>



text \<open>C13. Competing enqueues: in every interleaving of the phases of any number of enqueues with all other
  calls, races on a key included, the memory of a running queue never holds two tasks with the same
  non-empty key or the same id: the second check under the mutex lets one of them through.\<close>

theorem one_task_per_key:
  assumes "istep\<^sup>*\<^sup>* (start vis sweep maxr) s" "p < q_next (sys_q s)" "p' < q_next (sys_q s)" "p \<noteq> p'"
  shows "ID (q_tasks (sys_q s) p) \<noteq> ID (q_tasks (sys_q s) p') \<and>
    (IdempotencyKey (q_tasks (sys_q s) p) \<noteq> [] \<longrightarrow>
     IdempotencyKey (q_tasks (sys_q s) p) \<noteq> IdempotencyKey (q_tasks (sys_q s) p'))"
proof -
  have "queue_ok (sys_q s)" using race_ok_isteps [OF assms(1) race_ok_start] by (simp add: race_ok_def)
  then have "unique_ids (sys_q s)" "keys_ok (sys_q s)" by (simp_all add: queue_ok_def)
  with assms(2-4) show ?thesis
    unfolding unique_ids_def keys_ok_def by (metis option.inject)
qed

theorem one_task_per_key_witness:
  "ID (q_tasks demo3 0) \<noteq> ID (q_tasks demo3 1) \<and> IdempotencyKey (q_tasks demo3 0) \<noteq> IdempotencyKey (q_tasks demo3 1)"
  using one_task_per_key [OF demo3_steps, of 0 1] by (simp add: demo3_simps)

section \<open>The dead-letter queue\<close>

text \<open>C25. \<^verbatim>\<open>ListDeadTasks\<close> returns each dead task exactly once, the most recent failure first, whatever order the
  map is iterated in; \<^verbatim>\<open>DLQLen\<close> is the length of that list.\<close>

theorem dead_tasks_listed:
  assumes "queue_ok q" "distinct order" "set order = dom (dlq q)"
  shows "sorted_wrt (\<lambda>t t'. FailedAt t' \<le> FailedAt t) (ListDeadTasks order q) \<and>
    mset (ListDeadTasks order q) = image_mset (\<lambda>i. q_tasks q (the (dlq q i))) (mset_set (dom (dlq q))) \<and>
    length (ListDeadTasks order q) = DLQLen q"
proof -
  let ?f = "\<lambda>i. q_tasks q (the (dlq q i))"
  have l: "ListDeadTasks order q = sort_key (\<lambda>t. - FailedAt t) (map ?f order)"
    using assms(3) by (simp add: ListDeadTasks_def filter_id_conv dom_def)
  have m: "mset order = mset_set (dom (dlq q))" using assms(2,3) by (metis mset_set_set)
  have "sorted (map (\<lambda>t. - FailedAt t) (ListDeadTasks order q))" unfolding l by (rule sorted_sort_key)
  then have "sorted_wrt (\<lambda>t t'. FailedAt t' \<le> FailedAt t) (ListDeadTasks order q)" by (simp add: sorted_map)
  moreover have "mset (ListDeadTasks order q) = image_mset ?f (mset_set (dom (dlq q)))" by (simp add: l flip: m)
  moreover have "length (ListDeadTasks order q) = DLQLen q"
    using distinct_card [OF assms(2)] assms(3) by (simp add: l DLQLen_def)
  ultimately show ?thesis by blast
qed

theorem dead_tasks_listed_witness:
  "mset (ListDeadTasks [7] demo4) = {#q_tasks demo4 0#} \<and> DLQLen demo4 = 1"
  using dead_tasks_listed [OF queue_wfD(1) [OF demo4_simps(1)], of "[7]"]
  by (simp add: demo4_simps(2) DLQLen_def)

lemma revival:
  assumes "queue_wf q" "dlq q i = Some p" "zeroTime \<le> now"
  shows "\<exists>q'. RequeueDead io_ok i q = (None, q') \<and> queue_wf q' \<and> index q' i = Some p \<and> p \<in> set (ready q') \<and>
    q_tasks q' p = (q_tasks q p)\<lparr>Status := StateReady, Retries := 0, AvailableAt := zeroTime, FailedAt := zeroTime\<rparr> \<and>
    fst (Dequeue now q') \<noteq> None \<and> RequeueDead io2 i q' = (Some (ErrNotFoundDLQ i), q') \<and>
    DeadTask i q' = Inl (ErrNotFoundDLQ i)"
proof -
  obtain w where e: "RequeueDead io_ok i q = (None, revive i p (q\<lparr>wal := w\<rparr>))"
    using assms(2) logged_ok [of "uuid_bytes i" OperationRequeue "revive i p" q]
    by (auto simp: RequeueDead_def encodeRequeuePayload_def)
  let ?q = "revive i p (q\<lparr>wal := w\<rparr>)"
  have wf: "queue_wf ?q" using assms(1,2) by (intro queue_wf_revive) simp_all
  have r: "p \<in> set (ready ?q)" "AvailableAt (q_tasks ?q p) = zeroTime" by (simp_all add: effect_defs)
  with assms(3) have "fst (Dequeue now ?q) \<noteq> None" using Dequeue_None_iff [OF wf, of now] by fastforce
  moreover have "q_tasks ?q p = (q_tasks q p)\<lparr>Status := StateReady, Retries := 0, AvailableAt := zeroTime, FailedAt := zeroTime\<rparr>"
    "index ?q i = Some p" "dlq ?q i = None" by (simp_all add: effect_defs)
  ultimately show ?thesis using e wf r(1) by (auto simp: RequeueDead_def DeadTask_def)
qed

lemma purging:
  assumes "queue_wf q" "dlq q i = Some p"
  shows "\<exists>q'. PurgeDeadTask io_ok i q = (None, q') \<and> queue_wf q' \<and> index q' i = None \<and> dlq q' = (dlq q)(i := None) \<and>
    index q' = index q \<and> q_tasks q' = q_tasks q \<and> ready q' = ready q \<and>
    (IdempotencyKey (q_tasks q p) \<noteq> [] \<longrightarrow>
       Enqueue new now io2 pl (IdempotencyKey (q_tasks q p)) q' = (Inr i, q'))"
proof -
  obtain w where e: "PurgeDeadTask io_ok i q = (None, purge_done i (q\<lparr>wal := w\<rparr>))"
    using assms(2) logged_ok [of "uuid_bytes i" OperationPurge "purge_done i" q]
    by (auto simp: PurgeDeadTask_def encodePurgePayload_def)
  note ok = queue_wfD(1) [OF assms(1)]
  have "IdempotencyKey (q_tasks q p) \<noteq> [] \<Longrightarrow> indexOfIdemKeys q (IdempotencyKey (q_tasks q p)) = Some p"
    using queue_okD_points(4) [OF ok] queue_okD(3) [OF ok assms(2)] by (simp add: keys_ok_def)
  then have "IdempotencyKey (q_tasks q p) \<noteq> [] \<longrightarrow>
      Enqueue new now io2 pl (IdempotencyKey (q_tasks q p)) (purge_done i (q\<lparr>wal := w\<rparr>)) = (Inr i, purge_done i (q\<lparr>wal := w\<rparr>))"
    using queue_okD(4) [OF ok assms(2)] by (simp add: Enqueue_def dedup_def purge_done_def)
  with e assms queue_okD(9) [OF ok assms(2)] show ?thesis
    by (auto simp: queue_wf_purge) (simp_all add: purge_done_def)
qed



section \<open>Where the guarantees end\<close>

text \<open>C36. A torn tail is never truncated. If a crash left the first byte of a frame at the end of the log, the
  queue opens and accepts an acknowledgement, which is appended and synced after that byte; the next restart
  stops reading at the torn byte and the acknowledged task is live again.\<close>

theorem acknowledged_task_returns_after_torn_tail:
  assumes "uuid_lib fb" "reachable fb s" "written s = []" "index (sys_q s) i = Some p" "length rec < 2 ^ 24"
  shows "\<exists>q q2 q3. NewQueue fb clk (disk_ok (wal_file (wal (sys_q s)) @ take 1 (frame_of rec))) vis sweep maxr = Inr q \<and>
    Ack io_ok i q = (None, q2) \<and> index q2 i = None \<and> wal_synced (wal q2) = length (wal_file (wal q2)) \<and>
    NewQueue fb clk (disk_ok (wal_file (wal q2))) vis sweep maxr = Inr q3 \<and> index q3 i \<noteq> None"
proof -
  have h: "history (wal (sys_q s)) (abs_ledger (sys_q s))"
    using uuid_lib.reachable_sys_ok [OF assms(1,2)] assms(3) by (simp add: sys_ok_def tracks_def)
  have "l_live (abs_ledger (sys_q s)) i = Some (durable (q_tasks (sys_q s) p))"
    using assms(4) by (simp add: abs_ledger_sel)
  from uuid_lib.acknowledged_and_back [OF assms(1) h this assms(5), of clk vis sweep maxr]
  show ?thesis by (fastforce simp: abs_ledger_sel)
qed

theorem acknowledged_task_returns_after_torn_tail_witness:
  "\<exists>q q2 q3. NewQueue FromBytes_copy (\<lambda>_. 400) (disk_ok (wal_file (wal demo1) @ take 1 (frame_of [9]))) 5 1 3 = Inr q \<and>
    Ack io_ok 7 q = (None, q2) \<and> index q2 7 = None \<and>
    NewQueue FromBytes_copy (\<lambda>_. 400) (disk_ok (wal_file (wal q2))) 5 1 3 = Inr q3 \<and> index q3 7 \<noteq> None"
  using acknowledged_task_returns_after_torn_tail [OF uuid_copy.uuid_lib_axioms demo_reachable(2), of 7 0 "[9]" "\<lambda>_. 400" 5 1 3]
  by (auto simp: demo1_simps)

text \<open>C37. A failed fsync poisons the log. If the append of an acknowledgement is written and its fsync fails, the
  call reports the error and leaves the memory alone, but the record stays in the file; a later retry of
  the same task is logged after it, and from then on opening the queue dereferences nil.\<close>

theorem failed_sync_breaks_recovery:
  assumes "uuid_lib fb" "reachable fb s" "written s = []" "index (sys_q s) i = Some p"
    "Retries (q_tasks (sys_q s) p) + 1 \<le> maxRetries (sys_q s)"
  shows "\<exists>q1 q2. Ack \<lparr>io_write = WriteOK, io_sync = Some e\<rparr> i (sys_q s) = (Some e, q1) \<and>
    Retry now rnd io_ok i q1 = (None, q2) \<and>
    NewQueue fb clk (disk_ok (wal_file (wal q2))) vis sweep maxr = Inl NilDeref"
proof -
  have "history (wal (sys_q s)) (abs_ledger (sys_q s))"
    using uuid_lib.reachable_sys_ok [OF assms(1,2)] assms(3) by (simp add: sys_ok_def tracks_def)
  from uuid_lib.failed_sync_poisons_log [OF assms(1) this assms(4,5)] show ?thesis by blast
qed

theorem failed_sync_breaks_recovery_witness:
  "\<exists>q1 q2. Ack \<lparr>io_write = WriteOK, io_sync = Some (ErrOS 5)\<rparr> 7 demo2 = (Some (ErrOS 5), q1) \<and>
    Retry 300 0 io_ok 7 q1 = (None, q2) \<and>
    NewQueue FromBytes_copy (\<lambda>_. 400) (disk_ok (wal_file (wal q2))) 5 1 3 = Inl NilDeref"
  using failed_sync_breaks_recovery [OF uuid_copy.uuid_lib_axioms demo_reachable(3), of 7 0 "ErrOS 5" 300 0 "\<lambda>_. 400" 5 1 3]
  by (simp add: demo2_simps)

text \<open>C38. A race on a key can break recovery. Two enqueues with the same key may be logged in one order and
  published in the other; after a retry of the task that won in memory, the log cannot be replayed. Every
  disk operation of the run succeeds.\<close>

theorem race_breaks_recovery:
  assumes "uuid_lib fb"
  shows "\<exists>s. istep\<^sup>*\<^sup>* (start 5 1 3) s \<and> submitted s = [] \<and> written s = [] \<and>
    NewQueue fb clk (disk_ok (wal_file (wal (sys_q s)))) vis sweep maxr = Inl NilDeref"
proof -
  obtain r1 r2 where r: "enqueue_record (race_task 1) = Inr r1" "enqueue_record (race_task 2) = Inr r2"
    by (simp add: enqueue_record_def encodeEnqueuePayload_def)
  from race_enqueues [OF r] obtain w where w: "wal_file w = log_of [r2, r1]"
    "istep\<^sup>*\<^sup>* (start 5 1 3) \<lparr>sys_q = race_queue w, submitted = [], written = []\<rparr>" by blast
  obtain q where q: "istep\<^sup>*\<^sup>* \<lparr>sys_q = race_queue w, submitted = [], written = []\<rparr>
      \<lparr>sys_q = q, submitted = [], written = []\<rparr>"
    "wal_file (wal q) = wal_file w @ frame_of (encodeRecord OperationRetry (uuid_bytes 1))"
    using race_retry [of w] by blast
  have "NewQueue fb clk (disk_ok (wal_file (wal q))) vis sweep maxr = Inl NilDeref"
    by (rule uuid_lib.race_log_fails [OF assms r]) (simp add: q(2) w(1))
  with rtranclp_trans [OF w(2) q(1)] show ?thesis by (intro exI [of _ "\<lparr>sys_q = q, submitted = [], written = []\<rparr>"]) simp
qed

theorem race_breaks_recovery_witness:
  "\<exists>s. istep\<^sup>*\<^sup>* (start 5 1 3) s \<and> NewQueue FromBytes_copy (\<lambda>_. 0) (disk_ok (wal_file (wal (sys_q s)))) 5 1 3 = Inl NilDeref"
  using race_breaks_recovery [OF uuid_copy.uuid_lib_axioms, of "\<lambda>_. 0" 5 1 3] by blast

text \<open>C39. Acknowledging a task after its lease was swept back. The acknowledgement succeeds, but the task stays at
  the root of the ready heap: it is delivered again, can then no longer be acknowledged, and once that
  lease has expired every sweep that comes to it ends with an error and skips the leases after it.\<close>

theorem swept_task_acknowledged_is_redelivered:
  assumes "queue_wf q" "ready q \<noteq> []" "AvailableAt (q_tasks q (hd (ready q))) \<le> now" "i = ID (q_tasks q (hd (ready q)))"
  shows "\<exists>q1 q2. Ack io_ok i q = (None, q1) \<and> Dequeue now q1 = (Some (hd (ready q)), q2) \<and>
    Ack i1 i q2 = (Some (ErrNotFound i), q2) \<and>
    (\<forall>s ss. sw_id s = i \<and> now + visibilityTimeout q < sw_check s \<longrightarrow>
       Sweeper (s # ss) q2 = (Some (ErrNotFound i), q2))"
  using swept_then_acknowledged [OF assms(1,2) refl assms(4,3)] .

theorem swept_task_acknowledged_is_redelivered_witness:
  "\<exists>q1 q2. Ack io_ok 7 demo1 = (None, q1) \<and> Dequeue 200 q1 = (Some 0, q2) \<and> Ack io_ok 7 q2 = (Some (ErrNotFound 7), q2)"
proof -
  have h: "hd (ready demo1) = 0" "ready demo1 \<noteq> []" by (simp_all add: demo1_simps)
  have "AvailableAt (q_tasks demo1 (hd (ready demo1))) \<le> 200" "7 = ID (q_tasks demo1 (hd (ready demo1)))"
    by (simp_all add: demo1_simps zeroTime_def)
  from swept_task_acknowledged_is_redelivered [OF demo1_simps(1) h(2) this, of io_ok] show ?thesis
    unfolding h(1) by blast
qed

section \<open>The sweeper's interval\<close>

text \<open>The command line accepts an interval of zero for the sweeper, with which its goroutine panics at the start.\<close>

lemma zero_sweep_panics:
  "(\<exists>cfg. parseFlags (\<lambda>c. c\<lparr>c_sweep := 0\<rparr>) tmp = Inr (cfg, True) \<and> c_sweep cfg = 0 \<and>
     sweeper (life_init w (c_sweep cfg)) = Panicked)"
  by (simp add: parseFlags_def default_config_def life_init_def)

end
